(* ===== verification/Prelude.thy ===== *)
theory Prelude
  imports Main "HOL-Library.Word"
begin

text \<open>
  Shared vocabulary of the development: the faults a C function can run into, the result type
  \<open>fault + 'a\<close> with its sequencing operator, fixed-width integer synonyms, checked indexing,
  wrap-around arithmetic on \<open>size_t\<close>/\<open>uint64_t\<close> values kept as \<open>nat\<close>, little-endian byte
  codecs, and the locale \<open>wire_codec\<close> that every fixed-size wire or memory layout of the
  program is an instance of.
\<close>

unbundle bit_operations_syntax

section \<open>Faults and fallible results\<close>

text \<open>
  What a call can do instead of returning: fail an \<^verbatim>\<open>assert\<close>, reach \<^verbatim>\<open>panic\<close>/\<^verbatim>\<open>exit(1)\<close>,
  access memory outside a live block, dereference NULL, free something that is not the start
  of a live heap block, overflow a signed integer, or never return.
\<close>

datatype fault =
    Assert_failed
  | Panic
  | Bad_access
  | Null_deref
  | Bad_free
  | Signed_overflow
  | No_return

type_synonym 'a result = "fault + 'a"

type_synonym u8 = "8 word"
type_synonym u16 = "16 word"
type_synonym u32 = "32 word"
type_synonym u64 = "64 word"

named_theorems result_simps \<open>evaluation of fallible memory accesses that are in bounds\<close>
named_theorems layout_simps \<open>sizes of the byte layouts\<close>

definition bindE :: "'a result \<Rightarrow> ('a \<Rightarrow> 'b result) \<Rightarrow> 'b result" where
  "bindE r f = (case r of Inl e \<Rightarrow> Inl e | Inr x \<Rightarrow> f x)"

lemma bindE_Inl [simp]: "bindE (Inl e) f = Inl e"
  by (simp add: bindE_def)

lemma bindE_Inr [simp]: "bindE (Inr x) f = f x"
  by (simp add: bindE_def)

lemma bindE_eq_Inr:
  "bindE r f = Inr y \<longleftrightarrow> (\<exists>x. r = Inr x \<and> f x = Inr y)"
  by (cases r) (auto simp: bindE_def)

lemma bindE_InrE [elim]:
  assumes "bindE r f = Inr y"
  obtains x where "r = Inr x" and "f x = Inr y"
  using assms by (auto simp: bindE_eq_Inr)

lemma bindE_cong [fundef_cong]:
  "r = r' \<Longrightarrow> (\<And>x. r' = Inr x \<Longrightarrow> f x = f' x) \<Longrightarrow> bindE r f = bindE r' f'"
  by (cases r') (auto simp: bindE_def)

definition assertE :: "bool \<Rightarrow> unit result" where
  "assertE b = (if b then Inr () else Inl Assert_failed)"

lemma assertE_True [simp]: "assertE True = Inr ()"
  by (simp add: assertE_def)

lemma assertE_False [simp]: "assertE False = Inl Assert_failed"
  by (simp add: assertE_def)

section \<open>Checked indexing\<close>

definition at_index :: "'a list \<Rightarrow> nat \<Rightarrow> 'a result" where
  "at_index xs i = (if i < length xs then Inr (xs ! i) else Inl Bad_access)"

lemma at_index_in [simp]: "i < length xs \<Longrightarrow> at_index xs i = Inr (xs ! i)"
  by (simp add: at_index_def)

lemma at_index_out: "length xs \<le> i \<Longrightarrow> at_index xs i = Inl Bad_access"
  by (simp add: at_index_def)

section \<open>Wrap-around on 64-bit and 32-bit unsigned values kept as nat\<close>

definition add64 :: "nat \<Rightarrow> nat \<Rightarrow> nat" where
  "add64 a b = (a + b) mod 2 ^ 64"

definition sub64 :: "nat \<Rightarrow> nat \<Rightarrow> nat" where
  "sub64 a b = (a + (2 ^ 64 - b mod 2 ^ 64)) mod 2 ^ 64"

definition wrap32 :: "nat \<Rightarrow> nat" where
  "wrap32 a = a mod 2 ^ 32"

lemma add64_small: "a + b < 2 ^ 64 \<Longrightarrow> add64 a b = a + b"
  by (simp add: add64_def)

lemma sub64_small: "b \<le> a \<Longrightarrow> a < 2 ^ 64 \<Longrightarrow> sub64 a b = a - b"
proof -
  assume le: "b \<le> a" and lt: "a < 2 ^ 64"
  then have "a + (2 ^ 64 - b mod 2 ^ 64) = (a - b) + 2 ^ 64"
    by simp
  moreover have "(a - b) < 2 ^ 64" using lt by simp
  ultimately show ?thesis by (simp add: sub64_def)
qed

lemma wrap32_small: "a < 2 ^ 32 \<Longrightarrow> wrap32 a = a"
  by (simp add: wrap32_def)

lemma wrap32_less [simp]: "wrap32 a < 2 ^ 32"
  by (simp add: wrap32_def)

section \<open>Masks\<close>

text \<open>\<open>i & (n - 1)\<close> is \<open>i mod n\<close> when \<open>n\<close> is a power of two.\<close>

lemma and_mask_eq_mod: "i AND (2 ^ k - 1) = i mod (2 ^ k :: nat)"
proof -
  have "i AND (2 ^ k - 1) = take_bit k i"
    by (simp add: take_bit_eq_mask mask_eq_exp_minus_1)
  then show ?thesis by (simp add: take_bit_eq_mod)
qed

text \<open>Fewer than \<open>n\<close> steps around a ring of \<open>n\<close> slots never meet twice.\<close>

lemma mod_add_inj:
  assumes "(i + x) mod n = (i + y) mod n" and "x < n" and "y < n"
  shows "x = (y :: nat)"
proof -
  have le: "a = b" if "a \<le> b" "b < n" "(i + a) mod n = (i + b) mod n" for a b
  proof -
    from that have "(i + b) mod n = (i + a) mod n" and "i + a \<le> i + b" by simp_all
    then have "n dvd (i + b) - (i + a)" by (simp only: mod_eq_dvd_iff_nat)
    with that show ?thesis by (auto dest!: dvd_imp_le)
  qed
  show ?thesis using le [of x y] le [of y x] assms by (cases "x \<le> y") auto
qed

section \<open>Little-endian bytes\<close>

fun le_bytes :: "nat \<Rightarrow> nat \<Rightarrow> u8 list" where
  "le_bytes 0 v = []"
| "le_bytes (Suc n) v = of_nat (v mod 256) # le_bytes n (v div 256)"

fun le_nat :: "u8 list \<Rightarrow> nat" where
  "le_nat [] = 0"
| "le_nat (b # bs) = unat b + 256 * le_nat bs"

lemma length_le_bytes [simp]: "length (le_bytes n v) = n"
  by (induction n v rule: le_bytes.induct) auto

lemma le_nat_le_bytes: "le_nat (le_bytes n v) = v mod 256 ^ n"
proof (induction n v rule: le_bytes.induct)
  case (1 v)
  then show ?case by simp
next
  case (2 n v)
  have "unat (of_nat (v mod 256) :: u8) = v mod 256"
    by (simp add: unat_of_nat)
  with 2 show ?case
    by (simp add: mod_mult2_eq)
qed

lemma le_nat_le_bytes_small [simp]: "v < 256 ^ n \<Longrightarrow> le_nat (le_bytes n v) = v"
  by (simp add: le_nat_le_bytes)

lemma unat_u8_less: "unat (b :: u8) < 256"
  using unsigned_less [of b, where ?'a = nat] by simp

lemma le_bytes_le_nat: "length bs = n \<Longrightarrow> le_bytes n (le_nat bs) = bs"
proof (induction bs arbitrary: n)
  case Nil
  then show ?case by simp
next
  case (Cons b bs)
  then obtain m where "n = Suc m" and "length bs = m" by (cases n) auto
  with Cons.IH have "le_bytes m (le_nat bs) = bs" by simp
  moreover have "(unat b + 256 * le_nat bs) mod 256 = unat b"
    and "(unat b + 256 * le_nat bs) div 256 = le_nat bs"
    using unat_u8_less [of b] by simp_all
  ultimately show ?case using \<open>n = Suc m\<close> by simp
qed

lemma le_nat_less: "le_nat bs < 256 ^ length bs"
proof (induction bs)
  case Nil
  then show ?case by simp
next
  case (Cons b bs)
  have "unat b + 256 * le_nat bs < 256 + 256 * le_nat bs"
    using unat_u8_less [of b] by simp
  also have "\<dots> = 256 * Suc (le_nat bs)" by simp
  also have "\<dots> \<le> 256 * 256 ^ length bs"
    using Cons by (intro mult_le_mono2) simp
  finally show ?case by simp
qed

section \<open>Fixed-size layouts\<close>

text \<open>
  The contract of a packed C struct: a size, an encoder and a decoder. Bytes that arrive in
  pieces, or that are followed by other bytes, decode to what was encoded.
\<close>

locale wire_codec =
  fixes enc :: "'a \<Rightarrow> u8 list" and dec :: "u8 list \<Rightarrow> 'a" and size_bytes :: nat
  assumes length_enc: "length (enc x) = size_bytes"
    and dec_enc: "dec (enc x) = x"
    and enc_dec: "length bs = size_bytes \<Longrightarrow> enc (dec bs) = bs"
begin

lemma dec_prefix: "dec (take size_bytes (enc x @ rest)) = x"
  by (simp add: length_enc dec_enc)

lemma drop_enc: "drop size_bytes (enc x @ rest) = rest"
  by (simp add: length_enc)

lemma enc_inject: "enc x = enc y \<longleftrightarrow> x = y"
  by (metis dec_enc)

lemma dec_inject:
  "length bs = size_bytes \<Longrightarrow> length cs = size_bytes \<Longrightarrow> dec bs = dec cs \<longleftrightarrow> bs = cs"
  by (metis enc_dec)

lemma dec_pieces: "concat pieces = enc x \<Longrightarrow> dec (concat pieces) = x"
  by (simp add: dec_enc)

end

section \<open>Options\<close>

lemma option_eq_iff: "a = b \<longleftrightarrow> (\<forall>x. a = Some x \<longleftrightarrow> b = Some x)"
  by (cases a; cases b) auto

lemma option_None_iff: "a = None \<longleftrightarrow> (\<forall>x. a \<noteq> Some x)"
  by (cases a) auto

end
