(* ===== verification/HashMap.thy ===== *)
theory HashMap
  imports Prelude
begin

text \<open>
  \<^verbatim>\<open>src/hashmap.c\<close>, lines 25-445: the open-addressed hash map with robin hood hashing. A bucket
  keeps 48 bits of the item's hash and, in 16 bits, its distance from the home slot plus one
  (0 = empty). The two callbacks \<^verbatim>\<open>map->hash\<close> and \<^verbatim>\<open>map->compare\<close> are function parameters of
  the operations, and may fault like any C function. \<open>size_t\<close> values are \<open>nat\<close>.

  Each \<^verbatim>\<open>for (;;)\<close> loop visits the slots in cyclic order; it is given one unit of fuel per slot
  and yields \<open>No_return\<close> when that runs out, since it would then start over on slots that did not
  stop it before. The invariant theorems show that it never does.
\<close>

section \<open>Data\<close>

record 'a bucket =
  b_hash :: "48 word"
  dib :: "16 word"
  b_item :: 'a

record 'a hashmap =
  oom :: bool
  cap :: nat
  seed0 :: u64
  seed1 :: u64
  nbuckets :: nat
  map_count :: nat
  map_mask :: nat
  growat :: nat
  shrinkat :: nat
  buckets :: "'a bucket list"

type_synonym 'a hash_fun = "'a \<Rightarrow> u64 \<Rightarrow> u64 \<Rightarrow> u64 result"
type_synonym 'a compare_fun = "'a \<Rightarrow> 'a \<Rightarrow> int result"

text \<open>A zero-filled bucket (\<^verbatim>\<open>memset(map->buckets, 0, ...)\<close>).\<close>

definition zero_bucket :: "'a::zero bucket" where
  "zero_bucket = \<lparr>b_hash = 0, dib = 0, b_item = 0\<rparr>"

section \<open>Operations\<close>

definition bucket_at :: "'a bucket list \<Rightarrow> nat \<Rightarrow> 'a bucket result" where
  "bucket_at bs i = at_index bs i"

definition clip_hash :: "u64 \<Rightarrow> 48 word" where
  "clip_hash h = ucast (drop_bit 16 (push_bit 16 h))"

definition get_hash :: "'a hash_fun \<Rightarrow> u64 \<Rightarrow> u64 \<Rightarrow> 'a \<Rightarrow> 48 word result" where
  "get_hash hash s0 s1 key = bindE (hash key s0 s1) (\<lambda>h. Inr (clip_hash h))"

text \<open>\<^verbatim>\<open>while (ncap < cap) ncap *= 2\<close> on the \<^verbatim>\<open>int ncap\<close>.\<close>

function double_ncap :: "nat \<Rightarrow> nat \<Rightarrow> nat result" where
  "double_ncap ncap c =
     (if ncap < c then
        if ncap = 0 \<or> 2 ^ 31 \<le> 2 * ncap then Inl Signed_overflow else double_ncap (2 * ncap) c
      else Inr ncap)"
  by pat_completeness auto
termination
  by (relation "measure (\<lambda>(ncap, c). c - ncap)") auto

declare double_ncap.simps [simp del]

text \<open>
  \<open>a1\<close> and \<open>a2\<close> tell whether the two allocations (the hm, then its buckets) succeed;
  \<open>Inr None\<close> is the NULL return.
\<close>

definition hashmap_new_with_allocator ::
  "bool \<times> bool \<Rightarrow> nat \<Rightarrow> u64 \<Rightarrow> u64 \<Rightarrow> 'a::zero hashmap option result" where
  "hashmap_new_with_allocator allocs c s0 s1 =
     bindE (if c < 16 then Inr 16 else double_ncap 16 c) (\<lambda>ncap.
       if fst allocs \<and> snd allocs then
         Inr (Some \<lparr>oom = False, cap = ncap, seed0 = s0, seed1 = s1, nbuckets = ncap,
                    map_count = 0, map_mask = ncap - 1, growat = ncap * 3 div 4,
                    shrinkat = ncap div 10, buckets = replicate ncap zero_bucket\<rparr>)
       else Inr None)"

definition hashmap_new :: "bool \<times> bool \<Rightarrow> nat \<Rightarrow> u64 \<Rightarrow> u64 \<Rightarrow> 'a::zero hashmap option result" where
  "hashmap_new allocs c s0 s1 = hashmap_new_with_allocator allocs c s0 s1"

text \<open>\<open>alloc\<close> tells whether the allocation that a shrink back to \<open>cap\<close> needs succeeds.\<close>

definition hashmap_clear :: "bool \<Rightarrow> 'a::zero hashmap \<Rightarrow> bool \<Rightarrow> 'a hashmap" where
  "hashmap_clear alloc hm update_cap =
     (let hm = hm\<lparr>map_count := 0\<rparr>;
          hm = (if update_cap then hm\<lparr>cap := nbuckets hm\<rparr>
                 else if nbuckets hm \<noteq> cap hm then
                   let hm = (if alloc then hm\<lparr>buckets := replicate (cap hm) zero_bucket\<rparr> else hm)
                   in hm\<lparr>nbuckets := cap hm\<rparr>
                 else hm);
          n = nbuckets hm
      in hm\<lparr>buckets := replicate n zero_bucket @ drop n (buckets hm),
             map_mask := n - 1, growat := n * 3 div 4, shrinkat := n div 10\<rparr>)"

text \<open>The inner loop of \<open>resize\<close>: place \<open>entry\<close> from slot \<open>j\<close> on, displacing richer buckets.\<close>

fun insert_loop :: "nat \<Rightarrow> nat \<Rightarrow> 'a bucket list \<Rightarrow> 'a bucket \<Rightarrow> nat \<Rightarrow> 'a bucket list result" where
  "insert_loop 0 m bs entry j = Inl No_return"
| "insert_loop (Suc fuel) m bs entry j =
     bindE (bucket_at bs j) (\<lambda>bucket.
       if dib bucket = 0 then Inr (bs[j := entry])
       else let (bs', entry') = (if dib bucket < dib entry then (bs[j := entry], bucket)
                                 else (bs, entry))
            in insert_loop fuel m bs' (entry'\<lparr>dib := dib entry' + 1\<rparr>) ((j + 1) AND m))"

text \<open>The outer loop of \<open>resize\<close> over the old buckets.\<close>

fun rehash_loop :: "nat \<Rightarrow> nat \<Rightarrow> 'a bucket list \<Rightarrow> 'a bucket list \<Rightarrow> 'a bucket list result" where
  "rehash_loop n m [] bs = Inr bs"
| "rehash_loop n m (entry # old) bs =
     (if dib entry = 0 then rehash_loop n m old bs
      else bindE (insert_loop n m bs (entry\<lparr>dib := 1\<rparr>) (unat (b_hash entry) AND m)) (\<lambda>bs'.
             rehash_loop n m old bs'))"

definition resize :: "bool \<times> bool \<Rightarrow> 'a::zero hashmap \<Rightarrow> nat \<Rightarrow> ('a hashmap \<times> bool) result" where
  "resize allocs hm new_cap =
     bindE (hashmap_new_with_allocator allocs new_cap (seed0 hm) (seed1 hm)) (\<lambda>r.
       case r of
         None \<Rightarrow> Inr (hm, False)
       | Some hm2 \<Rightarrow>
           bindE (rehash_loop (nbuckets hm2) (map_mask hm2) (take (nbuckets hm) (buckets hm))
                    (buckets hm2)) (\<lambda>bs.
             Inr (hm\<lparr>buckets := bs, nbuckets := nbuckets hm2, map_mask := map_mask hm2,
                      growat := growat hm2, shrinkat := shrinkat hm2\<rparr>, True)))"

text \<open>
  The loop of \<open>hashmap_set\<close>. The result is the new buckets and the replaced item, NULL when a
  bucket was added.
\<close>

fun set_loop :: "nat \<Rightarrow> 'a compare_fun \<Rightarrow> nat \<Rightarrow> 'a bucket list \<Rightarrow> 'a bucket \<Rightarrow> nat \<Rightarrow>
    ('a bucket list \<times> 'a option) result" where
  "set_loop 0 compare m bs entry i = Inl No_return"
| "set_loop (Suc fuel) compare m bs entry i =
     bindE (bucket_at bs i) (\<lambda>bucket.
       if dib bucket = 0 then Inr (bs[i := entry], None)
       else
         bindE (if b_hash entry = b_hash bucket
                then bindE (compare (b_item entry) (b_item bucket)) (\<lambda>c. Inr (c = 0))
                else Inr False) (\<lambda>same.
           if same then Inr (bs[i := bucket\<lparr>b_item := b_item entry\<rparr>], Some (b_item bucket))
           else
             let (bs', entry') = (if dib bucket < dib entry then (bs[i := entry], bucket)
                                  else (bs, entry))
             in set_loop fuel compare m bs' (entry'\<lparr>dib := dib entry' + 1\<rparr>) ((i + 1) AND m)))"

definition hashmap_set :: "'a hash_fun \<Rightarrow> 'a compare_fun \<Rightarrow> bool \<times> bool \<Rightarrow> 'a::zero hashmap \<Rightarrow> 'a \<Rightarrow>
    ('a hashmap \<times> 'a option) result" where
  "hashmap_set hash compare allocs hm item =
     (let hm = hm\<lparr>oom := False\<rparr> in
      bindE (if map_count hm = growat hm then resize allocs hm (nbuckets hm * 2)
             else Inr (hm, True)) (\<lambda>(hm, grown).
        if \<not> grown then Inr (hm\<lparr>oom := True\<rparr>, None)
        else
          bindE (get_hash hash (seed0 hm) (seed1 hm) item) (\<lambda>h.
          bindE (set_loop (nbuckets hm) compare (map_mask hm) (buckets hm)
                   \<lparr>b_hash = h, dib = 1, b_item = item\<rparr> (unat h AND map_mask hm)) (\<lambda>(bs, old).
            Inr (hm\<lparr>buckets := bs,
                     map_count := (if old = None then map_count hm + 1 else map_count hm)\<rparr>,
                 old)))))"

text \<open>The loop of \<open>hashmap_get\<close> and \<open>hashmap_delete\<close>: the slot of the key, if any.\<close>

fun find_loop :: "nat \<Rightarrow> 'a compare_fun \<Rightarrow> nat \<Rightarrow> 'a bucket list \<Rightarrow> 48 word \<Rightarrow> 'a \<Rightarrow> nat \<Rightarrow>
    nat option result" where
  "find_loop 0 compare m bs h key i = Inl No_return"
| "find_loop (Suc fuel) compare m bs h key i =
     bindE (bucket_at bs i) (\<lambda>bucket.
       if dib bucket = 0 then Inr None
       else
         bindE (if b_hash bucket = h
                then bindE (compare key (b_item bucket)) (\<lambda>c. Inr (c = 0))
                else Inr False) (\<lambda>same.
           if same then Inr (Some i)
           else find_loop fuel compare m bs h key ((i + 1) AND m)))"

definition hashmap_get ::
  "'a hash_fun \<Rightarrow> 'a compare_fun \<Rightarrow> 'a hashmap \<Rightarrow> 'a \<Rightarrow> 'a option result" where
  "hashmap_get hash compare hm key =
     bindE (get_hash hash (seed0 hm) (seed1 hm) key) (\<lambda>h.
     bindE (find_loop (nbuckets hm) compare (map_mask hm) (buckets hm) h key
              (unat h AND map_mask hm)) (\<lambda>r.
       case r of None \<Rightarrow> Inr None
       | Some i \<Rightarrow> bindE (bucket_at (buckets hm) i) (\<lambda>b. Inr (Some (b_item b)))))"

definition hashmap_probe :: "'a hashmap \<Rightarrow> u64 \<Rightarrow> 'a option result" where
  "hashmap_probe hm position =
     bindE (bucket_at (buckets hm) (unat position AND map_mask hm)) (\<lambda>bucket.
       if dib bucket = 0 then Inr None else Inr (Some (b_item bucket)))"

text \<open>The backward shift of \<open>hashmap_delete\<close>; \<open>prev\<close> is the slot to fill or empty.\<close>

fun shift_loop :: "nat \<Rightarrow> nat \<Rightarrow> 'a bucket list \<Rightarrow> nat \<Rightarrow> 'a bucket list result" where
  "shift_loop 0 m bs prev = Inl No_return"
| "shift_loop (Suc fuel) m bs prev =
     (let i = (prev + 1) AND m in
      bindE (bucket_at bs i) (\<lambda>bucket.
      bindE (bucket_at bs prev) (\<lambda>pb.
        if dib bucket \<le> 1 then Inr (bs[prev := pb\<lparr>dib := 0\<rparr>])
        else shift_loop fuel m (bs[prev := bucket\<lparr>dib := dib bucket - 1\<rparr>]) i)))"

definition hashmap_delete :: "'a hash_fun \<Rightarrow> 'a compare_fun \<Rightarrow> bool \<times> bool \<Rightarrow> 'a::zero hashmap \<Rightarrow> 'a \<Rightarrow>
    ('a hashmap \<times> 'a option) result" where
  "hashmap_delete hash compare allocs hm key =
     (let hm = hm\<lparr>oom := False\<rparr> in
      bindE (get_hash hash (seed0 hm) (seed1 hm) key) (\<lambda>h.
      bindE (find_loop (nbuckets hm) compare (map_mask hm) (buckets hm) h key
               (unat h AND map_mask hm)) (\<lambda>r.
        case r of None \<Rightarrow> Inr (hm, None)
        | Some i \<Rightarrow>
            bindE (bucket_at (buckets hm) i) (\<lambda>bucket.
            bindE (shift_loop (nbuckets hm) (map_mask hm)
                     ((buckets hm)[i := bucket\<lparr>dib := 0\<rparr>]) i) (\<lambda>bs.
            let hm = hm\<lparr>buckets := bs, map_count := map_count hm - 1\<rparr> in
            if nbuckets hm > cap hm \<and> map_count hm \<le> shrinkat hm then
              bindE (resize allocs hm (nbuckets hm div 2)) (\<lambda>(hm, _).
                Inr (hm, Some (b_item bucket)))
            else Inr (hm, Some (b_item bucket)))))))"

definition hashmap_count :: "'a hashmap \<Rightarrow> nat" where
  "hashmap_count hm = map_count hm"

definition hashmap_oom :: "'a hashmap \<Rightarrow> bool" where
  "hashmap_oom hm = oom hm"

text \<open>
  \<open>hashmap_scan\<close>: the callback returns whether to go on and its new \<open>udata\<close>; it stands for the
  function pointer.
\<close>

fun scan_loop :: "('a \<Rightarrow> 'u \<Rightarrow> bool \<times> 'u) \<Rightarrow> 'a bucket list \<Rightarrow> 'u \<Rightarrow> bool \<times> 'u" where
  "scan_loop iter [] udata = (True, udata)"
| "scan_loop iter (bucket # rest) udata =
     (if dib bucket \<noteq> 0 then
        let (go, udata') = iter (b_item bucket) udata in
        if \<not> go then (False, udata') else scan_loop iter rest udata'
      else scan_loop iter rest udata)"

definition hashmap_scan :: "'a hashmap \<Rightarrow> ('a \<Rightarrow> 'u \<Rightarrow> bool \<times> 'u) \<Rightarrow> 'u \<Rightarrow> bool \<times> 'u" where
  "hashmap_scan hm iter udata = scan_loop iter (take (nbuckets hm) (buckets hm)) udata"

text \<open>\<open>hashmap_iter\<close>: the new cursor and the item, None at the end.\<close>

function iter_loop :: "nat \<Rightarrow> 'a bucket list \<Rightarrow> nat \<Rightarrow> (nat \<times> 'a option) result" where
  "iter_loop n bs i =
     (if n \<le> i then Inr (i, None)
      else bindE (bucket_at bs i) (\<lambda>bucket.
             if dib bucket = 0 then iter_loop n bs (i + 1)
             else Inr (i + 1, Some (b_item bucket))))"
  by pat_completeness auto
termination
  by (relation "measure (\<lambda>(n, bs, i). n - i)") auto

declare iter_loop.simps [simp del]

definition hashmap_iter :: "'a hashmap \<Rightarrow> nat \<Rightarrow> (nat \<times> 'a option) result" where
  "hashmap_iter hm i = iter_loop (nbuckets hm) (buckets hm) i"

text \<open>
  \<open>free_elements\<close> hands every item to the callback \<open>elfree\<close>, None for NULL, which changes a state of the caller and
  may fault. \<open>hashmap_free\<close> then releases the buckets and the table itself, which are not used any more, and
  \<open>hashmap_clear_freeing\<close> is \<open>hashmap_clear\<close> for a table with such a callback.
\<close>

fun free_loop :: "('a \<Rightarrow> 's \<Rightarrow> 's result) \<Rightarrow> 'a bucket list \<Rightarrow> nat \<Rightarrow> nat \<Rightarrow> 's \<Rightarrow> 's result" where
  "free_loop elfree bs i 0 s = Inr s"
| "free_loop elfree bs i (Suc n) s =
     bindE (bucket_at bs i) (\<lambda>bucket.
     bindE (if dib bucket \<noteq> 0 then elfree (b_item bucket) s else Inr s) (\<lambda>s.
       free_loop elfree bs (i + 1) n s))"

definition free_elements :: "('a \<Rightarrow> 's \<Rightarrow> 's result) option \<Rightarrow> 'a hashmap \<Rightarrow> 's \<Rightarrow> 's result" where
  "free_elements elfree hm s =
     (case elfree of None \<Rightarrow> Inr s | Some f \<Rightarrow> free_loop f (buckets hm) 0 (nbuckets hm) s)"

definition hashmap_free :: "('a \<Rightarrow> 's \<Rightarrow> 's result) option \<Rightarrow> 'a hashmap option \<Rightarrow> 's \<Rightarrow> 's result" where
  "hashmap_free elfree table s = (case table of None \<Rightarrow> Inr s | Some hm \<Rightarrow> free_elements elfree hm s)"

definition hashmap_clear_freeing :: "('a::zero \<Rightarrow> 's \<Rightarrow> 's result) option \<Rightarrow> bool \<Rightarrow> 'a hashmap \<Rightarrow> bool \<Rightarrow> 's \<Rightarrow>
    ('a hashmap \<times> 's) result" where
  "hashmap_clear_freeing elfree alloc hm update_cap s =
     bindE (free_elements elfree (hm\<lparr>map_count := 0\<rparr>) s) (\<lambda>s. Inr (hashmap_clear alloc hm update_cap, s))"

end
