(* ===== verification/RobinHood.thy ===== *)
theory RobinHood
  imports HashMap
begin

text \<open>
  The robin hood table on its own: the invariant \<open>rh_table\<close> of the bucket array and what the
  loops of \<^verbatim>\<open>src/hashmap.c\<close> do to a table that satisfies it. The callbacks are those of the locale
  \<open>item_callbacks\<close>, the contract \<^verbatim>\<open>hashmap_new\<close> asks of \<^verbatim>\<open>hash\<close> and \<^verbatim>\<open>compare\<close>.
\<close>

section \<open>The invariant and the contents of a table\<close>

abbreviation dist_at :: "'a bucket list \<Rightarrow> nat \<Rightarrow> nat" where
  "dist_at bs i \<equiv> unat (dib (bs ! i))"

text \<open>A bucket sits \<open>dib - 1\<close> slots after the home slot of its hash.\<close>

definition seated :: "nat \<Rightarrow> 'a bucket \<Rightarrow> nat \<Rightarrow> bool" where
  "seated n b i \<longleftrightarrow> (unat (b_hash b) + (unat (dib b) - 1)) mod n = i"

definition rh_table ::
  "('a \<Rightarrow> bool) \<Rightarrow> ('a \<Rightarrow> 48 word) \<Rightarrow> ('a \<Rightarrow> 'k) \<Rightarrow> nat \<Rightarrow> 'a bucket list \<Rightarrow> bool" where
  "rh_table ok hv key n bs \<longleftrightarrow>
     n \<le> length bs \<and>
     (\<forall>i<n. dib (bs ! i) \<noteq> 0 \<longrightarrow>
        seated n (bs ! i) i \<and> ok (b_item (bs ! i)) \<and> b_hash (bs ! i) = hv (b_item (bs ! i))) \<and>
     (\<forall>i<n. dist_at bs ((i + 1) mod n) \<le> dist_at bs i + 1) \<and>
     (\<forall>i<n. \<forall>j<n. dib (bs ! i) \<noteq> 0 \<longrightarrow> dib (bs ! j) \<noteq> 0 \<longrightarrow>
        key (b_item (bs ! i)) = key (b_item (bs ! j)) \<longrightarrow> i = j)"

definition occupied :: "nat \<Rightarrow> 'a bucket list \<Rightarrow> nat set" where
  "occupied n bs = {i. i < n \<and> dib (bs ! i) \<noteq> 0}"

definition items :: "nat \<Rightarrow> 'a bucket list \<Rightarrow> 'a set" where
  "items n bs = (\<lambda>i. b_item (bs ! i)) ` occupied n bs"

text \<open>The finite map a table stands for: the item stored under a key.\<close>

definition table_map :: "('a \<Rightarrow> 'k) \<Rightarrow> nat \<Rightarrow> 'a bucket list \<Rightarrow> 'k \<Rightarrow> 'a option" where
  "table_map key n bs k =
     map_option b_item (find (\<lambda>b. dib b \<noteq> 0 \<and> key (b_item b) = k) (take n bs))"

lemma finite_occupied [simp]: "finite (occupied n bs)"
  by (simp add: occupied_def)

lemma finite_items [simp]: "finite (items n bs)"
  by (simp add: items_def)

lemma itemsI: "i < n \<Longrightarrow> dib (bs ! i) \<noteq> 0 \<Longrightarrow> b_item (bs ! i) \<in> items n bs"
  by (auto simp: items_def occupied_def)

lemma itemsE:
  assumes "x \<in> items n bs"
  obtains i where "i < n" "dib (bs ! i) \<noteq> 0" "x = b_item (bs ! i)"
  using assms by (auto simp: items_def occupied_def)

lemma unat_dib_eq_0 [simp]: "unat (d :: 16 word) = 0 \<longleftrightarrow> d = 0"
  by (simp add: unat_eq_0)

lemma rh_tableD:
  assumes "rh_table ok hv key n bs"
  shows "n \<le> length bs"
    and "i < n \<Longrightarrow> dib (bs ! i) \<noteq> 0 \<Longrightarrow> seated n (bs ! i) i"
    and "i < n \<Longrightarrow> dib (bs ! i) \<noteq> 0 \<Longrightarrow> ok (b_item (bs ! i))"
    and "i < n \<Longrightarrow> dib (bs ! i) \<noteq> 0 \<Longrightarrow> b_hash (bs ! i) = hv (b_item (bs ! i))"
    and "i < n \<Longrightarrow> dist_at bs ((i + 1) mod n) \<le> dist_at bs i + 1"
    and "i < n \<Longrightarrow> j < n \<Longrightarrow> dib (bs ! i) \<noteq> 0 \<Longrightarrow> dib (bs ! j) \<noteq> 0 \<Longrightarrow>
         key (b_item (bs ! i)) = key (b_item (bs ! j)) \<Longrightarrow> i = j"
  using assms by (auto simp: rh_table_def)

lemma card_items:
  assumes "rh_table ok hv key n bs"
  shows "card (items n bs) = card (occupied n bs)"
  unfolding items_def
proof (rule card_image)
  show "inj_on (\<lambda>i. b_item (bs ! i)) (occupied n bs)"
    using rh_tableD(6) [OF assms] by (auto simp: inj_on_def occupied_def)
qed

lemma items_ok: "rh_table ok hv key n bs \<Longrightarrow> x \<in> items n bs \<Longrightarrow> ok x"
  by (auto elim!: itemsE dest: rh_tableD(3))

lemma items_key_inj:
  assumes "rh_table ok hv key n bs" "x \<in> items n bs" "y \<in> items n bs" "key x = key y"
  shows "x = y"
  using assms by (auto elim!: itemsE dest: rh_tableD(6))

lemma table_map_Some:
  assumes "rh_table ok hv key n bs"
  shows "table_map key n bs k = Some x \<longleftrightarrow> x \<in> items n bs \<and> key x = k"
proof -
  let ?P = "\<lambda>b. dib b \<noteq> 0 \<and> key (b_item b) = k"
  have len: "n \<le> length bs" using assms by (rule rh_tableD)
  show ?thesis
  proof
    assume "table_map key n bs k = Some x"
    then obtain b where b: "find ?P (take n bs) = Some b" and x: "x = b_item b"
      by (auto simp: table_map_def)
    from b obtain i where "i < n" "?P (bs ! i)" "b = bs ! i"
      using len by (auto simp: find_Some_iff)
    with x show "x \<in> items n bs \<and> key x = k" by (auto intro: itemsI)
  next
    assume r: "x \<in> items n bs \<and> key x = k"
    then obtain i where i: "i < n" "dib (bs ! i) \<noteq> 0" "x = b_item (bs ! i)"
      by (auto elim: itemsE)
    have "find ?P (take n bs) \<noteq> None"
      using i r len by (auto simp: find_None_iff in_set_conv_nth)
    then obtain b where b: "find ?P (take n bs) = Some b" by auto
    then obtain j where j: "j < n" "?P (bs ! j)" "b = bs ! j"
      using len by (auto simp: find_Some_iff)
    with i r rh_tableD(6) [OF assms] have "j = i" by blast
    with b i j show "table_map key n bs k = Some x" by (simp add: table_map_def)
  qed
qed

lemma table_map_None:
  assumes "rh_table ok hv key n bs"
  shows "table_map key n bs k = None \<longleftrightarrow> k \<notin> key ` items n bs"
  by (subst option_None_iff) (auto simp: table_map_Some [OF assms])

lemma table_map_insert:
  assumes "rh_table ok hv key n bs" and "rh_table ok hv key n' bs'"
    and "items n' bs' = insert x (items n bs - {y. key y = key x})"
  shows "table_map key n' bs' = (table_map key n bs)(key x \<mapsto> x)"
  by (intro ext, subst option_eq_iff)
    (auto simp: table_map_Some [OF assms(1)] table_map_Some [OF assms(2)] assms(3))

lemma table_map_remove:
  assumes "rh_table ok hv key n bs" and "rh_table ok hv key n' bs'"
    and "items n' bs' = items n bs - {y. key y = k}"
  shows "table_map key n' bs' = (table_map key n bs)(k := None)"
  by (intro ext, subst option_eq_iff)
    (auto simp: table_map_Some [OF assms(1)] table_map_Some [OF assms(2)] assms(3))

lemma table_map_same_items:
  assumes "rh_table ok hv key n bs" and "rh_table ok hv key n' bs'"
    and "items n' bs' = items n bs"
  shows "table_map key n' bs' = table_map key n bs"
  by (intro ext, subst option_eq_iff)
    (simp add: table_map_Some [OF assms(1)] table_map_Some [OF assms(2)] assms(3))

section \<open>Walking around the table\<close>

lemma mod_step: "((i + t) mod n + 1) mod n = (i + Suc t) mod (n :: nat)"
  by (simp add: mod_simps)

lemma dist_walk:
  assumes "rh_table ok hv key n bs" and "0 < n"
  shows "dist_at bs ((i + t) mod n) \<le> dist_at bs (i mod n) + t"
proof (induction t)
  case 0
  then show ?case by simp
next
  case (Suc t)
  have "dist_at bs (((i + t) mod n + 1) mod n) \<le> dist_at bs ((i + t) mod n) + 1"
    using assms by (intro rh_tableD(5)) auto
  with Suc show ?case by (simp only: mod_step)
qed

text \<open>Between a bucket's home slot and the bucket, every slot is at least as far from home.\<close>

lemma run_before:
  assumes "rh_table ok hv key n bs" and "0 < n"
    and "D = dist_at bs ((h + (D - 1)) mod n)" and "t < D"
  shows "t + 1 \<le> dist_at bs ((h + t) mod n)"
proof -
  have "h + (D - 1) = (h + t) + (D - 1 - t)" using assms(4) by simp
  then have "D \<le> dist_at bs ((h + t) mod n) + (D - 1 - t)"
    using dist_walk [OF assms(1,2), of "h + t" "D - 1 - t"] assms(3)
    by (simp only: mod_mod_trivial)
  with assms(4) show ?thesis by linarith
qed

text \<open>The first empty slot from \<open>i\<close> on is no farther than there are occupied slots.\<close>

lemma first_empty:
  assumes "card (occupied n bs) < n"
  obtains t where "t < n" "t \<le> card (occupied n bs)" "dib (bs ! ((i + t) mod n)) = 0"
    and "\<forall>s<t. dib (bs ! ((i + s) mod n)) \<noteq> 0"
proof -
  have n: "0 < n" using assms by simp
  define c where "c = card (occupied n bs)"
  have "\<exists>s\<le>c. dib (bs ! ((i + s) mod n)) = 0"
  proof (rule ccontr)
    assume "\<not> (\<exists>s\<le>c. dib (bs ! ((i + s) mod n)) = 0)"
    then have sub: "(\<lambda>s. (i + s) mod n) ` {0..c} \<subseteq> occupied n bs"
      using n by (auto simp: occupied_def)
    have "inj_on (\<lambda>s. (i + s) mod n) {0..c}"
      using assms by (auto intro!: inj_onI dest!: mod_add_inj simp: c_def)
    then have "card {0..c} \<le> c"
      using card_mono [OF finite_occupied sub] by (simp add: card_image c_def)
    then show False by simp
  qed
  then obtain s where s: "s \<le> c" "dib (bs ! ((i + s) mod n)) = 0" by blast
  define t where "t = (LEAST s. dib (bs ! ((i + s) mod n)) = 0)"
  have "dib (bs ! ((i + t) mod n)) = 0" and "t \<le> s"
    unfolding t_def using s(2) by (rule LeastI, rule Least_le)
  moreover have "\<forall>s<t. dib (bs ! ((i + s) mod n)) \<noteq> 0"
    unfolding t_def using not_less_Least by blast
  ultimately show thesis
    using that [of t] s(1) assms by (auto simp: c_def)
qed

end
