(* ===== verification/RobinHoodLoops.thy ===== *)
theory RobinHoodLoops
  imports RobinHood
begin

text \<open>
  The loops of \<^verbatim>\<open>src/hashmap.c\<close> on a table that satisfies the invariant: the insertion loop of
  \<open>resize\<close>, the search loop of \<open>hashmap_get\<close> and \<open>hashmap_delete\<close>, the loop of \<open>hashmap_set\<close> and
  the backward shift of \<open>hashmap_delete\<close>. Each returns within one round of the table, keeps the
  invariant and changes the stored items as it should.
\<close>

section \<open>Placing a bucket\<close>

text \<open>\<open>m\<close> is the mask of a table of \<open>n\<close> slots.\<close>

definition mask_of :: "nat \<Rightarrow> nat \<Rightarrow> bool" where
  "mask_of n m \<longleftrightarrow> (\<exists>k. n = 2 ^ k \<and> 4 \<le> k \<and> m = n - 1)"

lemma mask_of_mod: "mask_of n m \<Longrightarrow> x AND m = x mod n"
  by (auto simp: mask_of_def and_mask_eq_mod simp del: One_nat_def)

lemma mask_of_ge_16: "mask_of n m \<Longrightarrow> 16 \<le> n"
  using power_increasing [of 4 _ "2::nat"] by (auto simp: mask_of_def)

lemma mask_of_ge_2: "mask_of n m \<Longrightarrow> 2 \<le> n"
  using mask_of_ge_16 by force

lemma next_slot_neq: "2 \<le> n \<Longrightarrow> i < n \<Longrightarrow> (i + 1) mod n \<noteq> (i :: nat)"
  by (auto simp: mod_if)

text \<open>
  \<open>entry\<close> may go to slot \<open>i\<close>: it is one step at most farther from home than the bucket before,
  and its key is not in the table.
\<close>

definition carried :: "('a \<Rightarrow> bool) \<Rightarrow> ('a \<Rightarrow> 48 word) \<Rightarrow> ('a \<Rightarrow> 'k) \<Rightarrow> nat \<Rightarrow> 'a bucket list \<Rightarrow>
    'a bucket \<Rightarrow> nat \<Rightarrow> bool" where
  "carried ok hv key n bs e i \<longleftrightarrow>
     dib e \<noteq> 0 \<and> seated n e i \<and> ok (b_item e) \<and> b_hash e = hv (b_item e) \<and>
     key (b_item e) \<notin> key ` items n bs \<and>
     (\<forall>p<n. (p + 1) mod n = i \<longrightarrow> unat (dib e) \<le> dist_at bs p + 1)"

lemma rh_put:
  assumes T: "rh_table ok hv key n bs" and i: "i < n" and n: "2 \<le> n"
    and e: "dib e \<noteq> 0" "seated n e i" "ok (b_item e)" "b_hash e = hv (b_item e)"
    and fresh: "\<And>j. j < n \<Longrightarrow> j \<noteq> i \<Longrightarrow> dib (bs ! j) \<noteq> 0 \<Longrightarrow> key (b_item (bs ! j)) \<noteq> key (b_item e)"
    and pred: "\<And>p. p < n \<Longrightarrow> (p + 1) mod n = i \<Longrightarrow> unat (dib e) \<le> dist_at bs p + 1"
    and succ: "dist_at bs ((i + 1) mod n) \<le> unat (dib e) + 1"
  shows "rh_table ok hv key n (bs[i := e])"
proof -
  have len: "i < length bs" using i rh_tableD(1) [OF T] by simp
  have "dist_at (bs[i := e]) ((p + 1) mod n) \<le> dist_at (bs[i := e]) p + 1" if p: "p < n" for p
    using p len i n pred [OF p] succ next_slot_neq [OF n p] rh_tableD(5) [OF T p]
    by (cases "p = i"; cases "(p + 1) mod n = i") (simp_all add: nth_list_update)
  moreover have "j = k"
    if "j < n" "k < n" "dib (bs[i := e] ! j) \<noteq> 0" "dib (bs[i := e] ! k) \<noteq> 0"
      "key (b_item (bs[i := e] ! j)) = key (b_item (bs[i := e] ! k))" for j k
    using that fresh rh_tableD(6) [OF T] len
    by (auto simp: nth_list_update split: if_splits)
  ultimately show ?thesis
    using rh_tableD(1-4) [OF T] e len by (auto simp: rh_table_def nth_list_update)
qed

lemma items_put:
  assumes "i < n" "n \<le> length bs" "dib e \<noteq> 0"
  shows "insert x (items n (bs[i := e])) =
         insert x (insert (b_item e) {b_item (bs ! j) | j. j < n \<and> j \<noteq> i \<and> dib (bs ! j) \<noteq> 0})"
  using assms by (fastforce simp: items_def occupied_def nth_list_update image_iff)

lemma items_split:
  assumes "i < n" "dib (bs ! i) \<noteq> 0"
  shows "items n bs =
         insert (b_item (bs ! i)) {b_item (bs ! j) | j. j < n \<and> j \<noteq> i \<and> dib (bs ! j) \<noteq> 0}"
  using assms by (fastforce simp: items_def occupied_def image_iff)

lemma occupied_put:
  "i < n \<Longrightarrow> n \<le> length bs \<Longrightarrow> dib e \<noteq> 0 \<Longrightarrow> occupied n (bs[i := e]) = insert i (occupied n bs)"
  by (auto simp: occupied_def nth_list_update)

lemma seated_next:
  assumes "seated n b i" and "dib b \<noteq> 0" and "unat (dib b) + 1 < 2 ^ 16"
  shows "seated n (b\<lparr>dib := dib b + 1\<rparr>) ((i + 1) mod n)"
    and "unat (dib b + 1) = unat (dib b) + 1"
proof -
  show u: "unat (dib b + 1) = unat (dib b) + 1"
    using assms(3) by (simp add: unat_word_ariths)
  have "unat (dib b) \<noteq> 0" using assms(2) by simp
  then have "unat (b_hash b) + unat (dib b) = unat (b_hash b) + (unat (dib b) - 1) + 1"
    by linarith
  then have "(unat (b_hash b) + unat (dib b)) mod n
      = ((unat (b_hash b) + (unat (dib b) - 1)) mod n + 1) mod n"
    by (simp only: mod_add_left_eq)
  also have "\<dots> = (i + 1) mod n" using assms(1) by (simp add: seated_def)
  finally show "seated n (b\<lparr>dib := dib b + 1\<rparr>) ((i + 1) mod n)"
    using u by (simp add: seated_def)
qed

text \<open>An empty slot takes the entry.\<close>

lemma place_empty:
  assumes T: "rh_table ok hv key n bs" and c: "carried ok hv key n bs e i" and i: "i < n"
    and n: "2 \<le> n" and empty: "dib (bs ! i) = 0"
  shows "rh_table ok hv key n (bs[i := e])"
    and "items n (bs[i := e]) = insert (b_item e) (items n bs)"
proof -
  have "dist_at bs ((i + 1) mod n) \<le> 1" using rh_tableD(5) [OF T i] empty by simp
  with assms show "rh_table ok hv key n (bs[i := e])"
    by (intro rh_put) (auto simp: carried_def items_def occupied_def image_iff)
  show "items n (bs[i := e]) = insert (b_item e) (items n bs)"
    using c i rh_tableD(1) [OF T] empty
    by (fastforce simp: carried_def items_def occupied_def nth_list_update image_iff)
qed

lemma next_slot_unique:
  fixes i n :: nat
  assumes "i < n" and "p < n" and "(p + 1) mod n = (i + 1) mod n"
  shows "p = i"
  using assms mod_add_inj [of 1 p n i] by (simp add: add.commute)

text \<open>
  At an occupied slot the entry either passes or takes the slot of a bucket closer to its home,
  which is carried on instead.
\<close>

lemma displace_step:
  assumes T: "rh_table ok hv key n bs" and c: "carried ok hv key n bs e i" and i: "i < n"
    and n: "2 \<le> n" and occ: "dib (bs ! i) \<noteq> 0" and small: "unat (dib e) + 1 < 2 ^ 16"
    and lt: "dist_at bs i < unat (dib e)"
  shows "rh_table ok hv key n (bs[i := e])"
    and "carried ok hv key n (bs[i := e]) ((bs ! i)\<lparr>dib := dib (bs ! i) + 1\<rparr>) ((i + 1) mod n)"
    and "insert (b_item (bs ! i)) (items n (bs[i := e])) = insert (b_item e) (items n bs)"
    and "unat (dib (bs ! i) + 1) \<le> unat (dib e) + 1"
proof -
  have len: "i < length bs" "n \<le> length bs" using i rh_tableD(1) [OF T] by simp_all
  let ?bs = "bs[i := e]" and ?e = "bs ! i"
  show "rh_table ok hv key n ?bs"
  proof (rule rh_put [OF T i n])
    show "dist_at bs ((i + 1) mod n) \<le> unat (dib e) + 1"
      using rh_tableD(5) [OF T i] lt by simp
  qed (use c in \<open>auto simp: carried_def items_def occupied_def image_iff\<close>)
  show "insert (b_item ?e) (items n ?bs) = insert (b_item e) (items n bs)"
    using items_split [OF i occ] items_put [OF i len(2), of e "b_item ?e"] c by (auto simp: carried_def)
  have fresh: "key (b_item ?e) \<notin> key ` items n ?bs"
  proof
    assume "key (b_item ?e) \<in> key ` items n ?bs"
    then obtain j where j: "j < n" "dib (?bs ! j) \<noteq> 0" "key (b_item (?bs ! j)) = key (b_item ?e)"
      by (auto elim!: itemsE)
    show False
    proof (cases "j = i")
      case True
      with j len c itemsI [OF i occ] show False by (auto simp: carried_def)
    next
      case False
      with j len have "dib (bs ! j) \<noteq> 0" "key (b_item (bs ! j)) = key (b_item (bs ! i))" by simp_all
      with rh_tableD(6) [OF T j(1) i] occ False show False by blast
    qed
  qed
  have "seated n (?e\<lparr>dib := dib ?e + 1\<rparr>) ((i + 1) mod n)" and u: "unat (dib ?e + 1) = unat (dib ?e) + 1"
    using seated_next [of n ?e i] rh_tableD(2) [OF T i occ] occ lt small by simp_all
  moreover have "dib ?e + 1 \<noteq> 0" using u by (metis unat_0 add_is_0 one_neq_zero)
  moreover have "unat (dib ?e + 1) \<le> dist_at ?bs p + 1" if "p < n" "(p + 1) mod n = (i + 1) mod n" for p
    using next_slot_unique [OF i that] u lt len by simp
  ultimately show "carried ok hv key n ?bs (?e\<lparr>dib := dib ?e + 1\<rparr>) ((i + 1) mod n)"
    using rh_tableD(3,4) [OF T i occ] fresh by (simp add: carried_def)
  show "unat (dib ?e + 1) \<le> unat (dib e) + 1" using u lt by simp
qed

lemma pass_step:
  assumes c: "carried ok hv key n bs e i" and i: "i < n" and small: "unat (dib e) + 1 < 2 ^ 16"
    and ge: "unat (dib e) \<le> dist_at bs i"
  shows "carried ok hv key n bs (e\<lparr>dib := dib e + 1\<rparr>) ((i + 1) mod n)"
    and "unat (dib e + 1) \<le> unat (dib e) + 1"
proof -
  have "seated n (e\<lparr>dib := dib e + 1\<rparr>) ((i + 1) mod n)" and u: "unat (dib e + 1) = unat (dib e) + 1"
    using seated_next [of n e i] c small by (simp_all add: carried_def)
  moreover have "dib e + 1 \<noteq> 0" using u by (metis unat_0 add_is_0 one_neq_zero)
  moreover have "unat (dib e + 1) \<le> dist_at bs p + 1" if "p < n" "(p + 1) mod n = (i + 1) mod n" for p
    using next_slot_unique [OF i that] u ge by simp
  ultimately show "carried ok hv key n bs (e\<lparr>dib := dib e + 1\<rparr>) ((i + 1) mod n)"
    using c by (simp add: carried_def)
  show "unat (dib e + 1) \<le> unat (dib e) + 1" using u by simp
qed

lemma place_step:
  assumes T: "rh_table ok hv key n bs" and c: "carried ok hv key n bs e i" and i: "i < n"
    and n: "2 \<le> n" and occ: "dib (bs ! i) \<noteq> 0" and small: "unat (dib e) + 1 < 2 ^ 16"
    and step: "(bs', e') = (if dib (bs ! i) < dib e then (bs[i := e], bs ! i) else (bs, e))"
  shows "rh_table ok hv key n bs'" (is ?T)
    and "carried ok hv key n bs' (e'\<lparr>dib := dib e' + 1\<rparr>) ((i + 1) mod n)" (is ?C)
    and "insert (b_item e') (items n bs') = insert (b_item e) (items n bs)" (is ?I)
    and "\<And>j. dib (bs' ! j) = 0 \<longleftrightarrow> dib (bs ! j) = 0"
    and "unat (dib e' + 1) \<le> unat (dib e) + 1" (is ?D)
proof -
  have "?T \<and> ?C \<and> ?I \<and> (\<forall>j. dib (bs' ! j) = 0 \<longleftrightarrow> dib (bs ! j) = 0) \<and> ?D"
  proof (cases "dib (bs ! i) < dib e")
    case True
    with step have s: "bs' = bs[i := e]" "e' = bs ! i" by auto
    have lt: "dist_at bs i < unat (dib e)" using True by (simp add: word_less_nat_alt)
    have "dib (bs[i := e] ! j) = 0 \<longleftrightarrow> dib (bs ! j) = 0" for j
      using c i rh_tableD(1) [OF T] occ by (cases "j = i") (simp_all add: carried_def)
    then show ?thesis using displace_step [OF T c i n occ small lt] by (simp add: s)
  next
    case False
    with step have s: "bs' = bs" "e' = e" by auto
    have "unat (dib e) \<le> dist_at bs i" using False by (simp add: word_less_nat_alt)
    then show ?thesis using pass_step [OF c i small] T by (simp add: s)
  qed
  then show ?T ?C ?I "\<And>j. dib (bs' ! j) = 0 \<longleftrightarrow> dib (bs ! j) = 0" ?D by blast+
qed

section \<open>The insertion loop\<close>

lemma ring_shift: "i < n \<Longrightarrow> ((i + 1) mod n + t) mod n = (i + Suc t) mod (n :: nat)"
  by (simp add: mod_simps)

lemma occupied_cong:
  "(\<And>j. dib (bs' ! j) = 0 \<longleftrightarrow> dib (bs ! j) = 0) \<Longrightarrow> occupied n bs' = occupied n bs"
  by (simp add: occupied_def)

text \<open>
  With an empty slot \<open>t\<close> steps ahead the loop ends after at most \<open>t + 1\<close> steps, in a table that
  satisfies the invariant and holds one more item.
\<close>

lemma insert_loop_correct:
  assumes "rh_table ok hv key n bs" and "carried ok hv key n bs e i" and "i < n"
    and "mask_of n m" and "dib (bs ! ((i + t) mod n)) = 0" and "t < n" and "t < fuel"
    and "unat (dib e) + t < 2 ^ 16"
  shows "\<exists>bs'. insert_loop fuel m bs e i = Inr bs' \<and> rh_table ok hv key n bs' \<and>
               items n bs' = insert (b_item e) (items n bs) \<and> length bs' = length bs"
  using assms
proof (induction t arbitrary: fuel bs e i)
  case 0
  then obtain f where f: "fuel = Suc f" by (cases fuel) auto
  have "i < length bs" using 0 rh_tableD(1) by fastforce
  with 0 place_empty [OF 0(1,2,3) mask_of_ge_2 [OF 0(4)]] f show ?case
    by (simp add: bucket_at_def)
next
  case (Suc t)
  then obtain f where f: "fuel = Suc f" by (cases fuel) auto
  note T = Suc.prems(1) and c = Suc.prems(2) and i = Suc.prems(3) and m = Suc.prems(4)
  have n: "2 \<le> n" using m by (rule mask_of_ge_2)
  have len: "i < length bs" using T i rh_tableD(1) by fastforce
  show ?case
  proof (cases "dib (bs ! i) = 0")
    case True
    with place_empty [OF T c i n] len f show ?thesis by (simp add: bucket_at_def)
  next
    case False
    obtain bs' e' where step: "(bs', e') = (if dib (bs ! i) < dib e then (bs[i := e], bs ! i) else (bs, e))"
      by (metis)
    have small: "unat (dib e) + 1 < 2 ^ 16" using Suc.prems(8) by simp
    note S = place_step [OF T c i n False small step]
    have len': "length bs' = length bs" using step by (auto split: if_splits)
    have "dib (bs' ! (((i + 1) mod n + t) mod n)) = 0"
      using S(4) Suc.prems(5) ring_shift [OF i] by simp
    then have "\<exists>bs''. insert_loop f m bs' (e'\<lparr>dib := dib e' + 1\<rparr>) ((i + 1) mod n) = Inr bs'' \<and>
        rh_table ok hv key n bs'' \<and>
        items n bs'' = insert (b_item (e'\<lparr>dib := dib e' + 1\<rparr>)) (items n bs') \<and>
        length bs'' = length bs'"
      using S(1,2,5) Suc.prems(6,7,8) i m f by (intro Suc.IH) simp_all
    then show ?thesis
      using f len False step S(3) len' mask_of_mod [OF m, of "i + 1"]
      by (auto simp: bucket_at_def split: prod.splits)
  qed
qed

section \<open>The callbacks' contract\<close>

text \<open>
  What the map asks of its callbacks: on the items it may meet (\<open>ok\<close>) they return, and two items
  have the same 48-bit hash and compare equal exactly when they have the same key.
\<close>

locale item_callbacks =
  fixes hash :: "'a::zero hash_fun" and compare :: "'a compare_fun"
    and s0 s1 :: u64 and ok :: "'a \<Rightarrow> bool" and key :: "'a \<Rightarrow> 'k" and hv :: "'a \<Rightarrow> 48 word"
  assumes hash_ok: "ok x \<Longrightarrow> get_hash hash s0 s1 x = Inr (hv x)"
    and compare_ok: "ok x \<Longrightarrow> ok y \<Longrightarrow> \<exists>c. compare x y = Inr c"
    and match_iff: "ok x \<Longrightarrow> ok y \<Longrightarrow> (hv x = hv y \<and> compare x y = Inr 0) \<longleftrightarrow> key x = key y"
begin

lemma same_eval:
  assumes "ok x" "ok y"
  shows "(if hv x = hv y then bindE (compare x y) (\<lambda>c. Inr (c = 0)) else Inr False)
         = Inr (key x = key y)"
proof -
  obtain c where c: "compare x y = Inr c" using compare_ok [OF assms] by blast
  then show ?thesis using match_iff [OF assms] by auto
qed

lemma same_eval':
  assumes "ok x" "ok y"
  shows "(if hv y = hv x then bindE (compare x y) (\<lambda>c. Inr (c = 0)) else Inr False)
         = Inr (key x = key y)"
  using same_eval [OF assms] by (simp add: eq_commute)

text \<open>The search loop passes every slot that is occupied by another key.\<close>

lemma find_loop_skip:
  assumes T: "rh_table ok hv key n bs" and m: "mask_of n m" and x: "ok x"
    and "\<forall>s<t. dib (bs ! ((i + s) mod n)) \<noteq> 0 \<and> key (b_item (bs ! ((i + s) mod n))) \<noteq> key x"
    and "t < fuel" and "i < n"
  shows "find_loop fuel compare m bs (hv x) x i
         = find_loop (fuel - t) compare m bs (hv x) x ((i + t) mod n)"
  using assms(4-)
proof (induction t arbitrary: fuel i)
  case 0
  then show ?case by simp
next
  case (Suc t)
  then obtain f where f: "fuel = Suc f" by (cases fuel) auto
  have len: "i < length bs" using T Suc.prems rh_tableD(1) by fastforce
  have here: "dib (bs ! i) \<noteq> 0" "key (b_item (bs ! i)) \<noteq> key x"
    using Suc.prems(1,3) by (auto dest!: spec [of _ 0])
  have "find_loop fuel compare m bs (hv x) x i = find_loop f compare m bs (hv x) x ((i + 1) mod n)"
    using here f len same_eval' [OF x rh_tableD(3) [OF T Suc.prems(3) here(1)]]
      rh_tableD(4) [OF T Suc.prems(3) here(1)] mask_of_mod [OF m, of "i + 1"]
    by (simp add: bucket_at_def)
  also have "\<dots> = find_loop (f - t) compare m bs (hv x) x (((i + 1) mod n + t) mod n)"
    using Suc.prems f ring_shift [OF Suc.prems(3)] by (intro Suc.IH) auto
  also have "((i + 1) mod n + t) mod n = (i + Suc t) mod n" using ring_shift [OF Suc.prems(3)] .
  finally show ?case using f by simp
qed

lemma find_loop_empty:
  assumes "rh_table ok hv key n bs" "i < n" "dib (bs ! i) = 0" "0 < fuel"
  shows "find_loop fuel compare m bs h x i = Inr None"
proof -
  have "i < length bs" using assms rh_tableD(1) by fastforce
  with assms show ?thesis by (cases fuel) (auto simp: bucket_at_def)
qed

lemma find_loop_match:
  assumes T: "rh_table ok hv key n bs" "i < n" "dib (bs ! i) \<noteq> 0" "0 < fuel" and x: "ok x"
    and k: "key (b_item (bs ! i)) = key x"
  shows "find_loop fuel compare m bs (hv x) x i = Inr (Some i)"
proof -
  have "i < length bs" using T rh_tableD(1) by fastforce
  with assms same_eval' [OF x rh_tableD(3) [OF T(1-3)]] rh_tableD(4) [OF T(1-3)] show ?thesis
    by (cases fuel) (auto simp: bucket_at_def)
qed

text \<open>The slot of a stored key, counted from its home slot.\<close>

lemma slot_of_key:
  assumes T: "rh_table ok hv key n bs" and n: "2 \<le> n" and x: "ok x"
    and k: "x' \<in> items n bs" "key x' = key x"
  obtains t where "t < n" "dib (bs ! ((unat (hv x) + t) mod n)) \<noteq> 0"
    "b_item (bs ! ((unat (hv x) + t) mod n)) = x'"
    "\<forall>s\<le>t. s + 1 \<le> dist_at bs ((unat (hv x) + s) mod n)"
    "\<forall>s<t. key (b_item (bs ! ((unat (hv x) + s) mod n))) \<noteq> key x"
proof -
  obtain i where i: "i < n" "dib (bs ! i) \<noteq> 0" "x' = b_item (bs ! i)"
    using k(1) by (auto elim: itemsE)
  have hv: "hv x' = hv x"
    using match_iff [of x x'] x k items_ok [OF T k(1)] by simp
  define h where "h = unat (hv x)"
  let ?P = "\<lambda>t. (h + t) mod n = i"
  have "?P (dist_at bs i - 1)"
    using rh_tableD(2,4) [OF T i(1,2)] by (simp add: seated_def hv h_def flip: i(3))
  then obtain t where t: "?P t" and least: "\<And>s. s < t \<Longrightarrow> \<not> ?P s" and le: "t \<le> dist_at bs i - 1"
    using Least_le [of ?P] LeastI [of ?P] not_less_Least [of _ ?P] by blast
  have "?P (t mod n)" using t by (metis mod_add_right_eq)
  then have "t \<le> t mod n" using least by (metis not_le)
  moreover have "t mod n < n" using n by simp
  ultimately have tn: "t < n" by linarith
  have "\<forall>s\<le>t. s + 1 \<le> dist_at bs ((h + s) mod n)"
  proof (intro allI impI)
    fix s assume s: "s \<le> t"
    have "0 < dist_at bs i" using i(2) by (simp add: unat_gt_0)
    then have "s < dist_at bs i" using s le by linarith
    then show "s + 1 \<le> dist_at bs ((h + s) mod n)"
      using run_before [OF T, of "dist_at bs i" h s] \<open>?P (dist_at bs i - 1)\<close> n by simp
  qed
  moreover have "key (b_item (bs ! ((h + s) mod n))) \<noteq> key x" if s: "s < t" for s
  proof
    assume eq: "key (b_item (bs ! ((h + s) mod n))) = key x"
    have "dib (bs ! ((h + s) mod n)) \<noteq> 0"
      using calculation s by (auto dest!: spec [of _ s])
    moreover have "key (b_item (bs ! ((h + s) mod n))) = key (b_item (bs ! i))"
      using eq k(2) i(3) by simp
    ultimately have "(h + s) mod n = i"
      using rh_tableD(6) [OF T _ i(1) _ i(2)] n by simp
    with least s show False by blast
  qed
  ultimately show thesis
    using that [of t] t tn i by (simp add: h_def)
qed

lemma home_slot: "mask_of n m \<Longrightarrow> ((unat (hv x) AND m) + s) mod n = (unat (hv x) + s) mod n"
  by (simp add: mask_of_mod mod_simps)

lemma find_loop_correct:
  assumes T: "rh_table ok hv key n bs" and m: "mask_of n m" and x: "ok x"
    and room: "card (occupied n bs) < n"
  shows "\<exists>r. find_loop n compare m bs (hv x) x (unat (hv x) AND m) = Inr r \<and>
           (case r of None \<Rightarrow> key x \<notin> key ` items n bs
            | Some i \<Rightarrow> i < n \<and> dib (bs ! i) \<noteq> 0 \<and> key (b_item (bs ! i)) = key x)"
proof -
  let ?h = "unat (hv x)"
  have n: "2 \<le> n" using m by (rule mask_of_ge_2)
  have start: "?h AND m < n" using m n by (simp add: mask_of_mod)
  show ?thesis
  proof (cases "key x \<in> key ` items n bs")
    case True
    then obtain x' where x': "x' \<in> items n bs" "key x' = key x" by auto
    from slot_of_key [OF T n x x'] obtain t where t: "t < n"
        "dib (bs ! ((?h + t) mod n)) \<noteq> 0" "b_item (bs ! ((?h + t) mod n)) = x'"
      and run: "\<forall>s\<le>t. s + 1 \<le> dist_at bs ((?h + s) mod n)"
      and other: "\<forall>s<t. key (b_item (bs ! ((?h + s) mod n))) \<noteq> key x" by blast
    have "dib (bs ! ((?h + s) mod n)) \<noteq> 0" if "s < t" for s
      using run that by (auto dest!: spec [of _ s])
    then have "find_loop n compare m bs (hv x) x (?h AND m)
        = find_loop (n - t) compare m bs (hv x) x ((?h + t) mod n)"
      using find_loop_skip [OF T m x _ t(1) start] other home_slot [OF m] by simp
    also have "\<dots> = Inr (Some ((?h + t) mod n))"
      using t x' x n by (intro find_loop_match [OF T]) auto
    finally show ?thesis using t x' n by simp
  next
    case False
    obtain t where t: "t < n" "dib (bs ! ((?h + t) mod n)) = 0"
      and occ: "\<forall>s<t. dib (bs ! ((?h + s) mod n)) \<noteq> 0"
      using first_empty [OF room, of ?h] by metis
    have "key (b_item (bs ! ((?h + s) mod n))) \<noteq> key x" if "s < t" for s
      using False itemsI [of "(?h + s) mod n" n bs] occ that n by (metis image_eqI mod_less_divisor
          less_le_trans zero_less_numeral)
    then have "find_loop n compare m bs (hv x) x (?h AND m)
        = find_loop (n - t) compare m bs (hv x) x ((?h + t) mod n)"
      using find_loop_skip [OF T m x _ t(1) start] occ home_slot [OF m] by simp
    also have "\<dots> = Inr None"
      using t n by (intro find_loop_empty [OF T]) auto
    finally show ?thesis using False by simp
  qed
qed

section \<open>The loop of \<open>hashmap_set\<close>\<close>

text \<open>A key that is stored is found before any bucket would be displaced.\<close>

lemma set_loop_hit:
  assumes T: "rh_table ok hv key n bs" and m: "mask_of n m" and x: "ok (b_item e)"
    and e: "b_hash e = hv (b_item e)"
    and "\<forall>s\<le>t. unat (dib e) + s \<le> dist_at bs ((i + s) mod n)"
    and "\<forall>s<t. key (b_item (bs ! ((i + s) mod n))) \<noteq> key (b_item e)"
    and "key (b_item (bs ! ((i + t) mod n))) = key (b_item e)"
    and "dib e \<noteq> 0" and "t < fuel" and "i < n"
  shows "set_loop fuel compare m bs e i =
    (let j = (i + t) mod n in
     Inr (bs[j := (bs ! j)\<lparr>b_item := b_item e\<rparr>], Some (b_item (bs ! j))))"
  using assms(3-)
proof (induction t arbitrary: fuel i e)
  case (0 fuel i e)
  then obtain f where f: "fuel = Suc f" by (cases fuel) auto
  have len: "i < length bs" using T 0 rh_tableD(1) by fastforce
  have "unat (dib e) \<noteq> 0" using 0(6) by simp
  then have occ: "dib (bs ! i) \<noteq> 0" using 0(3,8) by auto
  show ?case
    using 0 f len occ same_eval [OF 0(1) rh_tableD(3) [OF T 0(8) occ]]
      rh_tableD(4) [OF T 0(8) occ]
    by (simp add: bucket_at_def Let_def)
next
  case (Suc t fuel i e)
  then obtain f where f: "fuel = Suc f" by (cases fuel) auto
  note i = Suc.prems(8)
  have len: "i < length bs" using T i rh_tableD(1) by fastforce
  have le: "unat (dib e) \<le> dist_at bs i" using Suc.prems(3) i by (auto dest!: spec [of _ 0])
  have de: "unat (dib e) \<noteq> 0" using Suc.prems(6) by simp
  then have occ: "dib (bs ! i) \<noteq> 0" using le by auto
  have other: "key (b_item (bs ! i)) \<noteq> key (b_item e)"
    using Suc.prems(4) i by (auto dest!: spec [of _ 0])
  have "unat (dib e) + Suc t \<le> dist_at bs ((i + Suc t) mod n)" using Suc.prems(3) by blast
  then have small: "unat (dib e) + 1 < 2 ^ 16"
    using unsigned_less [of "dib (bs ! ((i + Suc t) mod n))", where ?'a = nat] by simp
  have u: "unat (dib e + 1) = unat (dib e) + 1" using small by (simp add: unat_word_ariths)
  let ?e = "e\<lparr>dib := dib e + 1\<rparr>"
  have "\<not> dib (bs ! i) < dib e" using le by (simp add: word_less_nat_alt)
  moreover have "(if b_hash e = b_hash (bs ! i)
      then bindE (compare (b_item e) (b_item (bs ! i))) (\<lambda>c. Inr (c = 0)) else Inr False) = Inr False"
    using same_eval [OF Suc.prems(1) rh_tableD(3) [OF T i occ]] Suc.prems(2)
      rh_tableD(4) [OF T i occ] other by simp
  ultimately have "set_loop fuel compare m bs e i = set_loop f compare m bs ?e ((i + 1) mod n)"
    using f len occ mask_of_mod [OF m, of "i + 1"] by (simp add: bucket_at_def)
  also have "\<dots> = (let j = ((i + 1) mod n + t) mod n in
      Inr (bs[j := (bs ! j)\<lparr>b_item := b_item ?e\<rparr>], Some (b_item (bs ! j))))"
  proof (rule Suc.IH)
    show "\<forall>s\<le>t. unat (dib ?e) + s \<le> dist_at bs (((i + 1) mod n + s) mod n)"
    proof (intro allI impI)
      fix s assume "s \<le> t"
      then have "unat (dib e) + Suc s \<le> dist_at bs ((i + Suc s) mod n)"
        using Suc.prems(3) by (meson Suc_le_mono)
      then show "unat (dib ?e) + s \<le> dist_at bs (((i + 1) mod n + s) mod n)"
        using u ring_shift [OF i, of s] by simp
    qed
    show "\<forall>s<t. key (b_item (bs ! (((i + 1) mod n + s) mod n))) \<noteq> key (b_item ?e)"
    proof (intro allI impI)
      fix s assume "s < t"
      then have "key (b_item (bs ! ((i + Suc s) mod n))) \<noteq> key (b_item e)"
        using Suc.prems(4) by (meson Suc_less_eq)
      then show "key (b_item (bs ! (((i + 1) mod n + s) mod n))) \<noteq> key (b_item ?e)"
        using ring_shift [OF i, of s] by simp
    qed
    show "dib ?e \<noteq> 0" using u by (auto simp: unat_eq_0)
  qed (use Suc.prems f ring_shift [OF i] in auto)
  finally show ?case using ring_shift [OF i, of t] by simp
qed

text \<open>A key that is not stored is placed as \<open>resize\<close> places it.\<close>

lemma set_loop_fresh:
  assumes "rh_table ok hv key n bs" and "carried ok hv key n bs e i" and "i < n"
    and "mask_of n m" and "dib (bs ! ((i + t) mod n)) = 0" and "t < n" and "t < fuel"
    and "unat (dib e) + t < 2 ^ 16"
  shows "set_loop fuel compare m bs e i = bindE (insert_loop fuel m bs e i) (\<lambda>bs'. Inr (bs', None))"
  using assms
proof (induction t arbitrary: fuel bs e i)
  case 0
  then obtain f where f: "fuel = Suc f" by (cases fuel) auto
  have "i < length bs" using 0 rh_tableD(1) by fastforce
  with 0 f show ?case by (simp add: bucket_at_def)
next
  case (Suc t)
  then obtain f where f: "fuel = Suc f" by (cases fuel) auto
  note T = Suc.prems(1) and c = Suc.prems(2) and i = Suc.prems(3) and m = Suc.prems(4)
  have n: "2 \<le> n" using m by (rule mask_of_ge_2)
  have len: "i < length bs" using T i rh_tableD(1) by fastforce
  show ?case
  proof (cases "dib (bs ! i) = 0")
    case True
    with len f show ?thesis by (simp add: bucket_at_def)
  next
    case False
    obtain bs' e' where step: "(bs', e') = (if dib (bs ! i) < dib e then (bs[i := e], bs ! i) else (bs, e))"
      by (metis)
    have small: "unat (dib e) + 1 < 2 ^ 16" using Suc.prems(8) by simp
    note S = place_step [OF T c i n False small step]
    have "dib (bs' ! (((i + 1) mod n + t) mod n)) = 0"
      using S(4) Suc.prems(5) ring_shift [OF i] by simp
    then have IH: "set_loop f compare m bs' (e'\<lparr>dib := dib e' + 1\<rparr>) ((i + 1) mod n)
        = bindE (insert_loop f m bs' (e'\<lparr>dib := dib e' + 1\<rparr>) ((i + 1) mod n)) (\<lambda>bs'. Inr (bs', None))"
      using S(1,2,5) Suc.prems(6,7,8) i m f by (intro Suc.IH) simp_all
    have "key (b_item e) \<noteq> key (b_item (bs ! i))"
      using c itemsI [OF i False] by (auto simp: carried_def)
    then have "(if b_hash e = b_hash (bs ! i)
        then bindE (compare (b_item e) (b_item (bs ! i))) (\<lambda>c. Inr (c = 0)) else Inr False) = Inr False"
      using same_eval [of "b_item e" "b_item (bs ! i)"] c rh_tableD(3,4) [OF T i False]
      by (simp add: carried_def)
    then show ?thesis
      using f len False step IH mask_of_mod [OF m, of "i + 1"]
      by (auto simp: bucket_at_def split: prod.splits)
  qed
qed

end

section \<open>Replacing the item of a bucket\<close>

lemma rh_replace_item:
  assumes T: "rh_table ok hv key n bs" and j: "j < n" "dib (bs ! j) \<noteq> 0"
    and x: "ok x" "hv x = hv (b_item (bs ! j))" "key x = key (b_item (bs ! j))"
  shows "rh_table ok hv key n (bs[j := (bs ! j)\<lparr>b_item := x\<rparr>])" (is "rh_table ok hv key n ?bs")
    and "items n (bs[j := (bs ! j)\<lparr>b_item := x\<rparr>]) = insert x (items n bs - {y. key y = key x})"
    and "occupied n (bs[j := (bs ! j)\<lparr>b_item := x\<rparr>]) = occupied n bs"
proof -
  have len: "j < length bs" using T j rh_tableD(1) by fastforce
  have dib: "dib (?bs ! i) = dib (bs ! i)" and hash: "b_hash (?bs ! i) = b_hash (bs ! i)"
    and kk: "key (b_item (?bs ! i)) = key (b_item (bs ! i))" for i
    using len x by (simp_all add: nth_list_update)
  show T': "rh_table ok hv key n ?bs"
    using T len x j
    unfolding rh_table_def dib kk seated_def hash
    by (auto simp: nth_list_update)
  show occ: "occupied n ?bs = occupied n bs" by (simp add: occupied_def dib)
  show "items n ?bs = insert x (items n bs - {y. key y = key x})"
  proof (intro equalityI subsetI)
    fix z assume "z \<in> items n ?bs"
    then obtain i where i: "i < n" "dib (bs ! i) \<noteq> 0" "z = b_item (?bs ! i)"
      by (auto elim!: itemsE simp: dib)
    show "z \<in> insert x (items n bs - {y. key y = key x})"
    proof (cases "i = j")
      case False
      with i len rh_tableD(6) [OF T i(1) j(1) i(2) j(2)] x itemsI [OF i(1,2)] show ?thesis by auto
    qed (use i len in simp)
  next
    fix z assume z: "z \<in> insert x (items n bs - {y. key y = key x})"
    show "z \<in> items n ?bs"
    proof (cases "z = x")
      case True
      with itemsI [of j n ?bs] j len show ?thesis by simp
    next
      case False
      with z obtain i where i: "i < n" "dib (bs ! i) \<noteq> 0" "z = b_item (bs ! i)" "key z \<noteq> key x"
        by (auto elim: itemsE)
      then have "i \<noteq> j" using x by auto
      with i itemsI [of i n ?bs] show ?thesis by (simp add: nth_list_update)
    qed
  qed
qed

section \<open>The backward shift of \<open>hashmap_delete\<close>\<close>

text \<open>
  The table with a hole at slot \<open>p\<close>, which is to be treated as if it held a bucket at distance
  \<open>v\<close>: every other slot satisfies the invariant.
\<close>

definition holed :: "('a \<Rightarrow> bool) \<Rightarrow> ('a \<Rightarrow> 48 word) \<Rightarrow> ('a \<Rightarrow> 'k) \<Rightarrow> nat \<Rightarrow> 'a bucket list \<Rightarrow>
    nat \<Rightarrow> nat \<Rightarrow> bool" where
  "holed ok hv key n bs p v \<longleftrightarrow>
     n \<le> length bs \<and>
     (\<forall>i<n. i \<noteq> p \<longrightarrow> dib (bs ! i) \<noteq> 0 \<longrightarrow>
        seated n (bs ! i) i \<and> ok (b_item (bs ! i)) \<and> b_hash (bs ! i) = hv (b_item (bs ! i))) \<and>
     (\<forall>i<n. (if (i + 1) mod n = p then v else dist_at bs ((i + 1) mod n))
            \<le> (if i = p then v else dist_at bs i) + 1) \<and>
     (\<forall>i<n. \<forall>j<n. i \<noteq> p \<longrightarrow> j \<noteq> p \<longrightarrow> dib (bs ! i) \<noteq> 0 \<longrightarrow> dib (bs ! j) \<noteq> 0 \<longrightarrow>
        key (b_item (bs ! i)) = key (b_item (bs ! j)) \<longrightarrow> i = j)"

definition items_except :: "nat \<Rightarrow> 'a bucket list \<Rightarrow> nat \<Rightarrow> 'a set" where
  "items_except n bs p = (\<lambda>i. b_item (bs ! i)) ` (occupied n bs - {p})"

lemma holed_close:
  assumes H: "holed ok hv key n bs p v" and p: "p < n" and n: "2 \<le> n"
    and last: "dist_at bs ((p + 1) mod n) \<le> 1"
  shows "rh_table ok hv key n (bs[p := (bs ! p)\<lparr>dib := 0\<rparr>])"
    and "items n (bs[p := (bs ! p)\<lparr>dib := 0\<rparr>]) = items_except n bs p"
proof -
  have len: "p < length bs" using H p by (simp add: holed_def)
  let ?bs = "bs[p := (bs ! p)\<lparr>dib := 0\<rparr>]"
  have "dist_at ?bs ((i + 1) mod n) \<le> dist_at ?bs i + 1" if i: "i < n" for i
  proof -
    have "(if (i + 1) mod n = p then v else dist_at bs ((i + 1) mod n))
            \<le> (if i = p then v else dist_at bs i) + 1"
      using H i by (simp add: holed_def)
    then show ?thesis
      using len last next_slot_neq [OF n i]
      by (cases "i = p"; cases "(i + 1) mod n = p") (simp_all add: nth_list_update)
  qed
  then show "rh_table ok hv key n ?bs"
    using H len unfolding rh_table_def holed_def
    by (simp add: nth_list_update)
  show "items n ?bs = items_except n bs p"
    using len by (auto simp: items_def items_except_def occupied_def nth_list_update image_iff)
qed

text \<open>The bucket at \<open>q\<close> moved to the hole at \<open>p\<close>: the keys stay different, and the items are the same.\<close>

lemma moved_keys:
  assumes H: "holed ok hv key n bs p v" and len: "p < length bs" and q: "q < n" "q \<noteq> p" "dib (bs ! q) \<noteq> 0"
    and b: "b_item b = b_item (bs ! q)"
    and ij: "i < n" "j < n" "i \<noteq> q" "j \<noteq> q" "dib (bs[p := b] ! i) \<noteq> 0" "dib (bs[p := b] ! j) \<noteq> 0"
      "key (b_item (bs[p := b] ! i)) = key (b_item (bs[p := b] ! j))"
  shows "i = j"
proof -
  have D: "i = j" if "i < n" "j < n" "i \<noteq> p" "j \<noteq> p" "dib (bs ! i) \<noteq> 0" "dib (bs ! j) \<noteq> 0"
    "key (b_item (bs ! i)) = key (b_item (bs ! j))" for i j
    using H that by (auto simp: holed_def)
  have upd: "bs[p := b] ! i = (if i = p then b else bs ! i)" for i
    using len by (simp add: nth_list_update)
  show ?thesis
  proof (cases "i = p")
    case True
    then show ?thesis using ij [unfolded upd] D [of q j] q b by (cases "j = p") simp_all
  next
    case False
    then show ?thesis using ij [unfolded upd] D [of i j] D [of i q] q b by (cases "j = p") simp_all
  qed
qed

lemma moved_items:
  assumes p: "p < n" "n \<le> length bs" and q: "q < n" "q \<noteq> p" "dib (bs ! q) \<noteq> 0"
    and b: "b_item b = b_item (bs ! q)" "dib b \<noteq> 0"
  shows "items_except n (bs[p := b]) q = items_except n bs p"
proof -
  have "occupied n (bs[p := b]) - {q} = insert p (occupied n bs - {p, q})"
    using occupied_put [OF p b(2)] q by auto
  moreover have "occupied n bs - {p} = insert q (occupied n bs - {p, q})"
    using q by (auto simp: occupied_def)
  moreover have "(\<lambda>i. b_item (bs[p := b] ! i)) ` (occupied n bs - {p, q})
      = (\<lambda>i. b_item (bs ! i)) ` (occupied n bs - {p, q})"
    by (rule image_cong) auto
  moreover have "b_item (bs[p := b] ! p) = b_item (bs ! q)" using p b(1) by simp
  ultimately show ?thesis by (simp only: items_except_def image_insert)
qed

lemma holed_move:
  assumes H: "holed ok hv key n bs p v" and p: "p < n" and n: "3 \<le> n"
    and far: "1 < dist_at bs ((p + 1) mod n)"
  defines "q \<equiv> (p + 1) mod n"
  defines "b \<equiv> (bs ! q)\<lparr>dib := dib (bs ! q) - 1\<rparr>"
  shows "holed ok hv key n (bs[p := b]) q (dist_at bs q)"
    and "items_except n (bs[p := b]) q = items_except n bs p"
proof -
  have len: "p < length bs" "n \<le> length bs" using H p by (simp_all add: holed_def)
  have q: "q < n" "q \<noteq> p" using n p next_slot_neq [of n p] by (simp_all add: q_def)
  have occ: "dib (bs ! q) \<noteq> 0" using far by (auto simp: q_def)
  have ub: "unat (dib b) = dist_at bs q - 1"
    using far by (simp add: b_def q_def unat_sub word_le_nat_alt)
  have db: "dib b \<noteq> 0" using ub far by (metis q_def unat_0 less_numeral_extra(3) zero_less_diff)
  have old: "(if (i + 1) mod n = p then v else dist_at bs ((i + 1) mod n))
            \<le> (if i = p then v else dist_at bs i) + 1" if "i < n" for i
    using H that by (simp add: holed_def)
  have vq: "dist_at bs q \<le> v + 1" using old [OF p] q by (simp add: q_def)
  have seat_q: "seated n (bs ! q) q" and okq: "ok (b_item (bs ! q))"
    "b_hash (bs ! q) = hv (b_item (bs ! q))"
    using H q occ by (auto simp: holed_def)
  have "unat (b_hash b) + (unat (dib b) - 1) + 1 = unat (b_hash (bs ! q)) + (dist_at bs q - 1)"
    using far ub by (simp add: b_def q_def)
  then have "((unat (b_hash b) + (unat (dib b) - 1)) mod n + 1) mod n = (p + 1) mod n"
    using seat_q by (simp only: mod_add_left_eq seated_def q_def)
  then have seat_b: "seated n b p"
    using mod_add_inj [of 1 "(unat (b_hash b) + (unat (dib b) - 1)) mod n" n p] p
    by (simp add: seated_def add.commute)
  have pairs: "(if (i + 1) mod n = q then dist_at bs q else dist_at (bs[p := b]) ((i + 1) mod n))
            \<le> (if i = q then dist_at bs q else dist_at (bs[p := b]) i) + 1" if i: "i < n" for i
  proof -
    have qi: "(i + 1) mod n = q \<longleftrightarrow> i = p"
      using mod_add_inj [of 1 i n p] i p by (auto simp: q_def add.commute)
    show ?thesis
      using old [OF i] qi len q vq ub far next_slot_neq [of n i] n i
      by (cases "i = p"; cases "i = q"; cases "(i + 1) mod n = p")
        (simp_all add: nth_list_update flip: q_def)
  qed
  have bi: "b_item b = b_item (bs ! q)" by (simp add: b_def)
  note keys = moved_keys [OF H len(1) q occ bi]
  show "holed ok hv key n (bs[p := b]) q (dist_at bs q)"
    unfolding holed_def
  proof (intro conjI allI impI)
    fix i assume i: "i < n" "i \<noteq> q" "dib (bs[p := b] ! i) \<noteq> 0"
    have "seated n (bs[p := b] ! i) i \<and> ok (b_item (bs[p := b] ! i)) \<and>
      b_hash (bs[p := b] ! i) = hv (b_item (bs[p := b] ! i))"
    proof (cases "i = p")
      case True
      then show ?thesis using seat_b okq len by (simp add: b_def)
    next
      case False
      then show ?thesis using i H by (simp add: holed_def)
    qed
    then show "seated n (bs[p := b] ! i) i" "ok (b_item (bs[p := b] ! i))"
      "b_hash (bs[p := b] ! i) = hv (b_item (bs[p := b] ! i))" by blast+
  qed (use len pairs keys in auto)
  show "items_except n (bs[p := b]) q = items_except n bs p" by (rule moved_items [OF p len(2) q occ bi db])
qed

lemma shift_loop_correct:
  assumes "holed ok hv key n bs p v" and "mask_of n m" and "p < n"
    and "dib (bs ! ((p + 1 + t) mod n)) = 0" and "t < fuel" and "t + 1 < n"
  shows "\<exists>bs'. shift_loop fuel m bs p = Inr bs' \<and> rh_table ok hv key n bs' \<and>
               items n bs' = items_except n bs p \<and> length bs' = length bs"
  using assms
proof (induction t arbitrary: fuel bs p v)
  case 0
  then obtain f where f: "fuel = Suc f" by (cases fuel) auto
  have "n \<le> length bs" using 0(1) by (simp add: holed_def)
  moreover have "(p + 1) mod n < n" using 0 by simp
  ultimately have "(p + 1) mod n < length bs" "p < length bs" using 0(3) by linarith+
  then show ?case
    using 0 f holed_close [OF 0(1,3)] mask_of_ge_2 [OF 0(2)] mask_of_mod [OF 0(2), of "p + 1"]
    by (simp add: bucket_at_def Let_def)
next
  case (Suc t)
  then obtain f where f: "fuel = Suc f" by (cases fuel) auto
  note H = Suc.prems(1) and m = Suc.prems(2) and p = Suc.prems(3)
  have n: "3 \<le> n" using mask_of_ge_16 [OF m] by simp
  have len: "n \<le> length bs" using H by (simp add: holed_def)
  define q where "q = (p + 1) mod n"
  have q: "q < n" using p by (simp add: q_def)
  have acc: "bucket_at bs q = Inr (bs ! q)" "bucket_at bs p = Inr (bs ! p)" "(p + 1) AND m = q"
    using less_le_trans [OF q len] less_le_trans [OF p len] mask_of_mod [OF m, of "p + 1"]
    by (simp_all add: bucket_at_def q_def)
  show ?case
  proof (cases "dib (bs ! q) \<le> 1")
    case True
    then have "dist_at bs ((p + 1) mod n) \<le> 1" by (simp add: word_le_nat_alt q_def)
    with True holed_close [OF H p] n f acc show ?thesis by (simp add: Let_def)
  next
    case False
    then have far: "1 < dist_at bs ((p + 1) mod n)" by (simp add: word_le_nat_alt q_def)
    let ?bs = "bs[p := (bs ! q)\<lparr>dib := dib (bs ! q) - 1\<rparr>]"
    note M = holed_move [OF H p n far, folded q_def]
    have "((p + 1) mod n + (1 + t)) mod n = (p + 1 + (1 + t)) mod n" by (rule mod_add_left_eq)
    then have target: "(q + 1 + t) mod n = (p + 1 + Suc t) mod n" by (simp add: q_def)
    have "(p + 1 + Suc t) mod n \<noteq> p"
    proof
      assume "(p + 1 + Suc t) mod n = p"
      then have "(p + (t + 2)) mod n = (p + 0) mod n" using p by simp
      then show False using mod_add_inj [of p "t + 2" n 0] Suc.prems(6) by simp
    qed
    then have "dib (?bs ! ((q + 1 + t) mod n)) = 0"
      using Suc.prems(4) by (simp only: target nth_list_update_neq)
    with Suc.IH [OF M(1) m q, of f] Suc.prems(5,6) f M(2) False acc show ?thesis
      by (auto simp: Let_def)
  qed
qed

end
