(* ===== verification/HashMapCorrect.thy ===== *)
theory HashMapCorrect
  imports RobinHoodLoops
begin

text \<open>
  The operations of \<^verbatim>\<open>src/hashmap.c\<close> implement a finite map. \<open>hashmap_wf\<close> is the invariant of
  \<^verbatim>\<open>struct hashmap\<close>; \<open>hashmap_map\<close> is the map it stands for. \<open>hashmap_small\<close> bounds the map so
  that the 16-bit probe distance and the \<^verbatim>\<open>int\<close> of \<^verbatim>\<open>hashmap_new\<close> cannot overflow: fewer than
  65534 items and at most \<open>2 ^ 29\<close> slots.
\<close>

section \<open>Invariant and abstraction\<close>

definition hashmap_wf :: "('a \<Rightarrow> bool) \<Rightarrow> ('a \<Rightarrow> 48 word) \<Rightarrow> ('a \<Rightarrow> 'k) \<Rightarrow> u64 \<Rightarrow> u64 \<Rightarrow>
    'a hashmap \<Rightarrow> bool" where
  "hashmap_wf ok hv key s0 s1 hm \<longleftrightarrow>
     mask_of (nbuckets hm) (map_mask hm) \<and> seed0 hm = s0 \<and> seed1 hm = s1 \<and>
     growat hm = nbuckets hm * 3 div 4 \<and> shrinkat hm = nbuckets hm div 10 \<and>
     rh_table ok hv key (nbuckets hm) (buckets hm) \<and>
     map_count hm = card (items (nbuckets hm) (buckets hm)) \<and> map_count hm \<le> growat hm \<and>
     (\<exists>j\<ge>4. cap hm = 2 ^ j) \<and> cap hm \<le> nbuckets hm"

definition hashmap_map :: "('a \<Rightarrow> 'k) \<Rightarrow> 'a hashmap \<Rightarrow> 'k \<Rightarrow> 'a option" where
  "hashmap_map key hm = table_map key (nbuckets hm) (buckets hm)"

definition hashmap_small :: "'a hashmap \<Rightarrow> bool" where
  "hashmap_small hm \<longleftrightarrow> map_count hm < 65534 \<and> nbuckets hm \<le> 2 ^ 29"

lemma hashmap_wfD:
  assumes "hashmap_wf ok hv key s0 s1 hm"
  shows "mask_of (nbuckets hm) (map_mask hm)" and "seed0 hm = s0" and "seed1 hm = s1"
    and "growat hm = nbuckets hm * 3 div 4" and "shrinkat hm = nbuckets hm div 10"
    and "rh_table ok hv key (nbuckets hm) (buckets hm)"
    and "map_count hm = card (occupied (nbuckets hm) (buckets hm))"
    and "map_count hm \<le> growat hm" and "map_count hm < nbuckets hm"
    and "map_count hm = card (items (nbuckets hm) (buckets hm))"
  using assms mask_of_ge_16 [of "nbuckets hm" "map_mask hm"]
  by (auto simp: hashmap_wf_def card_items)

lemma hashmap_wf_oom [simp]: "hashmap_wf ok hv key s0 s1 (hm\<lparr>oom := b\<rparr>) = hashmap_wf ok hv key s0 s1 hm"
  by (simp add: hashmap_wf_def)

lemma hashmap_map_oom [simp]: "hashmap_map key (hm\<lparr>oom := b\<rparr>) = hashmap_map key hm"
  by (simp add: hashmap_map_def)

lemma hashmap_map_Some:
  "hashmap_wf ok hv key s0 s1 hm \<Longrightarrow>
   hashmap_map key hm k = Some x \<longleftrightarrow> x \<in> items (nbuckets hm) (buckets hm) \<and> key x = k"
  by (simp add: hashmap_map_def table_map_Some [OF hashmap_wfD(6)])

lemma hashmap_map_None:
  "hashmap_wf ok hv key s0 s1 hm \<Longrightarrow>
   hashmap_map key hm k = None \<longleftrightarrow> k \<notin> key ` items (nbuckets hm) (buckets hm)"
  by (simp add: hashmap_map_def table_map_None [OF hashmap_wfD(6)])

text \<open>The count is the number of keys.\<close>

lemma hashmap_count_card:
  assumes "hashmap_wf ok hv key s0 s1 hm"
  shows "hashmap_count hm = card (dom (hashmap_map key hm))"
proof -
  have "dom (hashmap_map key hm) = key ` items (nbuckets hm) (buckets hm)"
    by (simp add: dom_def hashmap_map_None [OF assms])
  moreover have "inj_on key (items (nbuckets hm) (buckets hm))"
    using items_key_inj [OF hashmap_wfD(6) [OF assms]] by (auto simp: inj_on_def)
  ultimately show ?thesis
    using hashmap_wfD(10) [OF assms] by (simp add: hashmap_count_def card_image)
qed

section \<open>New maps\<close>

lemma double_ncap_power:
  "a \<le> k \<Longrightarrow> k \<le> 30 \<Longrightarrow> double_ncap (2 ^ a) (2 ^ k) = Inr (2 ^ k)"
proof (induction "k - a" arbitrary: a)
  case 0
  then show ?case by (simp add: double_ncap.simps)
next
  case (Suc d)
  then have "a < k" by simp
  then have "(2::nat) ^ a < 2 ^ k" by simp
  moreover have "(2::nat) ^ Suc a < 2 ^ 31"
    using \<open>a < k\<close> Suc.prems by (intro power_strict_increasing) auto
  moreover have "double_ncap (2 ^ Suc a) (2 ^ k) = Inr (2 ^ k)"
    using Suc \<open>a < k\<close> by (intro Suc.hyps) auto
  ultimately show ?case by (subst double_ncap.simps) simp
qed

lemma new_power:
  assumes "4 \<le> k" "k \<le> 30"
  shows "hashmap_new_with_allocator allocs (2 ^ k) s0 s1 =
     Inr (if fst allocs \<and> snd allocs then
            Some \<lparr>oom = False, cap = 2 ^ k, seed0 = s0, seed1 = s1, nbuckets = 2 ^ k,
                  map_count = 0, map_mask = 2 ^ k - 1, growat = 2 ^ k * 3 div 4,
                  shrinkat = 2 ^ k div 10, buckets = replicate (2 ^ k) zero_bucket\<rparr>
          else None)"
proof -
  have "double_ncap 16 (2 ^ k) = Inr (2 ^ k)"
    using double_ncap_power [of 4 k] assms by simp
  moreover have "(16::nat) \<le> 2 ^ k" using power_increasing [of 4 k "2::nat"] assms by simp
  ultimately show ?thesis by (simp add: hashmap_new_with_allocator_def)
qed

lemma rh_table_zero: "0 < n \<Longrightarrow> rh_table ok hv key n (replicate n zero_bucket @ rest)"
  by (simp add: rh_table_def zero_bucket_def nth_append)

lemma occupied_zero [simp]: "occupied n (replicate n zero_bucket @ rest) = {}"
  by (auto simp: occupied_def zero_bucket_def nth_append)

lemma items_zero [simp]: "items n (replicate n zero_bucket @ rest) = {}"
  by (simp add: items_def)

lemmas replicate_zero = rh_table_zero [where rest = "[]", simplified]
  occupied_zero [where rest = "[]", simplified] items_zero [where rest = "[]", simplified]

text \<open>\<^verbatim>\<open>hashmap_new(elsize, 0, seed0, seed1, ...)\<close>, as \<^verbatim>\<open>entry_hash_map.c\<close> calls it.\<close>

lemma hashmap_new_0:
  "\<exists>hm. hashmap_new (True, True) 0 s0 s1 = Inr (Some hm) \<and> hashmap_wf ok hv key s0 s1 hm \<and>
        hashmap_small hm \<and> hashmap_map key hm = Map.empty"
proof -
  have "mask_of 16 15" unfolding mask_of_def by (rule exI [of _ 4]) simp
  moreover have "\<exists>j\<ge>4. (16::nat) = 2 ^ j" by (rule exI [of _ 4]) simp
  moreover have "table_map key 16 (replicate 16 zero_bucket) = Map.empty"
    by (rule ext) (simp add: table_map_def find_None_iff zero_bucket_def)
  ultimately show ?thesis
    by (simp add: hashmap_new_def hashmap_new_with_allocator_def hashmap_wf_def hashmap_small_def
        hashmap_map_def replicate_zero)
qed

section \<open>Resizing\<close>

lemma distinct_map_filter:
  assumes "\<And>i j. i < length xs \<Longrightarrow> j < length xs \<Longrightarrow> P (xs ! i) \<Longrightarrow> P (xs ! j) \<Longrightarrow>
             f (xs ! i) = f (xs ! j) \<Longrightarrow> i = j"
  shows "distinct (map f (filter P xs))"
  using assms
proof (induction xs)
  case Nil
  then show ?case by simp
next
  case (Cons x xs)
  have "distinct (map f (filter P xs))"
    using Cons.prems [of "Suc _" "Suc _"] by (intro Cons.IH) auto
  moreover have "f x \<noteq> f y" if y: "P x" "y \<in> set xs" "P y" for y
  proof -
    obtain j where "j < length xs" "y = xs ! j" using y(2) unfolding in_set_conv_nth by blast
    then show ?thesis using Cons.prems [of 0 "Suc j"] y(1,3) by fastforce
  qed
  ultimately show ?case by auto
qed

definition stored :: "'a bucket list \<Rightarrow> 'a list" where
  "stored bs = map b_item (filter (\<lambda>b. dib b \<noteq> 0) bs)"

lemma stored_simps [simp]:
  "stored [] = []" "stored (b # bs) = (if dib b \<noteq> 0 then b_item b # stored bs else stored bs)"
  by (simp_all add: stored_def)

lemma items_stored:
  assumes "n \<le> length bs"
  shows "items n bs = set (stored (take n bs))"
proof -
  have "set (take n bs) = (\<lambda>i. bs ! i) ` {..<n}"
    using assms by (auto simp: lessThan_atLeast0 simp flip: nth_image)
  then show ?thesis by (auto simp: items_def occupied_def stored_def image_iff)
qed

lemma distinct_stored:
  assumes "rh_table ok hv key n bs"
  shows "distinct (map key (stored (take n bs)))"
proof -
  have "distinct (map (key \<circ> b_item) (filter (\<lambda>b. dib b \<noteq> 0) (take n bs)))"
    using rh_tableD(1,6) [OF assms] by (intro distinct_map_filter) auto
  then show ?thesis by (simp add: stored_def)
qed

context item_callbacks
begin

text \<open>An entry fresh from its home slot finds its place.\<close>

lemma place_home:
  assumes T: "rh_table ok hv key n bs" and m: "mask_of n m" and room: "card (occupied n bs) < n"
    and small: "card (occupied n bs) < 65535"
    and e: "dib e = 1" "ok (b_item e)" "b_hash e = hv (b_item e)" "key (b_item e) \<notin> key ` items n bs"
  shows "\<exists>bs'. insert_loop n m bs e (unat (b_hash e) AND m) = Inr bs' \<and>
           set_loop n compare m bs e (unat (b_hash e) AND m) = Inr (bs', None) \<and>
           rh_table ok hv key n bs' \<and> items n bs' = insert (b_item e) (items n bs) \<and>
           length bs' = length bs"
proof -
  let ?i = "unat (b_hash e) AND m"
  have n: "2 \<le> n" using m by (rule mask_of_ge_2)
  have i: "?i < n" using m n by (simp add: mask_of_mod)
  have c: "carried ok hv key n bs e ?i"
    using e n by (simp add: carried_def seated_def mask_of_mod [OF m])
  obtain t where t: "t < n" "t \<le> card (occupied n bs)" "dib (bs ! ((?i + t) mod n)) = 0"
    using first_empty [OF room, of ?i] by metis
  have "unat (dib e) + t < 2 ^ 16" using t small e by simp
  note L = insert_loop_correct [OF T c i m t(3,1,1) this] set_loop_fresh [OF T c i m t(3,1,1) this]
  then show ?thesis by auto
qed

lemma rehash_loop_correct:
  assumes "rh_table ok hv key n bs" and "mask_of n m"
    and "\<forall>e\<in>set old. dib e \<noteq> 0 \<longrightarrow> ok (b_item e) \<and> b_hash e = hv (b_item e)"
    and "distinct (map key (stored old))" and "key ` set (stored old) \<inter> key ` items n bs = {}"
    and "card (items n bs) + length (stored old) < n"
    and "card (items n bs) + length (stored old) < 65535"
  shows "\<exists>bs'. rehash_loop n m old bs = Inr bs' \<and> rh_table ok hv key n bs' \<and>
           items n bs' = items n bs \<union> set (stored old)"
  using assms
proof (induction old arbitrary: bs)
  case Nil
  then show ?case by simp
next
  case (Cons e old)
  show ?case
  proof (cases "dib e = 0")
    case True
    then show ?thesis using Cons.IH [of bs] Cons.prems by simp
  next
    case False
    let ?e = "e\<lparr>dib := 1\<rparr>"
    have "card (occupied n bs) < n" "card (occupied n bs) < 65535"
      using Cons.prems(6,7) card_items [OF Cons.prems(1)] False by simp_all
    moreover have "key (b_item e) \<notin> key ` items n bs" using Cons.prems(5) False by auto
    ultimately obtain bs' where bs': "insert_loop n m bs ?e (unat (b_hash e) AND m) = Inr bs'"
      "rh_table ok hv key n bs'" "items n bs' = insert (b_item e) (items n bs)"
      using place_home [OF Cons.prems(1,2), of ?e] Cons.prems(3) False by auto
    have new: "b_item e \<notin> items n bs" using \<open>key (b_item e) \<notin> key ` items n bs\<close> by blast
    have "\<exists>bs''. rehash_loop n m old bs' = Inr bs'' \<and> rh_table ok hv key n bs'' \<and>
           items n bs'' = items n bs' \<union> set (stored old)"
    proof (rule Cons.IH [OF bs'(2) Cons.prems(2)])
      show "key ` set (stored old) \<inter> key ` items n bs' = {}"
        using Cons.prems(4,5) False bs'(3) by auto
      show "card (items n bs') + length (stored old) < n"
        "card (items n bs') + length (stored old) < 65535"
        using Cons.prems(6,7) False bs'(3) new by simp_all
    qed (use Cons.prems False in auto)
    then show ?thesis using False bs' by auto
  qed
qed

text \<open>\<open>resize\<close> to a power of two that the items fit in keeps the map.\<close>

lemma resize_correct:
  assumes W: "hashmap_wf ok hv key s0 s1 hm" and k: "4 \<le> k" "k \<le> 30"
    and fit: "map_count hm \<le> 2 ^ k * 3 div 4" and small: "map_count hm < 65535"
    and capk: "cap hm \<le> 2 ^ k"
  shows "\<exists>hm' b. resize allocs hm (2 ^ k) = Inr (hm', b) \<and> b = (fst allocs \<and> snd allocs) \<and>
           hashmap_wf ok hv key s0 s1 hm' \<and> hashmap_map key hm' = hashmap_map key hm \<and>
           map_count hm' = map_count hm \<and> oom hm' = oom hm \<and>
           nbuckets hm' = (if b then 2 ^ k else nbuckets hm) \<and>
           items (nbuckets hm') (buckets hm') = items (nbuckets hm) (buckets hm)"
proof (cases "fst allocs \<and> snd allocs")
  case False
  then have "\<not> (fst allocs \<and> snd allocs)" by blast
  then have "resize allocs hm (2 ^ k) = Inr (hm, False)"
    by (subst resize_def) (simp only: new_power [OF k] if_False bindE_Inr option.case)
  then show ?thesis using W False by auto
next
  case True
  define n :: nat where "n = 2 ^ k"
  have m: "mask_of n (n - 1)" unfolding mask_of_def n_def using k by blast
  have n16: "16 \<le> n" using m by (rule mask_of_ge_16)
  note T = hashmap_wfD(6) [OF W]
  let ?old = "take (nbuckets hm) (buckets hm)"
  have st: "set (stored ?old) = items (nbuckets hm) (buckets hm)"
    using items_stored rh_tableD(1) [OF T] by blast
  have dk: "distinct (map key (stored ?old))" using T by (rule distinct_stored)
  then have len: "length (stored ?old) = map_count hm"
    using hashmap_wfD(10) [OF W] distinct_card [of "stored ?old"] by (simp add: st distinct_map)
  have oks: "\<forall>e\<in>set ?old. dib e \<noteq> 0 \<longrightarrow> ok (b_item e) \<and> b_hash e = hv (b_item e)"
    using rh_tableD(1,3,4) [OF T] by (auto simp: in_set_conv_nth)
  have "map_count hm < n" using fit n16 by (simp add: n_def)
  then obtain bs' where bs': "rehash_loop n (n - 1) ?old (replicate n zero_bucket) = Inr bs'"
    "rh_table ok hv key n bs'" "items n bs' = items (nbuckets hm) (buckets hm)"
    using rehash_loop_correct [OF _ m oks dk, of "replicate n zero_bucket"] small n16
    by (auto simp: replicate_zero len st)
  have "table_map key n bs' = table_map key (nbuckets hm) (buckets hm)"
    using table_map_same_items [OF T bs'(2,3)] .
  moreover have "\<exists>j\<ge>4. cap hm = 2 ^ j" using W by (simp add: hashmap_wf_def)
  ultimately show ?thesis
    using True k bs' W m fit capk
    by (auto simp: resize_def new_power n_def hashmap_wf_def hashmap_map_def)
qed

section \<open>The operations on the map\<close>

text \<open>\<open>hashmap_get\<close> looks the key up.\<close>

lemma get_correct:
  assumes W: "hashmap_wf ok hv key s0 s1 hm" and x: "ok x"
  shows "hashmap_get hash compare hm x = Inr (hashmap_map key hm (key x))"
proof -
  note T = hashmap_wfD(6) [OF W]
  obtain r where r: "find_loop (nbuckets hm) compare (map_mask hm) (buckets hm) (hv x) x
      (unat (hv x) AND map_mask hm) = Inr r"
    and c: "case r of None \<Rightarrow> key x \<notin> key ` items (nbuckets hm) (buckets hm)
            | Some i \<Rightarrow> i < nbuckets hm \<and> dib (buckets hm ! i) \<noteq> 0 \<and> key (b_item (buckets hm ! i)) = key x"
    using find_loop_correct [OF T hashmap_wfD(1) [OF W] x] hashmap_wfD(7,9) [OF W] by auto
  show ?thesis
  proof (cases r)
    case None
    with c have "hashmap_map key hm (key x) = None" by (simp add: hashmap_map_None [OF W])
    with r None show ?thesis
      using hash_ok [OF x] hashmap_wfD(2,3) [OF W] by (simp add: hashmap_get_def)
  next
    case (Some i)
    with c have "hashmap_map key hm (key x) = Some (b_item (buckets hm ! i))"
      by (simp add: hashmap_map_Some [OF W] itemsI)
    moreover have "i < length (buckets hm)" using c Some rh_tableD(1) [OF T] by simp
    ultimately show ?thesis
      using r Some hash_ok [OF x] hashmap_wfD(2,3) [OF W]
      by (simp add: hashmap_get_def bucket_at_def)
  qed
qed

text \<open>The part of \<open>hashmap_set\<close> after a possible growth: there is room for one more item.\<close>

lemma set_fresh:
  assumes W: "hashmap_wf ok hv key s0 s1 hm" and x: "ok x" and room: "map_count hm < growat hm"
    and small: "map_count hm < 65535" and none: "hashmap_map key hm (key x) = None"
  shows "\<exists>bs. set_loop (nbuckets hm) compare (map_mask hm) (buckets hm) \<lparr>b_hash = hv x, dib = 1, b_item = x\<rparr>
             (unat (hv x) AND map_mask hm) = Inr (bs, None) \<and>
           (let hm' = hm\<lparr>buckets := bs, map_count := map_count hm + 1\<rparr>
            in hashmap_wf ok hv key s0 s1 hm' \<and> hashmap_map key hm' = (hashmap_map key hm)(key x \<mapsto> x))"
proof -
  define e where "e = \<lparr>b_hash = hv x, dib = 1, b_item = x\<rparr>"
  note T = hashmap_wfD(6) [OF W] and m = hashmap_wfD(1) [OF W]
  have fresh: "key x \<notin> key ` items (nbuckets hm) (buckets hm)"
    using none by (simp add: hashmap_map_None [OF W])
  then obtain bs where bs: "set_loop (nbuckets hm) compare (map_mask hm) (buckets hm) e
      (unat (hv x) AND map_mask hm) = Inr (bs, None)"
    "rh_table ok hv key (nbuckets hm) bs" "items (nbuckets hm) bs = insert x (items (nbuckets hm) (buckets hm))"
    using place_home [OF T m, of e] x hashmap_wfD(7,9) [OF W] small by (auto simp: e_def)
  have "items (nbuckets hm) (buckets hm) - {y. key y = key x} = items (nbuckets hm) (buckets hm)"
    using fresh by (auto, metis imageI)
  then have "table_map key (nbuckets hm) bs = (table_map key (nbuckets hm) (buckets hm))(key x \<mapsto> x)"
    using table_map_insert [OF T bs(2), of x] bs(3) by simp
  moreover have "card (items (nbuckets hm) bs) = map_count hm + 1"
  proof -
    have "x \<notin> items (nbuckets hm) (buckets hm)" using fresh by blast
    then show ?thesis using hashmap_wfD(10) [OF W] by (simp add: bs(3))
  qed
  ultimately show ?thesis
    using bs W room by (simp add: hashmap_wf_def hashmap_map_def e_def)
qed

lemma set_present:
  assumes W: "hashmap_wf ok hv key s0 s1 hm" and x: "ok x" and present: "hashmap_map key hm (key x) = Some x'"
  shows "\<exists>bs. set_loop (nbuckets hm) compare (map_mask hm) (buckets hm) \<lparr>b_hash = hv x, dib = 1, b_item = x\<rparr>
             (unat (hv x) AND map_mask hm) = Inr (bs, Some x') \<and>
           (let hm' = hm\<lparr>buckets := bs, map_count := map_count hm\<rparr>
            in hashmap_wf ok hv key s0 s1 hm' \<and> hashmap_map key hm' = (hashmap_map key hm)(key x \<mapsto> x))"
proof -
  define e where "e = \<lparr>b_hash = hv x, dib = 1, b_item = x\<rparr>"
  note T = hashmap_wfD(6) [OF W] and m = hashmap_wfD(1) [OF W]
  let ?n = "nbuckets hm" and ?bs = "buckets hm" and ?h = "unat (hv x)"
  have n: "2 \<le> ?n" using m by (rule mask_of_ge_2)
  have x': "x' \<in> items ?n ?bs" "key x' = key x" using present by (simp_all add: hashmap_map_Some [OF W])
  obtain t where t: "t < ?n" "dib (?bs ! ((?h + t) mod ?n)) \<noteq> 0" "b_item (?bs ! ((?h + t) mod ?n)) = x'"
    "\<forall>s\<le>t. s + 1 \<le> dist_at ?bs ((?h + s) mod ?n)"
    "\<forall>s<t. key (b_item (?bs ! ((?h + s) mod ?n))) \<noteq> key x"
    using slot_of_key [OF T n x x'] by blast
  define j where "j = (?h + t) mod ?n"
  have j: "j < ?n" using n by (simp add: j_def)
  have "set_loop ?n compare (map_mask hm) ?bs e (?h AND map_mask hm) =
      (let j = ((?h AND map_mask hm) + t) mod ?n in
       Inr (?bs[j := (?bs ! j)\<lparr>b_item := b_item e\<rparr>], Some (b_item (?bs ! j))))"
    using t x x' n home_slot [OF m] mask_of_mod [OF m]
    by (intro set_loop_hit [OF T m]) (simp_all add: e_def)
  then have loop: "set_loop ?n compare (map_mask hm) ?bs e (?h AND map_mask hm) =
      Inr (?bs[j := (?bs ! j)\<lparr>b_item := x\<rparr>], Some x')"
    using t(3) home_slot [OF m, of x t] by (simp add: e_def j_def Let_def)
  have "hv x = hv x'" using match_iff [of x x'] x x' items_ok [OF T x'(1)] by simp
  then have R: "rh_table ok hv key ?n (?bs[j := (?bs ! j)\<lparr>b_item := x\<rparr>])"
    "items ?n (?bs[j := (?bs ! j)\<lparr>b_item := x\<rparr>]) = insert x (items ?n ?bs - {y. key y = key x})"
    "occupied ?n (?bs[j := (?bs ! j)\<lparr>b_item := x\<rparr>]) = occupied ?n ?bs"
    using rh_replace_item [OF T j] t(2,3) x x' by (simp_all add: j_def)
  have "card (items ?n (?bs[j := (?bs ! j)\<lparr>b_item := x\<rparr>])) = map_count hm"
    using card_items [OF R(1)] R(3) hashmap_wfD(7) [OF W] by simp
  then show ?thesis
    using loop R(1) table_map_insert [OF T R(1,2)] W
    by (simp add: hashmap_wf_def hashmap_map_def e_def)
qed

lemma set_in_room:
  assumes W: "hashmap_wf ok hv key s0 s1 hm" and x: "ok x" and room: "map_count hm < growat hm"
    and small: "map_count hm < 65535"
  defines "e \<equiv> \<lparr>b_hash = hv x, dib = 1, b_item = x\<rparr>"
  shows "\<exists>bs old. set_loop (nbuckets hm) compare (map_mask hm) (buckets hm) e
             (unat (hv x) AND map_mask hm) = Inr (bs, old) \<and> old = hashmap_map key hm (key x) \<and>
           (let hm' = hm\<lparr>buckets := bs, map_count := (if old = None then map_count hm + 1 else map_count hm)\<rparr>
            in hashmap_wf ok hv key s0 s1 hm' \<and> hashmap_map key hm' = (hashmap_map key hm)(key x \<mapsto> x))"
proof (cases "hashmap_map key hm (key x)")
  case None
  then show ?thesis using set_fresh [OF W x room small None] by (auto simp: e_def)
next
  case (Some x')
  then show ?thesis using set_present [OF W x Some] by (auto simp: e_def)
qed

text \<open>A full table grows, when there is memory for it.\<close>

lemma grow_correct:
  assumes W: "hashmap_wf ok hv key s0 s1 hm" and small: "hashmap_small hm" and full: "map_count hm = growat hm"
  obtains hm2 b where "resize allocs hm (nbuckets hm * 2) = Inr (hm2, b)" and "b = (fst allocs \<and> snd allocs)"
    and "hashmap_wf ok hv key s0 s1 hm2" and "hashmap_map key hm2 = hashmap_map key hm" and "oom hm2 = oom hm"
    and "map_count hm2 < 65535" and "nbuckets hm2 \<le> 2 ^ 29" and "b \<longrightarrow> map_count hm2 < growat hm2"
proof -
  obtain k where k: "nbuckets hm = 2 ^ k" "4 \<le> k"
    using hashmap_wfD(1) [OF W] by (auto simp: mask_of_def)
  have "(2::nat) ^ k \<le> 2 ^ 29" using small k by (simp add: hashmap_small_def)
  then have k29: "k \<le> 29" by (rule power_le_imp_le_exp [rotated]) simp
  have pre: "map_count hm \<le> 2 ^ Suc k * 3 div 4" "map_count hm < 65535" "cap hm \<le> 2 ^ Suc k"
    using hashmap_wfD(4,8) [OF W] W k small by (auto simp: hashmap_small_def hashmap_wf_def)
  obtain hm2 b where R: "resize allocs hm (2 ^ Suc k) = Inr (hm2, b)" "b = (fst allocs \<and> snd allocs)"
    "hashmap_wf ok hv key s0 s1 hm2" "hashmap_map key hm2 = hashmap_map key hm"
    "map_count hm2 = map_count hm" "oom hm2 = oom hm" "nbuckets hm2 = (if b then 2 ^ Suc k else nbuckets hm)"
    using resize_correct [OF W _ _ pre, of allocs] k k29 by auto
  have two: "nbuckets hm * 2 = 2 ^ Suc k" using k by simp
  have "map_count hm2 < growat hm2" if b
    using R(5,7) that full hashmap_wfD(4) [OF W] hashmap_wfD(4) [OF R(3)] k mask_of_ge_16 [OF hashmap_wfD(1) [OF W]]
    by simp
  moreover have "nbuckets hm2 \<le> 2 ^ 29"
  proof (cases b)
    case True
    have "nbuckets hm * 3 div 4 < 65534" using full small hashmap_wfD(4) [OF W] by (simp add: hashmap_small_def)
    moreover have "nbuckets hm2 = nbuckets hm * 2" using R(7) True k by simp
    ultimately show ?thesis by simp
  qed (use R(7) small in \<open>simp add: hashmap_small_def\<close>)
  moreover have "map_count hm2 < 65535" using pre(2) R(5) by simp
  ultimately show ?thesis using that R(1-4,6) unfolding two by blast
qed

text \<open>
  \<open>hashmap_set\<close> stores the item under its key and returns the item it replaced; when it must grow
  and cannot, it reports \<open>oom\<close> and changes nothing.
\<close>

lemma set_correct:
  assumes W: "hashmap_wf ok hv key s0 s1 hm" and x: "ok x" and small: "hashmap_small hm"
  shows "\<exists>hm' old. hashmap_set hash compare allocs hm x = Inr (hm', old) \<and>
           hashmap_wf ok hv key s0 s1 hm' \<and> nbuckets hm' \<le> 2 ^ 29 \<and>
           oom hm' = (map_count hm = growat hm \<and> \<not> (fst allocs \<and> snd allocs)) \<and>
           old = (if oom hm' then None else hashmap_map key hm (key x)) \<and>
           hashmap_map key hm' =
             (if oom hm' then hashmap_map key hm else (hashmap_map key hm)(key x \<mapsto> x))"
proof -
  define hm1 where "hm1 = hm\<lparr>oom := False\<rparr>"
  have W1: "hashmap_wf ok hv key s0 s1 hm1" and M1: "hashmap_map key hm1 = hashmap_map key hm"
    and small1: "hashmap_small hm1"
    using W small by (simp_all add: hm1_def hashmap_small_def)
  have fin: ?thesis
    if grow: "(if map_count hm1 = growat hm1 then resize allocs hm1 (nbuckets hm1 * 2)
               else Inr (hm1, True)) = Inr (hm2, True)"
      and W2: "hashmap_wf ok hv key s0 s1 hm2" and M2: "hashmap_map key hm2 = hashmap_map key hm"
      and room: "map_count hm2 < growat hm2" "map_count hm2 < 65535" and no: "\<not> oom hm2"
      and nb: "nbuckets hm2 \<le> 2 ^ 29"
      and ok: "\<not> (map_count hm = growat hm \<and> \<not> (fst allocs \<and> snd allocs))" for hm2
  proof -
    obtain bs old where "set_loop (nbuckets hm2) compare (map_mask hm2) (buckets hm2)
        \<lparr>b_hash = hv x, dib = 1, b_item = x\<rparr> (unat (hv x) AND map_mask hm2) = Inr (bs, old)"
      "old = hashmap_map key hm2 (key x)"
      "let hm' = hm2\<lparr>buckets := bs, map_count := (if old = None then map_count hm2 + 1 else map_count hm2)\<rparr>
       in hashmap_wf ok hv key s0 s1 hm' \<and> hashmap_map key hm' = (hashmap_map key hm2)(key x \<mapsto> x)"
      using set_in_room [OF W2 x room] by blast
    then show ?thesis
      using grow hash_ok [OF x] hashmap_wfD(2,3) [OF W2] M2 no ok nb
      unfolding hashmap_set_def hm1_def [symmetric] by (simp add: Let_def)
  qed
  show ?thesis
  proof (cases "map_count hm = growat hm")
    case False
    have "map_count hm1 < growat hm1" using False hashmap_wfD(8) [OF W] by (simp add: hm1_def)
    then show ?thesis
      using False small by (intro fin [of hm1]) (auto simp: hm1_def W hashmap_small_def)
  next
    case True
    then have full: "map_count hm1 = growat hm1" by (simp add: hm1_def)
    obtain hm2 b where R: "resize allocs hm1 (nbuckets hm1 * 2) = Inr (hm2, b)" "b = (fst allocs \<and> snd allocs)"
      "hashmap_wf ok hv key s0 s1 hm2" "hashmap_map key hm2 = hashmap_map key hm1" "oom hm2 = oom hm1"
      "map_count hm2 < 65535" "nbuckets hm2 \<le> 2 ^ 29" "b \<longrightarrow> map_count hm2 < growat hm2"
      using grow_correct [where allocs = allocs, OF W1 small1 full] .
    have no: "\<not> oom hm2" using R(5) by (simp add: hm1_def)
    show ?thesis
    proof (cases b)
      case b: True
      then show ?thesis using R M1 full no by (intro fin [of hm2]) auto
    next
      case False
      then have "hashmap_set hash compare allocs hm x = Inr (hm2\<lparr>oom := True\<rparr>, None)"
        using R(1) full unfolding hashmap_set_def hm1_def [symmetric] by (simp add: Let_def)
      then show ?thesis using R(2-4,7) M1 True False by simp
    qed
  qed
qed

text \<open>Emptying the slot of an item and shifting the items behind it back removes exactly this item.\<close>

lemma remove_slot:
  assumes T: "rh_table ok hv key n bs" and m: "mask_of n m" and room: "card (occupied n bs) < n"
    and i: "i < n" "dib (bs ! i) \<noteq> 0" "key (b_item (bs ! i)) = k"
  obtains bs1 where "shift_loop n m (bs[i := (bs ! i)\<lparr>dib := 0\<rparr>]) i = Inr bs1" and "rh_table ok hv key n bs1"
    and "items n bs1 = items n bs - {y. key y = k}"
proof -
  define bs0 where "bs0 = bs[i := (bs ! i)\<lparr>dib := 0\<rparr>]"
  have len: "i < length bs" using i rh_tableD(1) [OF T] by simp
  have H: "holed ok hv key n bs0 i (dist_at bs i)"
    using T len i(1) unfolding holed_def rh_table_def bs0_def
    by (auto simp: nth_list_update)
  have X: "items_except n bs0 i = items n bs - {y. key y = k}"
  proof -
    have "occupied n bs0 - {i} = occupied n bs - {i}"
      using len by (auto simp: bs0_def occupied_def nth_list_update)
    then have "items_except n bs0 i = (\<lambda>j. b_item (bs ! j)) ` (occupied n bs - {i})"
      by (simp add: items_except_def bs0_def)
    moreover have "key (b_item (bs ! j)) = k \<longleftrightarrow> j = i" if "j \<in> occupied n bs" for j
      using rh_tableD(6) [OF T _ i(1) _ i(2), of j] that i(3) by (auto simp: occupied_def)
    ultimately show ?thesis by (auto simp: items_def)
  qed
  obtain t where t: "t < n" "dib (bs ! ((i + 1 + t) mod n)) = 0"
    using first_empty [OF room, of "i + 1"] by metis
  have neq: "(i + 1 + t) mod n \<noteq> i" using t(2) i(2) by auto
  have "t + 1 \<noteq> n"
  proof
    assume "t + 1 = n"
    then have "i + 1 + t = i + n" by simp
    then have "(i + 1 + t) mod n = (i + n) mod n" by metis
    then show False using neq i(1) by simp
  qed
  then have "t + 1 < n" using t(1) by simp
  moreover have "dib (bs0 ! ((i + 1 + t) mod n)) = 0" using t(2) neq by (simp add: bs0_def)
  ultimately show ?thesis
    using that shift_loop_correct [OF H m i(1) _ t(1)] X by (auto simp: bs0_def)
qed

text \<open>Shrinking keeps the items, whether there is memory for it or not.\<close>

lemma shrink_correct:
  assumes W: "hashmap_wf ok hv key s0 s1 hm" and shrink: "nbuckets hm > cap hm" "map_count hm \<le> shrinkat hm"
    and small: "map_count hm < 65534" "nbuckets hm \<le> 2 ^ 29"
  obtains hm' b where "resize allocs hm (nbuckets hm div 2) = Inr (hm', b)" and "hashmap_wf ok hv key s0 s1 hm'"
    and "hashmap_map key hm' = hashmap_map key hm" and "oom hm' = oom hm" and "nbuckets hm' \<le> 2 ^ 29"
proof -
  obtain k where k: "nbuckets hm = 2 ^ k" "4 \<le> k"
    using hashmap_wfD(1) [OF W] by (auto simp: mask_of_def)
  obtain j where j: "cap hm = 2 ^ j" "4 \<le> j" using W by (auto simp: hashmap_wf_def)
  have "j < k" using shrink k j by simp
  then obtain l where l: "k = Suc l" "4 \<le> l" "j \<le> l" using j by (cases k) auto
  have "(2::nat) ^ k \<le> 2 ^ 29" using small k by simp
  then have "k \<le> 29" by (rule power_le_imp_le_exp [rotated]) simp
  have pre: "map_count hm \<le> 2 ^ l * 3 div 4" "map_count hm < 65535" "cap hm \<le> 2 ^ l"
    using shrink hashmap_wfD(5) [OF W] k l j small by (auto intro: power_increasing)
  obtain hm' b where r: "resize allocs hm (2 ^ l) = Inr (hm', b)"
    "hashmap_wf ok hv key s0 s1 hm'" "hashmap_map key hm' = hashmap_map key hm"
    "oom hm' = oom hm" "nbuckets hm' = (if b then 2 ^ l else nbuckets hm)"
    using resize_correct [OF W l(2) _ pre, of allocs] l \<open>k \<le> 29\<close> by auto
  moreover have "(2::nat) ^ l \<le> 2 ^ 29" using l \<open>k \<le> 29\<close> by (intro power_increasing) auto
  ultimately show ?thesis using that [of hm' b] k l small by simp
qed

text \<open>The table without the item at slot \<open>i\<close>.\<close>

lemma removed_correct:
  assumes W: "hashmap_wf ok hv key s0 s1 hm"
    and i: "i < nbuckets hm" "dib (buckets hm ! i) \<noteq> 0" "key (b_item (buckets hm ! i)) = key x"
  obtains bs where "shift_loop (nbuckets hm) (map_mask hm) ((buckets hm)[i := (buckets hm ! i)\<lparr>dib := 0\<rparr>]) i = Inr bs"
    and "hashmap_wf ok hv key s0 s1 (hm\<lparr>buckets := bs, map_count := map_count hm - 1\<rparr>)"
    and "hashmap_map key (hm\<lparr>buckets := bs, map_count := map_count hm - 1\<rparr>) = (hashmap_map key hm)(key x := None)"
proof -
  let ?n = "nbuckets hm" and ?bs = "buckets hm"
  note T = hashmap_wfD(6) [OF W] and m = hashmap_wfD(1) [OF W]
  have room: "card (occupied ?n ?bs) < ?n" using hashmap_wfD(7,9) [OF W] by simp
  obtain bs where S: "shift_loop ?n (map_mask hm) (?bs[i := (?bs ! i)\<lparr>dib := 0\<rparr>]) i = Inr bs" "rh_table ok hv key ?n bs"
    "items ?n bs = items ?n ?bs - {y. key y = key x}"
    using remove_slot [OF T m room i] .
  have "items ?n bs = items ?n ?bs - {b_item (?bs ! i)}"
    using S(3) i itemsI [OF i(1,2)] items_key_inj [OF T] by auto
  then have "card (items ?n bs) = map_count hm - 1"
    using itemsI [OF i(1,2)] hashmap_wfD(10) [OF W] by simp
  then have "hashmap_wf ok hv key s0 s1 (hm\<lparr>buckets := bs, map_count := map_count hm - 1\<rparr>)"
    using W S(2) by (auto simp: hashmap_wf_def)
  moreover have "hashmap_map key (hm\<lparr>buckets := bs, map_count := map_count hm - 1\<rparr>) = (hashmap_map key hm)(key x := None)"
    using table_map_remove [OF T S(2,3)] by (simp add: hashmap_map_def)
  ultimately show ?thesis by (rule that [OF S(1)])
qed

text \<open>\<open>hashmap_delete\<close> removes the key and returns the item it was stored with.\<close>

lemma delete_correct:
  assumes W: "hashmap_wf ok hv key s0 s1 hm" and x: "ok x" and small: "hashmap_small hm"
  shows "\<exists>hm'. hashmap_delete hash compare allocs hm x = Inr (hm', hashmap_map key hm (key x)) \<and>
           hashmap_wf ok hv key s0 s1 hm' \<and> nbuckets hm' \<le> 2 ^ 29 \<and> \<not> oom hm' \<and>
           hashmap_map key hm' = (hashmap_map key hm)(key x := None)"
proof -
  define hm1 where "hm1 = hm\<lparr>oom := False\<rparr>"
  let ?n = "nbuckets hm1" and ?m = "map_mask hm1" and ?bs = "buckets hm1"
  have W1: "hashmap_wf ok hv key s0 s1 hm1" and M1: "hashmap_map key hm1 = hashmap_map key hm"
    using W by (simp_all add: hm1_def)
  note T = hashmap_wfD(6) [OF W1] and m = hashmap_wfD(1) [OF W1]
  have room: "card (occupied ?n ?bs) < ?n" using hashmap_wfD(7,9) [OF W1] by simp
  obtain r where r: "find_loop ?n compare ?m ?bs (hv x) x (unat (hv x) AND ?m) = Inr r"
    and c: "case r of None \<Rightarrow> key x \<notin> key ` items ?n ?bs
            | Some i \<Rightarrow> i < ?n \<and> dib (?bs ! i) \<noteq> 0 \<and> key (b_item (?bs ! i)) = key x"
    using find_loop_correct [OF T m x room] by auto
  have gh: "get_hash hash (seed0 hm1) (seed1 hm1) x = Inr (hv x)"
    using hash_ok [OF x] hashmap_wfD(2,3) [OF W1] by simp
  show ?thesis
  proof (cases r)
    case None
    with c have none: "hashmap_map key hm1 (key x) = None" by (simp add: hashmap_map_None [OF W1])
    then have "(hashmap_map key hm1)(key x := None) = hashmap_map key hm1"
      by (metis fun_upd_triv)
    then show ?thesis
      using r None none gh W1 M1 small unfolding hashmap_delete_def hm1_def [symmetric]
      by (simp add: Let_def) (simp add: hm1_def hashmap_small_def)
  next
    case (Some i)
    have i: "i < ?n" "dib (?bs ! i) \<noteq> 0" "key (b_item (?bs ! i)) = key x" using c Some by auto
    have len: "i < length ?bs" using i rh_tableD(1) [OF T] by simp
    have some: "hashmap_map key hm1 (key x) = Some (b_item (?bs ! i))"
      using i by (simp add: hashmap_map_Some [OF W1] itemsI)
    obtain bs1 where S: "shift_loop ?n ?m (?bs[i := (?bs ! i)\<lparr>dib := 0\<rparr>]) i = Inr bs1"
      and W2': "hashmap_wf ok hv key s0 s1 (hm1\<lparr>buckets := bs1, map_count := map_count hm1 - 1\<rparr>)"
      and M2': "hashmap_map key (hm1\<lparr>buckets := bs1, map_count := map_count hm1 - 1\<rparr>) = (hashmap_map key hm1)(key x := None)"
      using removed_correct [OF W1 i] .
    define hm2 where "hm2 = hm1\<lparr>buckets := bs1, map_count := map_count hm1 - 1\<rparr>"
    note W2 = W2' [folded hm2_def] and M2 = M2' [folded hm2_def]
    have fields: "map_count hm2 < 65534" "nbuckets hm2 \<le> 2 ^ 29" "\<not> oom hm2"
      using small by (auto simp: hm2_def hm1_def hashmap_small_def)
    have del: "hashmap_delete hash compare allocs hm x =
        (if nbuckets hm2 > cap hm2 \<and> map_count hm2 \<le> shrinkat hm2 then
           bindE (resize allocs hm2 (nbuckets hm2 div 2)) (\<lambda>(hm, _). Inr (hm, Some (b_item (?bs ! i))))
         else Inr (hm2, Some (b_item (?bs ! i))))"
      using r Some gh len S
      unfolding hashmap_delete_def hm1_def [symmetric] hm2_def
      by (simp add: Let_def bucket_at_def)
    show ?thesis
    proof (cases "nbuckets hm2 > cap hm2 \<and> map_count hm2 \<le> shrinkat hm2")
      case False
      then show ?thesis using del W2 M2 M1 some fields by auto
    next
      case True
      then obtain hm3 b where "resize allocs hm2 (nbuckets hm2 div 2) = Inr (hm3, b)"
        and "hashmap_wf ok hv key s0 s1 hm3" and "hashmap_map key hm3 = hashmap_map key hm2"
        and "oom hm3 = oom hm2" and "nbuckets hm3 \<le> 2 ^ 29"
        using shrink_correct [OF W2 _ _ fields(1,2), of allocs] by blast
      then show ?thesis using True del M2 M1 some fields(3) by simp
    qed
  qed
qed

end

end
