(* ===== verification/HashFunctions.thy ===== *)
theory HashFunctions
  imports Prelude
begin

text \<open>
  The two hash functions of \<^verbatim>\<open>src/hashmap.c\<close> (lines 448-613): SipHash-2-4 as \<open>SIP64\<close> and
  MurmurHash3 x86 128 as \<open>MM86128\<close>, on machine words as the C macros compute them, with the
  switch fall-through of their tails written out. \<open>siphash_2_4\<close> is the published SipHash
  definition (the initial state from its string, padding to whole words, then a fold of the
  compression function), written without the definitions of the code; \<open>SIP64\<close> is proved equal to it.
\<close>

section \<open>SipHash-2-4\<close>

definition ROTL :: "u64 \<Rightarrow> nat \<Rightarrow> u64" where
  "ROTL x b = push_bit b x OR drop_bit (64 - b) x"

definition U8TO64_LE :: "u8 list \<Rightarrow> u64" where
  "U8TO64_LE p =
     ucast (p ! 0) OR push_bit 8 (ucast (p ! 1)) OR push_bit 16 (ucast (p ! 2))
     OR push_bit 24 (ucast (p ! 3)) OR push_bit 32 (ucast (p ! 4)) OR push_bit 40 (ucast (p ! 5))
     OR push_bit 48 (ucast (p ! 6)) OR push_bit 56 (ucast (p ! 7))"

definition U32TO8_LE :: "u32 \<Rightarrow> u8 list" where
  "U32TO8_LE v = [ucast v, ucast (drop_bit 8 v), ucast (drop_bit 16 v), ucast (drop_bit 24 v)]"

definition U64TO8_LE :: "u64 \<Rightarrow> u8 list" where
  "U64TO8_LE v = U32TO8_LE (ucast v) @ U32TO8_LE (ucast (drop_bit 32 v))"

type_synonym sip_state = "u64 \<times> u64 \<times> u64 \<times> u64"

fun SIPROUND :: "sip_state \<Rightarrow> sip_state" where
  "SIPROUND (v0, v1, v2, v3) =
     (let v0 = v0 + v1; v1 = ROTL v1 13;
          v1 = v1 XOR v0; v0 = ROTL v0 32;
          v2 = v2 + v3; v3 = ROTL v3 16;
          v3 = v3 XOR v2;
          v0 = v0 + v3; v3 = ROTL v3 21;
          v3 = v3 XOR v0;
          v2 = v2 + v1; v1 = ROTL v1 17;
          v1 = v1 XOR v2; v2 = ROTL v2 32
      in (v0, v1, v2, v3))"

text \<open>One message word: \<open>v3 ^= m; SIPROUND; SIPROUND; v0 ^= m\<close>.\<close>

fun sip_compress :: "u64 \<Rightarrow> sip_state \<Rightarrow> sip_state" where
  "sip_compress m (v0, v1, v2, v3) =
     (case SIPROUND (SIPROUND (v0, v1, v2, v3 XOR m)) of (w0, w1, w2, w3) \<Rightarrow> (w0 XOR m, w1, w2, w3))"

text \<open>The loop over whole words: \<open>for (; in != end; in += 8)\<close>, \<open>k\<close> words being left.\<close>

fun sip_blocks :: "nat \<Rightarrow> u8 list \<Rightarrow> sip_state \<Rightarrow> sip_state" where
  "sip_blocks 0 inp v = v"
| "sip_blocks (Suc k) inp v = sip_blocks k (drop 8 inp) (sip_compress (U8TO64_LE inp) v)"

text \<open>The switch on \<open>inlen & 7\<close>, each case falling through to the next.\<close>

definition sip_tail :: "nat \<Rightarrow> u8 list \<Rightarrow> u64 \<Rightarrow> u64" where
  "sip_tail left inp b =
     (let b = (if left \<ge> 7 then b OR push_bit 48 (ucast (inp ! 6)) else b);
          b = (if left \<ge> 6 then b OR push_bit 40 (ucast (inp ! 5)) else b);
          b = (if left \<ge> 5 then b OR push_bit 32 (ucast (inp ! 4)) else b);
          b = (if left \<ge> 4 then b OR push_bit 24 (ucast (inp ! 3)) else b);
          b = (if left \<ge> 3 then b OR push_bit 16 (ucast (inp ! 2)) else b);
          b = (if left \<ge> 2 then b OR push_bit 8 (ucast (inp ! 1)) else b)
      in if left \<ge> 1 then b OR ucast (inp ! 0) else b)"

definition sip_init :: "u64 \<Rightarrow> u64 \<Rightarrow> sip_state" where
  "sip_init k0 k1 =
     (0x736f6d6570736575 XOR k0, 0x646f72616e646f6d XOR k1,
      0x6c7967656e657261 XOR k0, 0x7465646279746573 XOR k1)"

fun sip_finish :: "sip_state \<Rightarrow> u64" where
  "sip_finish (v0, v1, v2, v3) =
     (case SIPROUND (SIPROUND (SIPROUND (SIPROUND (v0, v1, v2 XOR 0xff, v3)))) of
        (w0, w1, w2, w3) \<Rightarrow> w0 XOR w1 XOR w2 XOR w3)"

definition SIP64 :: "u8 list \<Rightarrow> u64 \<Rightarrow> u64 \<Rightarrow> u64" where
  "SIP64 inp seed0 seed1 =
     (let inlen = length inp;
          k0 = U8TO64_LE (U64TO8_LE seed0);
          k1 = U8TO64_LE (U64TO8_LE seed1);
          v = sip_blocks (inlen div 8) inp (sip_init k0 k1);
          b = sip_tail (inlen AND 7) (drop (8 * (inlen div 8)) inp) (push_bit 56 (of_nat inlen));
          out = U64TO8_LE (sip_finish (sip_compress b v))
      in U8TO64_LE out)"

definition hashmap_sip :: "u8 list \<Rightarrow> u64 \<Rightarrow> u64 \<Rightarrow> u64" where
  "hashmap_sip data seed0 seed1 = SIP64 data seed0 seed1"

section \<open>MurmurHash3 x86 128\<close>

definition ROTL32 :: "u32 \<Rightarrow> nat \<Rightarrow> u32" where
  "ROTL32 x r = push_bit r x OR drop_bit (32 - r) x"

definition FMIX32 :: "u32 \<Rightarrow> u32" where
  "FMIX32 h =
     (let h = h XOR drop_bit 16 h; h = h * 0x85ebca6b; h = h XOR drop_bit 13 h;
          h = h * 0xc2b2ae35
      in h XOR drop_bit 16 h)"

definition murmur_word :: "u8 list \<Rightarrow> nat \<Rightarrow> u32" where
  "murmur_word data i =
     ucast (data ! i) OR push_bit 8 (ucast (data ! (i + 1)))
     OR push_bit 16 (ucast (data ! (i + 2))) OR push_bit 24 (ucast (data ! (i + 3)))"

definition murmur_c1 :: u32 where "murmur_c1 = 0x239b961b"
definition murmur_c2 :: u32 where "murmur_c2 = 0xab0e9789"
definition murmur_c3 :: u32 where "murmur_c3 = 0x38b34ae5"
definition murmur_c4 :: u32 where "murmur_c4 = 0xa1e38b93"

type_synonym murmur_state = "u32 \<times> u32 \<times> u32 \<times> u32"

fun murmur_block :: "u8 list \<Rightarrow> murmur_state \<Rightarrow> murmur_state" where
  "murmur_block data (h1, h2, h3, h4) =
     (let k1 = murmur_word data 0; k2 = murmur_word data 4;
          k3 = murmur_word data 8; k4 = murmur_word data 12;
          h1 = h1 XOR (ROTL32 (k1 * murmur_c1) 15 * murmur_c2);
          h1 = (ROTL32 h1 19 + h2) * 5 + 0x561ccd1b;
          h2 = h2 XOR (ROTL32 (k2 * murmur_c2) 16 * murmur_c3);
          h2 = (ROTL32 h2 17 + h3) * 5 + 0x0bcaa747;
          h3 = h3 XOR (ROTL32 (k3 * murmur_c3) 17 * murmur_c4);
          h3 = (ROTL32 h3 15 + h4) * 5 + 0x96cd1c35;
          h4 = h4 XOR (ROTL32 (k4 * murmur_c4) 18 * murmur_c1);
          h4 = (ROTL32 h4 13 + h1) * 5 + 0x32ac3b17
      in (h1, h2, h3, h4))"

fun murmur_blocks :: "nat \<Rightarrow> u8 list \<Rightarrow> murmur_state \<Rightarrow> murmur_state" where
  "murmur_blocks 0 data h = h"
| "murmur_blocks (Suc k) data h = murmur_blocks k (drop 16 data) (murmur_block data h)"

text \<open>One byte of the tail, present when the switch enters at or above its case.\<close>

definition tail_byte :: "nat \<Rightarrow> u8 list \<Rightarrow> nat \<Rightarrow> nat \<Rightarrow> u32" where
  "tail_byte left tail i s = (if i < left then push_bit s (ucast (tail ! i)) else 0)"

fun murmur_tail :: "nat \<Rightarrow> u8 list \<Rightarrow> murmur_state \<Rightarrow> murmur_state" where
  "murmur_tail left tail (h1, h2, h3, h4) =
     (let k4 = tail_byte left tail 14 16 XOR tail_byte left tail 13 8 XOR tail_byte left tail 12 0;
          h4 = (if 13 \<le> left then h4 XOR (ROTL32 (k4 * murmur_c4) 18 * murmur_c1) else h4);
          k3 = tail_byte left tail 11 24 XOR tail_byte left tail 10 16
               XOR tail_byte left tail 9 8 XOR tail_byte left tail 8 0;
          h3 = (if 9 \<le> left then h3 XOR (ROTL32 (k3 * murmur_c3) 17 * murmur_c4) else h3);
          k2 = tail_byte left tail 7 24 XOR tail_byte left tail 6 16
               XOR tail_byte left tail 5 8 XOR tail_byte left tail 4 0;
          h2 = (if 5 \<le> left then h2 XOR (ROTL32 (k2 * murmur_c2) 16 * murmur_c3) else h2);
          k1 = tail_byte left tail 3 24 XOR tail_byte left tail 2 16
               XOR tail_byte left tail 1 8 XOR tail_byte left tail 0 0;
          h1 = (if 1 \<le> left then h1 XOR (ROTL32 (k1 * murmur_c1) 15 * murmur_c2) else h1)
      in (h1, h2, h3, h4))"

fun murmur_mix :: "murmur_state \<Rightarrow> murmur_state" where
  "murmur_mix (h1, h2, h3, h4) =
     (let h1 = h1 + h2; h1 = h1 + h3; h1 = h1 + h4
      in (h1, h2 + h1, h3 + h1, h4 + h1))"

text \<open>
  The parameter \<^verbatim>\<open>len\<close> is an \<^verbatim>\<open>int\<close>: \<open>len\<close> is its bit pattern, and its division by 16 rounds towards
  zero. When that gives a negative \<^verbatim>\<open>nblocks\<close>, the block loop counts up from \<^verbatim>\<open>-nblocks > 0\<close> and can
  only end by overflowing its counter.
\<close>

definition MM86128 :: "u8 list \<Rightarrow> u32 \<Rightarrow> u32 \<Rightarrow> murmur_state result" where
  "MM86128 key len seed =
     (let n = sint len; nblocks = (if 0 \<le> n then n div 16 else - (- n div 16)) in
      if nblocks < 0 then Inl Signed_overflow
      else
        let nblocks = nat nblocks;
            h = murmur_blocks nblocks key (seed, seed, seed, seed);
            (h1, h2, h3, h4) = murmur_tail (unat (len AND 15)) (drop (16 * nblocks) key) h;
            (h1, h2, h3, h4) = murmur_mix (h1 XOR len, h2 XOR len, h3 XOR len, h4 XOR len)
        in Inr (murmur_mix (FMIX32 h1, FMIX32 h2, FMIX32 h3, FMIX32 h4)))"

text \<open>\<^verbatim>\<open>size_t\<close> to \<^verbatim>\<open>int\<close> and \<^verbatim>\<open>uint64_t\<close> to \<^verbatim>\<open>uint32_t\<close> keep the low 32 bits.\<close>

definition hashmap_murmur :: "u8 list \<Rightarrow> u64 \<Rightarrow> u64 \<Rightarrow> u64 result" where
  "hashmap_murmur data seed0 seed1 =
     bindE (MM86128 data (of_nat (length data)) (ucast seed0)) (\<lambda>(h1, h2, h3, h4).
       Inr (ucast h1 OR push_bit 32 (ucast h2)))"

lemma hashmap_murmur_total: "length data < 2 ^ 31 \<Longrightarrow> \<exists>x. hashmap_murmur data s0 s1 = Inr x"
proof -
  assume d: "length data < 2 ^ 31"
  have "sint (of_nat (length data) :: u32) = int (length data)"
    using d signed_take_bit_int_eq_self [of 31 "int (length data)"] by (simp add: signed_of_nat)
  then show ?thesis
    by (simp add: hashmap_murmur_def MM86128_def Let_def pos_imp_zdiv_neg_iff split: prod.splits)
qed

section \<open>The published definition of SipHash-2-4\<close>

text \<open>
  The message is padded with zero bytes and one length byte to whole 64-bit little-endian
  words, which are folded with the compression function. Rotations are the library's.
\<close>

fun sip_round_spec :: "sip_state \<Rightarrow> sip_state" where
  "sip_round_spec (v0, v1, v2, v3) =
     (let a0 = v0 + v1; a1 = word_rotl 13 v1 XOR a0; a2 = v2 + v3; a3 = word_rotl 16 v3 XOR a2;
          b0 = word_rotl 32 a0 + a3; b3 = word_rotl 21 a3 XOR b0;
          b2 = a2 + a1; b1 = word_rotl 17 a1 XOR b2
      in (b0, b1, word_rotl 32 b2, b3))"

definition sip_pad :: "u8 list \<Rightarrow> u8 list" where
  "sip_pad bs = bs @ replicate (7 - length bs mod 8) 0 @ [of_nat (length bs)]"

fun sip_words :: "nat \<Rightarrow> u8 list \<Rightarrow> u64 list" where
  "sip_words 0 bs = []"
| "sip_words (Suc k) bs = of_nat (le_nat (take 8 bs)) # sip_words k (drop 8 bs)"

fun sip_step_spec :: "u64 \<Rightarrow> sip_state \<Rightarrow> sip_state" where
  "sip_step_spec m (v0, v1, v2, v3) =
     (case (sip_round_spec ^^ 2) (v0, v1, v2, v3 XOR m) of (w0, w1, w2, w3) \<Rightarrow>
        (w0 XOR m, w1, w2, w3))"

fun sip_final_spec :: "sip_state \<Rightarrow> u64" where
  "sip_final_spec (v0, v1, v2, v3) =
     (case (sip_round_spec ^^ 4) (v0, v1, v2 XOR 0xff, v3) of (w0, w1, w2, w3) \<Rightarrow>
        w0 XOR w1 XOR w2 XOR w3)"

text \<open>
  The initial state is the key over the bytes of a string, taken as big-endian words. Nothing of the
  specification is a definition of the code.
\<close>

definition sip_constant_bytes :: "u8 list" where
  "sip_constant_bytes = map of_char ''somepseudorandomlygeneratedbytes''"

definition sip_constant :: "nat \<Rightarrow> u64" where
  "sip_constant i = of_nat (le_nat (rev (take 8 (drop (8 * i) sip_constant_bytes))))"

definition sip_start_spec :: "u64 \<Rightarrow> u64 \<Rightarrow> sip_state" where
  "sip_start_spec k0 k1 =
     (k0 XOR sip_constant 0, k1 XOR sip_constant 1, k0 XOR sip_constant 2, k1 XOR sip_constant 3)"

definition siphash_2_4 :: "u8 list \<Rightarrow> u64 \<Rightarrow> u64 \<Rightarrow> u64" where
  "siphash_2_4 bs k0 k1 =
     sip_final_spec (fold sip_step_spec (sip_words (length bs div 8 + 1) (sip_pad bs))
       (sip_start_spec k0 k1))"

section \<open>The C code computes it\<close>

lemma ROTL_word_rotl: "0 < b \<Longrightarrow> b < 64 \<Longrightarrow> ROTL x b = word_rotl b x"
proof (rule bit_word_eqI)
  fix n :: nat
  assume b: "0 < b" "b < 64" and n: "n < LENGTH(64)"
  show "bit (ROTL x b) n \<longleftrightarrow> bit (word_rotl b x) n"
  proof (cases "b \<le> n")
    case True
    then have "(n + (64 - b)) mod 64 = n - b"
      using b n by (simp add: mod_if)
    moreover have "\<not> bit x (64 - b + n)" using True b by (auto dest!: bit_imp_le_length)
    ultimately show ?thesis
      using True b n
      by (simp add: ROTL_def bit_word_rotl_iff bit_or_iff bit_push_bit_iff bit_drop_bit_eq)
  next
    case False
    then have "(64 - b + n) mod 64 = 64 - b + n"
      using b by (intro mod_less) linarith
    then have "(n + (64 - b)) mod 64 = 64 - b + n"
      by (simp only: add.commute)
    then show ?thesis
      using False b n
      by (simp add: ROTL_def bit_word_rotl_iff bit_or_iff bit_push_bit_iff bit_drop_bit_eq)
  qed
qed

lemma SIPROUND_spec: "SIPROUND v = sip_round_spec v"
  by (cases v) (simp add: ROTL_word_rotl Let_def)

lemma sip_compress_spec: "sip_compress m v = sip_step_spec m v"
  by (cases v) (simp add: SIPROUND_spec numeral_2_eq_2)

lemma sip_finish_spec: "sip_finish v = sip_final_spec v"
  by (cases v) (simp add: SIPROUND_spec numeral_eq_Suc)

lemma sip_constants:
  "sip_constant 0 = 0x736f6d6570736575" "sip_constant 1 = 0x646f72616e646f6d"
  "sip_constant 2 = 0x6c7967656e657261" "sip_constant 3 = 0x7465646279746573"
  by (simp_all add: sip_constant_def sip_constant_bytes_def)

lemma sip_init_spec: "sip_init k0 k1 = sip_start_spec k0 k1"
  by (simp only: sip_init_def sip_start_spec_def sip_constants xor.commute)

lemma le_nat_step:
  "of_nat (le_nat (b # bs)) = (ucast b OR push_bit 8 (of_nat (le_nat bs)) :: u64)"
proof -
  have "(ucast b :: u64) AND push_bit 8 (of_nat (le_nat bs)) = 0"
    by (rule bit_word_eqI) (auto simp: bit_simps dest: bit_imp_le_length)
  then have "(ucast b :: u64) OR push_bit 8 (of_nat (le_nat bs))
      = ucast b + push_bit 8 (of_nat (le_nat bs))"
    by (simp add: disjunctive_add_eq_or)
  also have "\<dots> = of_nat (unat b) + 256 * of_nat (le_nat bs)"
    by (simp add: push_bit_eq_mult)
  finally show ?thesis by simp
qed

lemma length_8E:
  assumes "8 \<le> length p"
  obtains a b c d e f g h where "take 8 p = [a, b, c, d, e, f, g, h]"
  using assms by (auto simp: numeral_eq_Suc Suc_le_length_iff)

lemma U8TO64_LE_value: "8 \<le> length p \<Longrightarrow> U8TO64_LE p = of_nat (le_nat (take 8 p))"
proof -
  assume "8 \<le> length p"
  then obtain a b c d e f g h where p: "take 8 p = [a, b, c, d, e, f, g, h]"
    by (rule length_8E)
  have "p ! i = take 8 p ! i" if "i < 8" for i using that by simp
  then have at: "p ! 0 = a" "p ! 1 = b" "p ! 2 = c" "p ! 3 = d"
      "p ! 4 = e" "p ! 5 = f" "p ! 6 = g" "p ! 7 = h"
    by (simp_all add: p)
  have last: "of_nat (le_nat []) = (0 :: u64)" by simp
  show ?thesis
    unfolding U8TO64_LE_def p at le_nat_step last
    by (simp add: or.assoc)
qed

text \<open>The tail word is the last padded word: the left-over bytes, zeros, and the length.\<close>

lemma and_7_mod_8: "n AND 7 = n mod (8 :: nat)"
  using and_mask_eq_mod [of n 3] by simp

lemma sip_tail_zero:
  assumes "length t < 8"
  shows "sip_tail (length t) t w = U8TO64_LE (t @ replicate (7 - length t) 0 @ [0]) OR w"
proof -
  have "length t = 0 \<or> length t = 1 \<or> length t = 2 \<or> length t = 3 \<or> length t = 4
      \<or> length t = 5 \<or> length t = 6 \<or> length t = 7"
    using assms by arith
  then show ?thesis
    by (auto simp: length_Suc_conv numeral_eq_Suc)
      (simp_all add: sip_tail_def U8TO64_LE_def or.assoc or.commute or.left_commute Let_def
        flip: numeral_eq_Suc)
qed

lemma U8TO64_LE_top:
  "length xs = 7 \<Longrightarrow> U8TO64_LE (xs @ [c]) = U8TO64_LE (xs @ [0]) OR push_bit 56 (ucast c)"
  by (simp add: U8TO64_LE_def nth_append or.assoc)

lemma sip_tail_value:
  assumes "length t < 8"
  shows "sip_tail (length t) t (push_bit 56 (ucast c)) =
         U8TO64_LE (t @ replicate (7 - length t) 0 @ [c])"
  using sip_tail_zero [OF assms] U8TO64_LE_top [of "t @ replicate (7 - length t) 0" c] assms
  by simp

lemma length_byte: "push_bit 56 (ucast (of_nat n :: u8)) = (push_bit 56 (of_nat n) :: u64)"
  by transfer (simp add: take_bit_push_bit)

lemma U64_roundtrip: "U8TO64_LE (U64TO8_LE v) = v"
proof (rule bit_word_eqI)
  fix n :: nat
  assume n: "n < LENGTH(64)"
  then have "n div 8 = 0 \<or> n div 8 = 1 \<or> n div 8 = 2 \<or> n div 8 = 3 \<or> n div 8 = 4
      \<or> n div 8 = 5 \<or> n div 8 = 6 \<or> n div 8 = 7"
    by (simp add: div_eq_dividend_iff) arith
  then have "n < 8 \<or> 8 \<le> n \<and> n < 16 \<or> 16 \<le> n \<and> n < 24 \<or> 24 \<le> n \<and> n < 32 \<or> 32 \<le> n \<and> n < 40
      \<or> 40 \<le> n \<and> n < 48 \<or> 48 \<le> n \<and> n < 56 \<or> 56 \<le> n"
    by arith
  then show "bit (U8TO64_LE (U64TO8_LE v)) n \<longleftrightarrow> bit v n"
    using n
    by (elim disjE) (auto simp: U8TO64_LE_def U64TO8_LE_def U32TO8_LE_def bit_or_iff
        bit_push_bit_iff bit_ucast_iff bit_drop_bit_eq)
qed

lemma sip_blocks_fold:
  "8 * k \<le> length inp \<Longrightarrow> sip_blocks k inp v = fold sip_step_spec (sip_words k inp) v"
proof (induction k inp v rule: sip_blocks.induct)
  case (2 k inp v)
  then show ?case by (simp add: U8TO64_LE_value sip_compress_spec)
qed simp

lemma sip_words_append: "8 * k \<le> length xs \<Longrightarrow> sip_words k (xs @ ys) = sip_words k xs"
  by (induction k xs rule: sip_words.induct) auto

lemma sip_words_last:
  "sip_words (k + 1) xs = sip_words k xs @ [of_nat (le_nat (take 8 (drop (8 * k) xs)))]"
  by (induction k xs rule: sip_words.induct) (auto simp: add.commute)

lemma SIP64_eq_siphash_2_4: "SIP64 bs k0 k1 = siphash_2_4 bs k0 k1"
proof -
  define k where "k = length bs div 8"
  define t where "t = drop (8 * k) bs"
  have t: "length t = length bs mod 8"
    by (simp add: t_def k_def minus_mult_div_eq_mod)
  then have t8: "length t < 8" by simp
  have k: "8 * k \<le> length bs" by (simp add: k_def)
  let ?pad = "t @ replicate (7 - length t) 0 @ [of_nat (length bs) :: u8]"
  have pad: "drop (8 * k) (sip_pad bs) = ?pad"
    using k by (simp add: sip_pad_def t flip: t_def)
  have len: "length ?pad = 8" using t8 by simp
  have "sip_tail (length bs AND 7) t (push_bit 56 (of_nat (length bs))) = U8TO64_LE ?pad"
    using sip_tail_value [OF t8, of "of_nat (length bs)"]
    by (simp only: and_7_mod_8 length_byte flip: t)
  also have "\<dots> = of_nat (le_nat (take 8 ?pad))"
    by (rule U8TO64_LE_value) (simp only: len order_refl)
  finally have tail: "sip_tail (length bs AND 7) t (push_bit 56 (of_nat (length bs)))
      = of_nat (le_nat (take 8 (drop (8 * k) (sip_pad bs))))"
    by (simp only: pad)
  have "sip_words k (sip_pad bs) = sip_words k bs"
    using k by (simp add: sip_pad_def sip_words_append)
  then have "sip_words (length bs div 8 + 1) (sip_pad bs) = sip_words k bs
      @ [sip_tail (length bs AND 7) t (push_bit 56 (of_nat (length bs)))]"
    by (simp only: sip_words_last tail flip: k_def)
  then show ?thesis
    using k
    by (simp add: SIP64_def siphash_2_4_def U64_roundtrip sip_blocks_fold
        sip_compress_spec sip_finish_spec sip_init_spec Let_def del: sip_words.simps flip: k_def t_def)
qed

end
