(* ===== verification/HashMapProperties.thy ===== *)
theory HashMapProperties
  imports HashMapCorrect HashFunctions
begin

text \<open>
  What \<^verbatim>\<open>src/hashmap.c\<close> promises its callers, for callbacks that hash and compare by a key
  (\<open>item_callbacks\<close>): new maps, lookup, insertion, removal, clearing, scanning and iterating, and
  whole runs of operations against a step relation on finite maps. The test callbacks at the end of
  the file (\<^verbatim>\<open>hash_int\<close>, \<^verbatim>\<open>compare_ints_udata\<close>, \<^verbatim>\<open>deepcount\<close>) are modelled as an instance.
\<close>

section \<open>The integer maps of the file's own test\<close>

definition compare_ints_udata :: "u32 \<Rightarrow> u32 \<Rightarrow> int result" where
  "compare_ints_udata a b =
     (let d = sint a - sint b in
      if - (2 ^ 31) \<le> d \<and> d < 2 ^ 31 then Inr d else Inl Signed_overflow)"

definition hash_int :: "u32 \<Rightarrow> u64 \<Rightarrow> u64 \<Rightarrow> u64 result" where
  "hash_int item s0 s1 = hashmap_murmur (le_bytes 4 (unat item)) s0 s1"

definition deepcount :: "'a hashmap \<Rightarrow> nat result" where
  "deepcount hm = foldl (\<lambda>c i. bindE c (\<lambda>c. bindE (bucket_at (buckets hm) i) (\<lambda>b.
      Inr (if dib b \<noteq> 0 then c + 1 else c)))) (Inr 0) [0..<nbuckets hm]"

definition int_ok :: "u32 \<Rightarrow> bool" where
  "int_ok x \<longleftrightarrow> 0 \<le> sint x"

definition int_hash :: "u64 \<Rightarrow> u64 \<Rightarrow> u32 \<Rightarrow> 48 word" where
  "int_hash s0 s1 x =
     (case hashmap_murmur (le_bytes 4 (unat x)) s0 s1 of Inl _ \<Rightarrow> 0 | Inr h \<Rightarrow> clip_hash h)"

lemma sint32_bounds: "- (2 ^ 31) \<le> sint (x::u32)" "sint (x::u32) < 2 ^ 31"
  using sint_greater_eq [of x] sint_lt [of x] by simp_all

interpretation ints: item_callbacks hash_int compare_ints_udata s0 s1 int_ok id "int_hash s0 s1"
  for s0 s1
proof
  fix x y :: u32
  show "get_hash hash_int s0 s1 x = Inr (int_hash s0 s1 x)"
    using hashmap_murmur_total [of "le_bytes 4 (unat x)" s0 s1]
    by (auto simp: get_hash_def hash_int_def int_hash_def)
  assume "int_ok x" "int_ok y"
  then have d: "compare_ints_udata x y = Inr (sint x - sint y)"
    using sint32_bounds [of x] sint32_bounds [of y]
    by (simp add: int_ok_def compare_ints_udata_def Let_def)
  then show "\<exists>c. compare_ints_udata x y = Inr c" by blast
  show "(int_hash s0 s1 x = int_hash s0 s1 y \<and> compare_ints_udata x y = Inr 0) = (id x = id y)"
    using d by (auto simp: signed_word_eqI)
qed

section \<open>Scanning and iterating\<close>

lemma ran_hashmap_map:
  "hashmap_wf ok hv key s0 s1 hm \<Longrightarrow>
   ran (hashmap_map key hm) = set (stored (take (nbuckets hm) (buckets hm)))"
  using hashmap_map_Some items_stored [OF rh_tableD(1) [OF hashmap_wfD(6)]]
  by (fastforce simp: ran_def)

lemma distinct_items:
  assumes "hashmap_wf ok hv key s0 s1 hm"
  shows "distinct (stored (take (nbuckets hm) (buckets hm)))"
  using distinct_stored [OF hashmap_wfD(6) [OF assms]] by (simp add: distinct_map)

text \<open>A scan over a list of items, stopping when the callback says so.\<close>

fun scan_items :: "('a \<Rightarrow> 'u \<Rightarrow> bool \<times> 'u) \<Rightarrow> 'a list \<Rightarrow> 'u \<Rightarrow> bool \<times> 'u" where
  "scan_items iter [] u = (True, u)"
| "scan_items iter (x # xs) u =
     (let (go, u') = iter x u in if go then scan_items iter xs u' else (False, u'))"

lemma scan_loop_items: "scan_loop iter bs u = scan_items iter (stored bs) u"
  by (induction bs arbitrary: u) (auto split: prod.split)

lemma scan_correct:
  assumes "hashmap_wf ok hv key s0 s1 hm"
  shows "\<exists>xs. distinct xs \<and> set xs = ran (hashmap_map key hm) \<and>
           (\<forall>iter u. hashmap_scan hm iter u = scan_items iter xs (u::'u))"
  using ran_hashmap_map [OF assms] distinct_items [OF assms]
  by (auto simp: hashmap_scan_def scan_loop_items)

text \<open>The loop \<^verbatim>\<open>while (hashmap_iter(map, &iter, &item))\<close>, collecting the items.\<close>

fun iterate :: "nat \<Rightarrow> 'a hashmap \<Rightarrow> nat \<Rightarrow> 'a list result" where
  "iterate 0 hm i = Inl No_return"
| "iterate (Suc fuel) hm i =
     bindE (hashmap_iter hm i) (\<lambda>(i', r).
       case r of None \<Rightarrow> Inr []
       | Some x \<Rightarrow> bindE (iterate fuel hm i') (\<lambda>xs. Inr (x # xs)))"

lemma iter_loop_stored:
  assumes "n \<le> length bs" and "i \<le> n"
  shows "case stored (take (n - i) (drop i bs)) of
           [] \<Rightarrow> iter_loop n bs i = Inr (n, None)
         | x # xs \<Rightarrow> \<exists>j. i \<le> j \<and> j < n \<and> iter_loop n bs i = Inr (j + 1, Some x) \<and>
                        stored (take (n - (j + 1)) (drop (j + 1) bs)) = xs"
  using assms
proof (induction "n - i" arbitrary: i)
  case 0
  then show ?case by (simp add: iter_loop.simps)
next
  case (Suc d)
  then have i: "i < n" "i < length bs" by auto
  have d: "drop i bs = bs ! i # drop (Suc i) bs" using i by (simp add: Cons_nth_drop_Suc)
  have t: "take (n - i) (drop i bs) = bs ! i # take (n - Suc i) (drop (Suc i) bs)"
    using i by (simp add: d take_Cons' Suc_diff_Suc)
  have "d = n - Suc i" using Suc.hyps(2) by simp
  note IH = Suc.hyps(1) [OF this Suc.prems(1) Suc_leI [OF i(1)]]
  show ?case
  proof (cases "dib (bs ! i) = 0")
    case True
    then have "iter_loop n bs i = iter_loop n bs (Suc i)"
      using i by (subst iter_loop.simps) (simp add: bucket_at_def)
    then show ?thesis
      using IH True by (auto simp: t split: list.splits intro: Suc_leD)
  next
    case False
    then show ?thesis
      using i by (subst iter_loop.simps) (auto simp: t bucket_at_def)
  qed
qed

lemma iterate_stored:
  assumes "nbuckets hm \<le> length (buckets hm)" and "i \<le> nbuckets hm" and "nbuckets hm - i < fuel"
  shows "iterate fuel hm i = Inr (stored (take (nbuckets hm - i) (drop i (buckets hm))))"
  using assms
proof (induction fuel arbitrary: i)
  case 0
  then show ?case by simp
next
  case (Suc fuel)
  let ?xs = "stored (take (nbuckets hm - i) (drop i (buckets hm)))"
  note L = iter_loop_stored [OF Suc.prems(1,2)]
  show ?case
  proof (cases ?xs)
    case Nil
    then show ?thesis using L by (simp add: hashmap_iter_def)
  next
    case (Cons x xs)
    then obtain j where j: "i \<le> j" "j < nbuckets hm"
      "iter_loop (nbuckets hm) (buckets hm) i = Inr (j + 1, Some x)"
      "stored (take (nbuckets hm - (j + 1)) (drop (j + 1) (buckets hm))) = xs"
      using L by auto
    moreover have "iterate fuel hm (j + 1) = Inr xs"
      using Suc.IH [of "j + 1"] Suc.prems j by simp
    ultimately show ?thesis using Cons by (simp add: hashmap_iter_def)
  qed
qed

lemma iterate_correct:
  assumes "hashmap_wf ok hv key s0 s1 hm"
  shows "\<exists>xs. iterate (nbuckets hm + 1) hm 0 = Inr xs \<and> distinct xs \<and> set xs = ran (hashmap_map key hm)"
  using iterate_stored [OF rh_tableD(1) [OF hashmap_wfD(6) [OF assms]], of 0 "nbuckets hm + 1"]
    ran_hashmap_map [OF assms] distinct_items [OF assms] by simp

lemma deepcount_loop:
  "n \<le> length bs \<Longrightarrow>
   foldl (\<lambda>c i. bindE c (\<lambda>c. bindE (bucket_at bs i) (\<lambda>b. Inr (if dib b \<noteq> 0 then c + 1 else c))))
     (Inr 0) [0..<n] = Inr (card (occupied n bs))"
proof (induction n)
  case 0
  then show ?case by (simp add: occupied_def)
next
  case (Suc n)
  have "occupied (Suc n) bs = (if dib (bs ! n) \<noteq> 0 then insert n (occupied n bs) else occupied n bs)"
    by (auto simp: occupied_def less_Suc_eq)
  moreover have "n \<notin> occupied n bs" "finite (occupied n bs)" by (auto simp: occupied_def)
  ultimately show ?case using Suc by (simp add: bucket_at_def)
qed

section \<open>New and cleared maps\<close>

lemma double_ncap_overflow: "a \<le> 30 \<Longrightarrow> 2 ^ 30 < c \<Longrightarrow> double_ncap (2 ^ a) c = Inl Signed_overflow"
proof (induction "30 - a" arbitrary: a)
  case 0
  then show ?case by (simp add: double_ncap.simps)
next
  case (Suc d)
  then have "double_ncap (2 ^ Suc a) c = Inl Signed_overflow" by (intro Suc.hyps) auto
  moreover have "(2::nat) ^ a \<le> 2 ^ 30" using Suc.prems by (intro power_increasing) auto
  ultimately show ?case using Suc.prems by (subst double_ncap.simps) auto
qed

lemma ceiling_power:
  assumes "16 \<le> c" "c \<le> 2 ^ 30"
  shows "\<exists>k. 4 \<le> k \<and> k \<le> 30 \<and> double_ncap 16 c = Inr (2 ^ k) \<and> c \<le> 2 ^ k"
proof -
  have "\<exists>k\<ge>a. k \<le> 30 \<and> double_ncap (2 ^ a) c = Inr (2 ^ k) \<and> c \<le> 2 ^ k" if "a \<le> 30" for a
    using that
  proof (induction "30 - a" arbitrary: a)
    case 0
    then show ?case using assms by (intro exI [of _ 30]) (simp add: double_ncap.simps)
  next
    case (Suc d)
    then have d: "d = 30 - Suc a" and a: "Suc a \<le> 30" by simp_all
    then have "(2::nat) ^ Suc a < 2 ^ 31" by (intro power_strict_increasing) auto
    moreover obtain k where "Suc a \<le> k" "k \<le> 30" "double_ncap (2 ^ Suc a) c = Inr (2 ^ k)" "c \<le> 2 ^ k"
      using Suc.hyps(1) [of "Suc a"] d a by blast
    ultimately show ?case
      by (cases "c \<le> 2 ^ a"; subst double_ncap.simps) (use Suc.prems in \<open>auto intro: exI [of _ a] exI [of _ k]\<close>)
  qed
  from this [of 4] show ?thesis by simp
qed

lemma new_map_wf:
  fixes ok :: "'a::zero \<Rightarrow> bool" and s0 s1 :: u64
  assumes "4 \<le> k"
  defines "hm \<equiv> \<lparr>oom = False, cap = 2 ^ k, seed0 = s0, seed1 = s1, nbuckets = 2 ^ k,
      map_count = 0, map_mask = 2 ^ k - 1, growat = 2 ^ k * 3 div 4, shrinkat = 2 ^ k div 10,
      buckets = replicate (2 ^ k) zero_bucket\<rparr>"
  shows "hashmap_wf ok hv key s0 s1 hm" and "hashmap_map key hm = Map.empty"
proof -
  have "mask_of (2 ^ k) (2 ^ k - 1)" unfolding mask_of_def using assms by blast
  then show W: "hashmap_wf ok hv key s0 s1 hm"
    using assms by (auto simp: hashmap_wf_def replicate_zero simp del: One_nat_def)
  show "hashmap_map key hm = Map.empty"
    by (rule ext) (simp only: hashmap_map_None [OF W], simp add: hm_def replicate_zero)
qed

lemma new_correct:
  assumes "c \<le> 2 ^ 30"
  shows "\<exists>hm. hashmap_new (True, True) c s0 s1 = Inr (Some hm) \<and> hashmap_wf ok hv key s0 s1 hm \<and>
          hashmap_map key hm = Map.empty \<and> c \<le> nbuckets hm"
proof -
  have "\<exists>k. 4 \<le> k \<and> (if c < 16 then Inr 16 else double_ncap 16 c) = Inr (2 ^ k) \<and> c \<le> 2 ^ k"
  proof (cases "c < 16")
    case True
    then show ?thesis by (intro exI [of _ 4]) simp
  next
    case False
    then show ?thesis using ceiling_power [of c] assms by auto
  qed
  then obtain k where k: "4 \<le> k" "(if c < 16 then Inr 16 else double_ncap 16 c) = Inr (2 ^ k)" "c \<le> 2 ^ k"
    by blast
  show ?thesis
    using new_map_wf [OF k(1)] k(2,3)
    by (auto simp: hashmap_new_def hashmap_new_with_allocator_def simp del: One_nat_def)
qed

lemma clear_correct:
  assumes W: "hashmap_wf ok hv key s0 s1 hm"
  shows "hashmap_wf ok hv key s0 s1 (hashmap_clear alloc hm update_cap)" (is ?wf)
    and "hashmap_map key (hashmap_clear alloc hm update_cap) = Map.empty" (is ?emp)
    and "nbuckets (hashmap_clear alloc hm update_cap) = (if update_cap then nbuckets hm else cap hm)"
proof -
  obtain k where k: "4 \<le> k" "nbuckets hm = 2 ^ k"
    using hashmap_wfD(1) [OF W] by (auto simp: mask_of_def)
  obtain j where j: "4 \<le> j" "cap hm = 2 ^ j" using W by (auto simp: hashmap_wf_def)
  have m: "mask_of (2 ^ i) (2 ^ i - 1)" if "4 \<le> i" for i unfolding mask_of_def using that by blast
  have p: "0 < nbuckets hm" "0 < cap hm" using k j by simp_all
  show W': ?wf
    using W m [OF k(1)] m [OF j(1)] k j p
    by (auto simp: hashmap_wf_def hashmap_clear_def Let_def rh_table_zero simp del: One_nat_def)
  show ?emp
    by (rule ext, subst hashmap_map_None [OF W']) (simp add: hashmap_clear_def Let_def)
  show "nbuckets (hashmap_clear alloc hm update_cap) = (if update_cap then nbuckets hm else cap hm)"
    by (simp add: hashmap_clear_def Let_def)
qed

lemma probe_correct:
  assumes W: "hashmap_wf ok hv key s0 s1 hm"
  shows "\<exists>r. hashmap_probe hm position = Inr r \<and> set_option r \<subseteq> ran (hashmap_map key hm)"
proof -
  let ?i = "unat position AND map_mask hm"
  have i: "?i < nbuckets hm" using hashmap_wfD(1) [OF W] mask_of_ge_2 mask_of_mod by fastforce
  then have l: "?i < length (buckets hm)" using rh_tableD(1) [OF hashmap_wfD(6) [OF W]] by simp
  have "b_item (buckets hm ! ?i) \<in> ran (hashmap_map key hm)" if "dib (buckets hm ! ?i) \<noteq> 0"
    using itemsI [OF i that] hashmap_map_Some [OF W] by (auto simp: ran_def)
  then show ?thesis using l by (auto simp: hashmap_probe_def bucket_at_def)
qed

section \<open>Runs of operations\<close>

datatype 'a map_op = Map_set "bool \<times> bool" 'a | Map_get 'a | Map_delete "bool \<times> bool" 'a

fun op_item :: "'a map_op \<Rightarrow> 'a" where
  "op_item (Map_set a x) = x"
| "op_item (Map_get x) = x"
| "op_item (Map_delete a x) = x"

fun run_op :: "'a hash_fun \<Rightarrow> 'a compare_fun \<Rightarrow> 'a::zero hashmap \<Rightarrow> 'a map_op \<Rightarrow>
    ('a hashmap \<times> 'a option) result" where
  "run_op hash compare hm (Map_set a x) = hashmap_set hash compare a hm x"
| "run_op hash compare hm (Map_get x) = bindE (hashmap_get hash compare hm x) (\<lambda>r. Inr (hm, r))"
| "run_op hash compare hm (Map_delete a x) = hashmap_delete hash compare a hm x"

fun run_ops :: "'a hash_fun \<Rightarrow> 'a compare_fun \<Rightarrow> 'a::zero hashmap \<Rightarrow> 'a map_op list \<Rightarrow>
    ('a hashmap \<times> 'a option list) result" where
  "run_ops hash compare hm [] = Inr (hm, [])"
| "run_ops hash compare hm (op # ops) =
     bindE (run_op hash compare hm op) (\<lambda>(hm, out).
     bindE (run_ops hash compare hm ops) (\<lambda>(hm, outs). Inr (hm, out # outs)))"

text \<open>The specification: a finite map; an insertion may fail when an allocation does.\<close>

inductive map_step :: "('a \<Rightarrow> 'k) \<Rightarrow> ('k \<Rightarrow> 'a option) \<Rightarrow> 'a map_op \<Rightarrow> 'a option \<Rightarrow>
    ('k \<Rightarrow> 'a option) \<Rightarrow> bool" for key where
  step_set: "map_step key M (Map_set a x) (M (key x)) (M(key x \<mapsto> x))"
| step_oom: "\<not> (fst a \<and> snd a) \<Longrightarrow> map_step key M (Map_set a x) None M"
| step_get: "map_step key M (Map_get x) (M (key x)) M"
| step_delete: "map_step key M (Map_delete a x) (M (key x)) (M(key x := None))"

inductive_cases map_step_setE: "map_step key M (Map_set a x) out M'"
inductive_simps map_step_get [simp]: "map_step key M (Map_get x) out M'"
inductive_simps map_step_delete [simp]: "map_step key M (Map_delete a x) out M'"

inductive map_steps :: "('a \<Rightarrow> 'k) \<Rightarrow> ('k \<Rightarrow> 'a option) \<Rightarrow> 'a map_op list \<Rightarrow> 'a option list \<Rightarrow>
    ('k \<Rightarrow> 'a option) \<Rightarrow> bool" for key where
  steps_Nil: "map_steps key M [] [] M"
| steps_Cons: "map_step key M op out M' \<Longrightarrow> map_steps key M' ops outs M'' \<Longrightarrow>
    map_steps key M (op # ops) (out # outs) M''"

inductive_simps map_steps_Nil [simp]: "map_steps key M [] outs M'"
inductive_simps map_steps_Cons [simp]: "map_steps key M (op # ops) outs M'"

lemma map_step_finite: "map_step key M op out M' \<Longrightarrow> finite (dom M) \<Longrightarrow>
    finite (dom M') \<and> card (dom M') \<le> card (dom M) + 1"
  by (induction rule: map_step.induct) (auto simp: card_insert_if intro: le_SucI card_Diff1_le)

lemma map_count_dom:
  assumes "hashmap_wf ok hv key s0 s1 hm"
  shows "finite (dom (hashmap_map key hm))" and "map_count hm = card (dom (hashmap_map key hm))"
proof -
  have "dom (hashmap_map key hm) \<subseteq> key ` items (nbuckets hm) (buckets hm)"
    using hashmap_map_None [OF assms] by (auto simp: dom_def)
  then show "finite (dom (hashmap_map key hm))"
    by (rule finite_subset) (simp add: items_def occupied_def)
  show "map_count hm = card (dom (hashmap_map key hm))"
    using hashmap_count_card [OF assms] by (simp add: hashmap_count_def)
qed

context item_callbacks
begin

lemma run_op_correct:
  assumes W: "hashmap_wf ok hv key s0 s1 hm" and ok: "ok (op_item op)" and small: "hashmap_small hm"
  shows "\<exists>hm' out. run_op hash compare hm op = Inr (hm', out) \<and> hashmap_wf ok hv key s0 s1 hm' \<and>
           nbuckets hm' \<le> 2 ^ 29 \<and> map_step key (hashmap_map key hm) op out (hashmap_map key hm')"
proof (cases op)
  case (Map_set a x)
  then show ?thesis
    using set_correct [OF W _ small, of x a] ok by (auto intro: map_step.intros)
next
  case (Map_get x)
  then show ?thesis
    using get_correct [OF W, of x] ok W small by (auto simp: hashmap_small_def)
next
  case (Map_delete a x)
  then show ?thesis
    using delete_correct [OF W _ small, of x a] ok by auto
qed

lemma run_ops_correct:
  assumes "hashmap_wf ok hv key s0 s1 hm" and "\<forall>op\<in>set ops. ok (op_item op)"
    and "nbuckets hm \<le> 2 ^ 29" and "map_count hm + length ops < 65534"
  shows "\<exists>hm' outs. run_ops hash compare hm ops = Inr (hm', outs) \<and> hashmap_wf ok hv key s0 s1 hm' \<and>
           map_steps key (hashmap_map key hm) ops outs (hashmap_map key hm')"
  using assms
proof (induction ops arbitrary: hm)
  case Nil
  then show ?case by (auto intro: map_steps.intros)
next
  case (Cons op ops)
  have small: "hashmap_small hm" using Cons.prems by (simp add: hashmap_small_def)
  obtain hm1 out where s: "run_op hash compare hm op = Inr (hm1, out)" "hashmap_wf ok hv key s0 s1 hm1"
    "nbuckets hm1 \<le> 2 ^ 29" "map_step key (hashmap_map key hm) op out (hashmap_map key hm1)"
    using run_op_correct [OF Cons.prems(1) _ small, of op] Cons.prems(2) by auto
  have "map_count hm1 \<le> map_count hm + 1"
    using map_step_finite [OF s(4)] map_count_dom [OF Cons.prems(1)] map_count_dom [OF s(2)] by simp
  then obtain hm' outs where "run_ops hash compare hm1 ops = Inr (hm', outs)"
    "hashmap_wf ok hv key s0 s1 hm'" "map_steps key (hashmap_map key hm1) ops outs (hashmap_map key hm')"
    using Cons.IH [OF s(2)] Cons.prems(2,4) s(3) by auto
  then show ?case using s by (auto intro: map_steps.intros)
qed

end

section \<open>Properties\<close>

text \<open>An integer map with one item, for the witnesses.\<close>

lemma new_int_map:
  "\<exists>hm::u32 hashmap. hashmap_wf int_ok (int_hash 1 2) id 1 2 hm \<and> hashmap_small hm \<and>
     hashmap_map id hm = Map.empty"
  using hashmap_new_0 [of 1 2 int_ok "int_hash 1 2" id] by auto

lemma one_int_map:
  "\<exists>hm. hashmap_wf int_ok (int_hash 1 2) id 1 2 hm \<and> hashmap_small hm \<and> hashmap_map id hm = [7 \<mapsto> 7]"
proof -
  obtain hm0 :: "u32 hashmap" where hm0: "hashmap_wf int_ok (int_hash 1 2) id 1 2 hm0"
    "hashmap_small hm0" "hashmap_map id hm0 = Map.empty"
    using new_int_map by blast
  have "int_ok 7" by (simp add: int_ok_def)
  then obtain hm where hm: "hashmap_wf int_ok (int_hash 1 2) id 1 2 hm"
      "nbuckets hm \<le> 2 ^ 29" "hashmap_map id hm = [7 \<mapsto> 7]"
    using ints.set_correct [OF hm0(1) _ hm0(2), of 7 "(True, True)"] hm0(3) by auto
  then have "map_count hm = 1" using map_count_dom [OF hm(1)] by simp
  then show ?thesis using hm by (auto simp: hashmap_small_def)
qed

text \<open>C11. \<open>hashmap_get\<close> returns the item stored under the key of its argument, and NULL when there is
  none; it terminates and stays within the buckets.\<close>

theorem hashmap_get_lookup:
  assumes "item_callbacks hash compare s0 s1 ok key hv" and "hashmap_wf ok hv key s0 s1 hm" and "ok x"
  shows "hashmap_get hash compare hm x = Inr (hashmap_map key hm (key x))"
  by (rule item_callbacks.get_correct [OF assms])

theorem hashmap_get_lookup_witness:
  "\<exists>hm. hashmap_map id hm = [7 \<mapsto> 7] \<and> hashmap_get hash_int compare_ints_udata hm 7 = Inr (Some 7) \<and>
        hashmap_get hash_int compare_ints_udata hm 8 = Inr None"
proof -
  obtain hm where hm: "hashmap_wf int_ok (int_hash 1 2) id 1 2 hm" "hashmap_map id hm = [7 \<mapsto> 7]"
    using one_int_map by blast
  have "int_ok 7" "int_ok 8" by (simp_all add: int_ok_def)
  then show ?thesis
    using hashmap_get_lookup [OF ints.item_callbacks_axioms hm(1), of 7]
      hashmap_get_lookup [OF ints.item_callbacks_axioms hm(1), of 8] hm(2) by auto
qed

text \<open>C9. \<open>hashmap_set\<close> stores the item under its key and returns the item it replaces. Only when the
  map is full and an allocation fails does it set \<open>oom\<close>, return NULL and leave the map as it was.\<close>

theorem hashmap_set_update:
  assumes "item_callbacks hash compare s0 s1 ok key hv" and "hashmap_wf ok hv key s0 s1 hm"
    and "ok x" and "hashmap_small hm"
  shows "\<exists>hm' old. hashmap_set hash compare allocs hm x = Inr (hm', old) \<and>
           hashmap_wf ok hv key s0 s1 hm' \<and>
           hashmap_oom hm' = (map_count hm = growat hm \<and> \<not> (fst allocs \<and> snd allocs)) \<and>
           old = (if hashmap_oom hm' then None else hashmap_map key hm (key x)) \<and>
           hashmap_map key hm' =
             (if hashmap_oom hm' then hashmap_map key hm else (hashmap_map key hm)(key x \<mapsto> x))"
  using item_callbacks.set_correct [OF assms, of allocs] unfolding hashmap_oom_def
  by (elim exE conjE) (intro exI conjI; assumption)

theorem hashmap_set_update_witness:
  "\<exists>hm hm' old. hashmap_map id hm = [7 \<mapsto> 7] \<and>
     hashmap_set hash_int compare_ints_udata (True, True) hm 9 = Inr (hm', old) \<and>
     hashmap_map id hm' = [7 \<mapsto> 7, 9 \<mapsto> 9] \<and> old = None"
proof -
  obtain hm where hm: "hashmap_wf int_ok (int_hash 1 2) id 1 2 hm" "hashmap_small hm"
    "hashmap_map id hm = [7 \<mapsto> 7]"
    using one_int_map by blast
  have "int_ok 9" by (simp add: int_ok_def)
  then show ?thesis
    using hashmap_set_update [OF ints.item_callbacks_axioms hm(1) _ hm(2), of 9 "(True, True)"] hm(3)
    by - (rule exI [of _ hm], auto)
qed

text \<open>C10. \<open>hashmap_delete\<close> removes the key, returns the item stored under it (NULL when there is none)
  and leaves every other key alone, whether or not it shrinks the table.\<close>

theorem hashmap_delete_remove:
  assumes "item_callbacks hash compare s0 s1 ok key hv" and "hashmap_wf ok hv key s0 s1 hm"
    and "ok x" and "hashmap_small hm"
  shows "\<exists>hm'. hashmap_delete hash compare allocs hm x = Inr (hm', hashmap_map key hm (key x)) \<and>
           hashmap_wf ok hv key s0 s1 hm' \<and> hashmap_map key hm' = (hashmap_map key hm)(key x := None)"
  using item_callbacks.delete_correct [OF assms, of allocs] by auto

theorem hashmap_delete_remove_witness:
  "\<exists>hm hm'. hashmap_map id hm = [7 \<mapsto> 7] \<and>
     hashmap_delete hash_int compare_ints_udata (True, True) hm 7 = Inr (hm', Some 7) \<and>
     hashmap_map id hm' = Map.empty"
proof -
  obtain hm where hm: "hashmap_wf int_ok (int_hash 1 2) id 1 2 hm" "hashmap_small hm"
    "hashmap_map id hm = [7 \<mapsto> 7]"
    using one_int_map by blast
  have "int_ok 7" by (simp add: int_ok_def)
  then show ?thesis
    using hashmap_delete_remove [OF ints.item_callbacks_axioms hm(1) _ hm(2), of 7 "(True, True)"] hm(3)
    by - (rule exI [of _ hm], auto)
qed

text \<open>C8. Every run of fewer than 65534 insertions, lookups and removals on a new map returns what a
  finite map returns for the same operations, whatever allocations fail on the way: no probe loop
  runs forever, no access leaves the buckets, and the 16-bit probe distance does not overflow.\<close>

theorem hashmap_runs_refine_maps:
  assumes "item_callbacks hash compare s0 s1 ok key hv" and "\<forall>op\<in>set ops. ok (op_item op)"
    and "length ops < 65534"
  shows "\<exists>hm0 hm outs. hashmap_new (True, True) 0 s0 s1 = Inr (Some hm0) \<and>
           run_ops hash compare hm0 ops = Inr (hm, outs) \<and> hashmap_wf ok hv key s0 s1 hm \<and>
           map_steps key Map.empty ops outs (hashmap_map key hm)"
proof -
  obtain hm0 where hm0: "hashmap_new (True, True) 0 s0 s1 = Inr (Some hm0)"
    "hashmap_wf ok hv key s0 s1 hm0" "hashmap_small hm0" "hashmap_map key hm0 = Map.empty"
    using hashmap_new_0 by blast
  then have "map_count hm0 = 0" using map_count_dom [OF hm0(2)] by simp
  then show ?thesis
    using item_callbacks.run_ops_correct [OF assms(1) hm0(2) assms(2)] hm0 assms(3)
    by (auto simp: hashmap_small_def)
qed

theorem hashmap_runs_refine_maps_witness:
  "\<exists>hm0 hm outs. hashmap_new (True, True) 0 1 2 = Inr (Some hm0) \<and>
     run_ops hash_int compare_ints_udata hm0
       [Map_set (True, True) 7, Map_get 7, Map_delete (False, False) 7, Map_get 7] = Inr (hm, outs) \<and>
     outs = [None, Some 7, Some 7, None]"
proof -
  let ?ops = "[Map_set (True, True) 7, Map_get 7, Map_delete (False, False) 7, Map_get 7]"
  have ok: "\<forall>op\<in>set ?ops. int_ok (op_item op)" by (simp add: int_ok_def)
  have len: "length ?ops < 65534" by simp
  obtain hm0 hm outs where r: "hashmap_new (True, True) 0 1 2 = Inr (Some hm0)"
    "run_ops hash_int compare_ints_udata hm0 ?ops = Inr (hm, outs)"
    "map_steps id Map.empty ?ops outs (hashmap_map id hm)"
    using hashmap_runs_refine_maps [OF ints.item_callbacks_axioms [of 1 2] ok len] by blast
  have "outs = [None, Some 7, Some 7, None]"
    using r(3) by (auto elim!: map_step_setE)
  then show ?thesis using r(1,2) by blast
qed

text \<open>C16. A new map is empty and satisfies the invariant for every requested capacity up to \<open>2 ^ 30\<close>;
  beyond that, doubling the C \<open>int\<close> capacity overflows. A failed allocation gives NULL.\<close>

theorem hashmap_new_cases:
  "if c \<le> 2 ^ 30
   then (\<exists>hm. hashmap_new (True, True) c s0 s1 = Inr (Some hm) \<and> hashmap_wf ok hv key s0 s1 hm \<and>
              hashmap_map key hm = Map.empty \<and> c \<le> nbuckets hm) \<and>
        hashmap_new (False, a) c s0 s1 = Inr (None :: 'a::zero hashmap option) \<and>
        hashmap_new (a, False) c s0 s1 = Inr (None :: 'a hashmap option)
   else hashmap_new allocs c s0 s1 = (Inl Signed_overflow :: 'a hashmap option result)"
proof (cases "c \<le> 2 ^ 30")
  case True
  have "\<exists>k. (if c < 16 then Inr 16 else double_ncap 16 c) = Inr k"
    using ceiling_power [of c] True by (cases "c < 16") auto
  then show ?thesis
    using new_correct [OF True, of s0 s1 ok hv key] True
    by (auto simp: hashmap_new_def hashmap_new_with_allocator_def)
next
  case False
  then show ?thesis
    using double_ncap_overflow [of 4 c] by (simp add: hashmap_new_def hashmap_new_with_allocator_def)
qed

text \<open>\<open>hashmap_clear\<close> leaves an empty map that satisfies the invariant in all its cases: keeping the
  buckets, going back to the first capacity, and failing to allocate for that.\<close>

theorem hashmap_clear_empties:
  assumes "hashmap_wf ok hv key s0 s1 hm"
  shows "hashmap_wf ok hv key s0 s1 (hashmap_clear alloc hm update_cap) \<and>
         hashmap_map key (hashmap_clear alloc hm update_cap) = Map.empty \<and>
         hashmap_count (hashmap_clear alloc hm update_cap) = 0"
  using clear_correct [OF assms] by (simp add: hashmap_count_def hashmap_clear_def Let_def)

text \<open>Freeing or clearing a table hands every item in it to the callback once, in slot order, until one of these calls
  faults; without a callback nothing happens to the items.\<close>

fun each_item :: "('a \<Rightarrow> 's \<Rightarrow> 's result) \<Rightarrow> 'a list \<Rightarrow> 's \<Rightarrow> 's result" where
  "each_item f [] s = Inr s"
| "each_item f (x # xs) s = bindE (f x s) (each_item f xs)"

lemma free_loop_stored:
  "i + n \<le> length bs \<Longrightarrow> free_loop f bs i n s = each_item f (stored (take n (drop i bs))) s"
proof (induction n arbitrary: i s)
  case (Suc n)
  then have "take (Suc n) (drop i bs) = bs ! i # take n (drop (i + 1) bs)" by (simp add: Cons_nth_drop_Suc [symmetric])
  then show ?case using Suc by (auto simp: bucket_at_def intro!: bindE_cong)
qed simp

theorem hashmap_free_each_item_once:
  assumes "hashmap_wf ok hv key s0 s1 hm"
  shows "\<exists>xs. distinct xs \<and> set xs = ran (hashmap_map key hm) \<and>
    (\<forall>f s. hashmap_free (Some f) (Some hm) s = each_item f xs (s::'s)) \<and>
    (\<forall>f s alloc u. hashmap_clear_freeing (Some f) alloc hm u (s::'s) =
       bindE (each_item f xs s) (\<lambda>s. Inr (hashmap_clear alloc hm u, s)))"
proof -
  let ?xs = "stored (take (nbuckets hm) (buckets hm))"
  have "nbuckets hm \<le> length (buckets hm)" using rh_tableD(1) [OF hashmap_wfD(6) [OF assms]] by simp
  then have "free_elements (Some f) (hm\<lparr>map_count := k\<rparr>) s = each_item f ?xs s"
    "free_elements (Some f) hm s = each_item f ?xs s" for f k and s :: 's
    by (simp_all add: free_elements_def free_loop_stored)
  then show ?thesis
    using ran_hashmap_map [OF assms] distinct_items [OF assms]
    by (intro exI [of _ ?xs]) (simp add: hashmap_free_def hashmap_clear_freeing_def)
qed

theorem hashmap_clear_empties_witness:
  "\<exists>hm. hashmap_map id hm = [7 \<mapsto> (7::u32)] \<and> hashmap_map id (hashmap_clear False hm False) = Map.empty"
  using one_int_map hashmap_clear_empties by metis

text \<open>C15. \<open>hashmap_scan\<close> calls the callback on every item of the map once, in slot order, until it
  returns false, and the \<open>hashmap_iter\<close> loop yields the same items in the same order.\<close>

theorem hashmap_scan_and_iter:
  assumes "hashmap_wf ok hv key s0 s1 hm"
  shows "\<exists>xs. distinct xs \<and> set xs = ran (hashmap_map key hm) \<and>
           (\<forall>iter u. hashmap_scan hm iter u = scan_items iter xs (u::'u)) \<and>
           iterate (nbuckets hm + 1) hm 0 = Inr xs"
  using iterate_stored [OF rh_tableD(1) [OF hashmap_wfD(6) [OF assms]], of 0 "nbuckets hm + 1"]
    ran_hashmap_map [OF assms] distinct_items [OF assms]
  by (simp add: hashmap_scan_def scan_loop_items)

theorem hashmap_scan_and_iter_witness:
  "\<exists>hm. hashmap_map id hm = [7 \<mapsto> (7::u32)] \<and> iterate (nbuckets hm + 1) hm 0 = Inr [7]"
proof -
  obtain hm where hm: "hashmap_wf int_ok (int_hash 1 2) id 1 2 hm" "hashmap_map id hm = [7 \<mapsto> 7]"
    using one_int_map by blast
  then obtain xs where "distinct xs" "set xs = {7}" "iterate (nbuckets hm + 1) hm 0 = Inr xs"
    using hashmap_scan_and_iter [OF hm(1)] by auto
  moreover from this(1,2) have "xs = [7]" by (cases xs; cases "tl xs") auto
  ultimately show ?thesis using hm(2) by blast
qed

text \<open>The counter, the number of occupied buckets (the test's \<open>deepcount\<close>) and the number of keys
  agree, and \<open>hashmap_probe\<close> returns nothing or an item of the map for every position.\<close>

theorem hashmap_count_deepcount:
  assumes "hashmap_wf ok hv key s0 s1 hm"
  shows "deepcount hm = Inr (hashmap_count hm) \<and> hashmap_count hm = card (dom (hashmap_map key hm)) \<and>
         (\<exists>r. hashmap_probe hm position = Inr r \<and> set_option r \<subseteq> ran (hashmap_map key hm))"
  using deepcount_loop [OF rh_tableD(1) [OF hashmap_wfD(6) [OF assms]]] hashmap_wfD(7) [OF assms]
    hashmap_count_card [OF assms] probe_correct [OF assms, of position]
  by (simp add: deepcount_def hashmap_count_def)

theorem hashmap_count_deepcount_witness:
  "\<exists>hm. hashmap_map id hm = [7 \<mapsto> (7::u32)] \<and> deepcount hm = Inr 1 \<and>
        (\<exists>r. hashmap_probe hm 3 = Inr r)"
proof -
  obtain hm where hm: "hashmap_wf int_ok (int_hash 1 2) id 1 2 hm" "hashmap_map id hm = [7 \<mapsto> 7]"
    using one_int_map by blast
  then show ?thesis using hashmap_count_deepcount [OF hm(1), of 3] by auto
qed

end
