(* ===== verification/HashVectors.thy ===== *)
theory HashVectors
  imports HashFunctions
begin

text \<open>
  The hash functions of \<^verbatim>\<open>src/hashmap.c\<close> against their references: SipHash-2-4 against its published
  definition for all messages, and both functions on the test vectors that the file's own test
  asserts.
\<close>

text \<open>C14. \<open>hashmap_sip\<close> is SipHash-2-4 of the data under the two seeds, for data of every length.\<close>

theorem hashmap_sip_is_siphash:
  "hashmap_sip data seed0 seed1 = siphash_2_4 data seed0 seed1"
  by (simp add: hashmap_sip_def SIP64_eq_siphash_2_4)

text \<open>The bytes of \<^verbatim>\<open>"hello"\<close>.\<close>

definition hello :: "u8 list" where
  "hello = [0x68, 0x65, 0x6c, 0x6c, 0x6f]"

lemma sip_hello: "hashmap_sip hello 1 2 = 2957200328589801622"
  by code_simp

lemma murmur_hello: "hashmap_murmur hello 1 2 = Inr 1682575153221130884"
  by code_simp

text \<open>Both hash functions give the values that the test of the file asserts for "hello" and the
  seeds 1 and 2.\<close>

theorem hash_test_vectors:
  "hashmap_sip hello 1 2 = 2957200328589801622 \<and> hashmap_murmur hello 1 2 = Inr 1682575153221130884"
  by (simp only: sip_hello murmur_hello HOL.simp_thms)

end
