(* ===== verification/Memory.thy ===== *)
theory Memory
  imports Prelude
begin

text \<open>
  The C memory the program's byte-level objects live in: the entry buffer of
  \<^verbatim>\<open>memory_queue.c\<close> and the key headers \<^verbatim>\<open>connection.c\<close> allocates. A pointer is NULL or a
  block and a byte offset; every block comes from one successful \<^verbatim>\<open>malloc\<close>, has a size and is
  live until it is freed. Loads and stores outside a live block are faults, as is freeing
  anything but the start of a live block. The bytes of a block that was never written are
  whatever the memory's byte function says there, so nothing is assumed of fresh memory.
\<close>

section \<open>Pointers and blocks\<close>

datatype ptr = Null | Ptr nat nat

record memory =
  next_block :: nat
  block_size :: "nat \<rightharpoonup> nat"
  bytes :: "nat \<Rightarrow> nat \<Rightarrow> u8"

text \<open>The all-zero bit pattern of a pointer is NULL.\<close>

instantiation ptr :: zero
begin

definition zero_ptr :: ptr where
  "zero_ptr = Null"

instance ..

end

fun ptr_add :: "ptr \<Rightarrow> nat \<Rightarrow> ptr" where
  "ptr_add Null k = Null"
| "ptr_add (Ptr b i) k = Ptr b (i + k)"

fun in_bounds :: "memory \<Rightarrow> ptr \<Rightarrow> nat \<Rightarrow> bool" where
  "in_bounds m Null n = False"
| "in_bounds m (Ptr b i) n = (case block_size m b of None \<Rightarrow> False | Some s \<Rightarrow> i + n \<le> s)"

fun access_fault :: "ptr \<Rightarrow> fault" where
  "access_fault Null = Null_deref"
| "access_fault (Ptr b i) = Bad_access"

fun raw_bytes :: "memory \<Rightarrow> ptr \<Rightarrow> nat \<Rightarrow> u8 list" where
  "raw_bytes m Null n = []"
| "raw_bytes m (Ptr b i) n = map (\<lambda>k. bytes m b (i + k)) [0..<n]"

definition load_bytes :: "memory \<Rightarrow> ptr \<Rightarrow> nat \<Rightarrow> u8 list result" where
  "load_bytes m p n = (if in_bounds m p n then Inr (raw_bytes m p n) else Inl (access_fault p))"

fun write_raw :: "memory \<Rightarrow> ptr \<Rightarrow> u8 list \<Rightarrow> memory" where
  "write_raw m Null bs = m"
| "write_raw m (Ptr b i) bs =
     m\<lparr>bytes := (bytes m)(b := (\<lambda>x. if i \<le> x \<and> x < i + length bs then bs ! (x - i)
                                     else bytes m b x))\<rparr>"

definition store_bytes :: "memory \<Rightarrow> ptr \<Rightarrow> u8 list \<Rightarrow> memory result" where
  "store_bytes m p bs =
     (if in_bounds m p (length bs) then Inr (write_raw m p bs) else Inl (access_fault p))"

text \<open>\<open>ok\<close> says whether the allocator finds the memory; the result is NULL when it does not.\<close>

definition malloc_block :: "memory \<Rightarrow> nat \<Rightarrow> bool \<Rightarrow> memory \<times> ptr" where
  "malloc_block m n ok =
     (if ok then (m\<lparr>next_block := Suc (next_block m),
                    block_size := (block_size m)(next_block m \<mapsto> n)\<rparr>, Ptr (next_block m) 0)
      else (m, Null))"

fun free_block :: "memory \<Rightarrow> ptr \<Rightarrow> memory result" where
  "free_block m Null = Inr m"
| "free_block m (Ptr b i) =
     (if i = 0 \<and> block_size m b \<noteq> None then Inr (m\<lparr>block_size := (block_size m)(b := None)\<rparr>)
      else Inl Bad_free)"

definition memory_wf :: "memory \<Rightarrow> bool" where
  "memory_wf m \<longleftrightarrow> (\<forall>b. block_size m b \<noteq> None \<longrightarrow> b < next_block m)"

text \<open>Two byte ranges that share no byte.\<close>

fun disjoint_ranges :: "ptr \<Rightarrow> nat \<Rightarrow> ptr \<Rightarrow> nat \<Rightarrow> bool" where
  "disjoint_ranges (Ptr b i) n (Ptr c j) k = (b \<noteq> c \<or> i + n \<le> j \<or> j + k \<le> i)"
| "disjoint_ranges _ n _ k = True"

section \<open>Loads, stores and allocation\<close>

lemma length_raw_bytes [simp]: "p \<noteq> Null \<Longrightarrow> length (raw_bytes m p n) = n"
  by (cases p) auto

lemma in_bounds_not_Null [simp]: "in_bounds m p n \<Longrightarrow> p \<noteq> Null"
  by (cases p) auto

lemma in_bounds_mono: "in_bounds m p n \<Longrightarrow> k \<le> n \<Longrightarrow> in_bounds m p k"
  by (cases p) (auto split: option.splits)

lemma in_bounds_add: "in_bounds m p n \<Longrightarrow> i + k \<le> n \<Longrightarrow> in_bounds m (ptr_add p i) k"
  by (cases p) (auto split: option.splits)

lemma load_in_bounds [result_simps]: "in_bounds m p n \<Longrightarrow> load_bytes m p n = Inr (raw_bytes m p n)"
  by (simp add: load_bytes_def)

lemma store_in_bounds [result_simps]:
  "in_bounds m p (length bs) \<Longrightarrow> store_bytes m p bs = Inr (write_raw m p bs)"
  by (simp add: store_bytes_def)

lemma block_size_write_raw [simp]: "block_size (write_raw m p bs) = block_size m"
  by (cases p) auto

lemma next_block_write_raw [simp]: "next_block (write_raw m p bs) = next_block m"
  by (cases p) auto

lemma in_bounds_write_raw [simp]: "in_bounds (write_raw m p bs) q n = in_bounds m q n"
  by (cases q) auto

lemma raw_bytes_write_same:
  "p \<noteq> Null \<Longrightarrow> raw_bytes (write_raw m p bs) p (length bs) = bs"
  by (cases p) (auto intro!: nth_equalityI)

lemma raw_bytes_write_other:
  "disjoint_ranges p (length bs) q n \<Longrightarrow> raw_bytes (write_raw m p bs) q n = raw_bytes m q n"
  by (cases p; cases q) auto

lemma raw_bytes_append:
  "p \<noteq> Null \<Longrightarrow> raw_bytes m p (n + k) = raw_bytes m p n @ raw_bytes m (ptr_add p n) k"
  by (cases p) (auto simp: list_eq_iff_nth_eq nth_append add.assoc)

lemma disjoint_ranges_sym: "disjoint_ranges p n q k = disjoint_ranges q k p n"
  by (cases p; cases q) auto

lemma memory_wf_write [intro]: "memory_wf m \<Longrightarrow> memory_wf (write_raw m p bs)"
  by (simp add: memory_wf_def)

lemma memory_wf_malloc: "memory_wf m \<Longrightarrow> memory_wf (fst (malloc_block m n ok))"
  by (auto simp: memory_wf_def malloc_block_def less_Suc_eq)

lemma memory_wf_free: "memory_wf m \<Longrightarrow> free_block m p = Inr m' \<Longrightarrow> memory_wf m'"
  by (cases p) (auto simp: memory_wf_def split: if_splits)

lemma malloc_fresh:
  "memory_wf m \<Longrightarrow> in_bounds m q k \<Longrightarrow> malloc_block m n True = (m', p) \<Longrightarrow>
   disjoint_ranges p n q k \<and> in_bounds m' p n \<and> in_bounds m' q k \<and> raw_bytes m' q k = raw_bytes m q k"
  by (cases q) (auto simp: malloc_block_def memory_wf_def split: option.splits)

lemma free_then_load_faults:
  "free_block m (Ptr b 0) = Inr m' \<Longrightarrow> load_bytes m' (Ptr b i) n = Inl Bad_access"
  by (auto simp: load_bytes_def split: if_splits)

lemma double_free_faults:
  "free_block m (Ptr b 0) = Inr m' \<Longrightarrow> free_block m' (Ptr b 0) = Inl Bad_free"
  by (auto split: if_splits)

section \<open>The interface the typed objects rely on\<close>

text \<open>
  What a client of byte memory relies on: a store in bounds succeeds, is read back, and leaves
  every disjoint range as it was. A typed object in memory is a codec on top of it.
\<close>

locale byte_store =
  fixes load :: "'m \<Rightarrow> 'p \<Rightarrow> nat \<Rightarrow> u8 list result"
    and store :: "'m \<Rightarrow> 'p \<Rightarrow> u8 list \<Rightarrow> 'm result"
    and bounds :: "'m \<Rightarrow> 'p \<Rightarrow> nat \<Rightarrow> bool"
    and disjoint :: "'p \<Rightarrow> nat \<Rightarrow> 'p \<Rightarrow> nat \<Rightarrow> bool"
  assumes load_total: "bounds m p n \<Longrightarrow> \<exists>bs. load m p n = Inr bs \<and> length bs = n"
    and load_bounds: "load m p n = Inr bs \<Longrightarrow> bounds m p n"
    and store_total: "bounds m p (length bs) \<Longrightarrow> \<exists>m'. store m p bs = Inr m'"
    and store_keeps_bounds: "store m p bs = Inr m' \<Longrightarrow> bounds m' q n = bounds m q n"
    and load_stored: "store m p bs = Inr m' \<Longrightarrow> load m' p (length bs) = Inr bs"
    and load_other: "store m p bs = Inr m' \<Longrightarrow> disjoint p (length bs) q n \<Longrightarrow> load m' q n = load m q n"

locale object_store = byte_store + wire_codec
begin

definition load_object :: "'a \<Rightarrow> 'b \<Rightarrow> 'c result" where
  "load_object m p = bindE (load m p size_bytes) (\<lambda>bs. Inr (dec bs))"

definition store_object :: "'a \<Rightarrow> 'b \<Rightarrow> 'c \<Rightarrow> 'a result" where
  "store_object m p x = store m p (enc x)"

lemma load_object_total: "bounds m p size_bytes \<Longrightarrow> \<exists>x. load_object m p = Inr x"
  using load_total [of m p size_bytes] by (auto simp: load_object_def)

lemma store_object_total: "bounds m p size_bytes \<Longrightarrow> \<exists>m'. store_object m p x = Inr m'"
  using store_total [of m p "enc x"] by (simp add: store_object_def length_enc)

lemma load_stored_object: "store_object m p x = Inr m' \<Longrightarrow> load_object m' p = Inr x"
  using load_stored [of m p "enc x" m']
  by (simp add: load_object_def store_object_def length_enc dec_enc)

lemma load_other_object:
  "store_object m p x = Inr m' \<Longrightarrow> disjoint p size_bytes q size_bytes \<Longrightarrow>
   load_object m' q = load_object m q"
  using load_other [of m p "enc x" m' q size_bytes]
  by (simp add: load_object_def store_object_def length_enc)

text \<open>Writing an object back as it was read changes no byte of it.\<close>

lemma store_loaded_object:
  "load_object m p = Inr x \<Longrightarrow> store_object m p x = Inr m' \<Longrightarrow>
   load m' p size_bytes = load m p size_bytes"
proof -
  assume ld: "load_object m p = Inr x" and st: "store_object m p x = Inr m'"
  from ld obtain bs where bs: "load m p size_bytes = Inr bs" and x: "x = dec bs"
    by (auto simp: load_object_def)
  from bs have "length bs = size_bytes"
    using load_total [OF load_bounds [OF bs]] by auto
  then have "enc x = bs" by (simp add: x enc_dec)
  with st have "load m' p (length bs) = Inr bs"
    using load_stored [of m p bs m'] by (simp add: store_object_def)
  with bs \<open>length bs = size_bytes\<close> show ?thesis by simp
qed

end

interpretation mem: byte_store load_bytes store_bytes in_bounds disjoint_ranges
proof unfold_locales
  fix m p n
  show "in_bounds m p n \<Longrightarrow> \<exists>bs. load_bytes m p n = Inr bs \<and> length bs = n"
    by (simp add: load_bytes_def)
qed (auto simp: load_bytes_def store_bytes_def raw_bytes_write_same raw_bytes_write_other
       split: if_splits)

text \<open>A block that has the same size and bytes in two memories.\<close>

definition same_block :: "nat \<Rightarrow> memory \<Rightarrow> memory \<Rightarrow> bool" where
  "same_block b m m' \<longleftrightarrow> block_size m' b = block_size m b \<and> bytes m' b = bytes m b"

lemma same_block_trans [trans]: "same_block b m m' \<Longrightarrow> same_block b m' m'' \<Longrightarrow> same_block b m m''"
  by (simp add: same_block_def)

lemma same_block_bytes: "same_block b m m' \<Longrightarrow> raw_bytes m' (Ptr b i) n = raw_bytes m (Ptr b i) n"
  by (simp add: same_block_def)

lemma same_block_refl: "same_block b m m"
  by (simp add: same_block_def)

lemma same_block_write [simp]: "q \<noteq> b \<Longrightarrow> same_block q m (write_raw m (Ptr b i) bs)"
  by (simp add: same_block_def)

end
