(* ===== verification/EntryHeader.thy ===== *)
theory EntryHeader
  imports Memory
begin

text \<open>
  \<^verbatim>\<open>src/entry_header.h\<close> and \<^verbatim>\<open>src/entry_header.c\<close>: the 16-byte header in front of every entry of
  the buffer (and of every key a request is looked up with), its byte layout, its reading and
  writing in C memory, and the read lock counter. The bit fields are laid out as the System V
  x86-64 ABI does: \<open>active\<close>, \<open>end_of_buffer\<close> and \<open>expiry\<close> share the first eight bytes from the
  least significant bit up; all integers are little-endian.
\<close>

section \<open>The header\<close>

text \<open>The three bit fields, one storage unit of eight bytes, and the header that starts with them.\<close>

record bit_fields =
  active :: bool
  end_of_buffer :: bool
  expiry :: "62 word"

record entry_header = bit_fields +
  value_size :: u32
  key_size :: u16
  locks :: u16

datatype entry_header_lock_event =
    LOCK_EVENT_NONE
  | LOCK_EVENT_BLOCKED
  | LOCK_EVENT_READS_UNBLOCKED
  | LOCK_EVENT_WRITES_UNBLOCKED

definition header_size :: nat where
  "header_size = 16"

definition bit_fields_size :: nat where
  "bit_fields_size = 8"

declare header_size_def [layout_simps] bit_fields_size_def [layout_simps]

definition first_word :: "'a bit_fields_scheme \<Rightarrow> nat" where
  "first_word h = of_bool (active h) + 2 * of_bool (end_of_buffer h) + 4 * unat (expiry h)"

definition encode_header :: "entry_header \<Rightarrow> u8 list" where
  "encode_header h =
     le_bytes 8 (first_word h) @ le_bytes 4 (unat (value_size h))
     @ le_bytes 2 (unat (key_size h)) @ le_bytes 2 (unat (locks h))"

definition decode_header :: "u8 list \<Rightarrow> entry_header" where
  "decode_header bs =
     (let w = le_nat (take 8 bs) in
      \<lparr>active = odd w, end_of_buffer = odd (w div 2), expiry = of_nat (w div 4),
       value_size = of_nat (le_nat (take 4 (drop 8 bs))),
       key_size = of_nat (le_nat (take 2 (drop 12 bs))),
       locks = of_nat (le_nat (take 2 (drop 14 bs)))\<rparr>)"

section \<open>The layout is a codec\<close>

lemma unat_less_256_power:
  "unat (w :: 'a::len word) < 256 ^ n" if "LENGTH('a) = 8 * n"
proof -
  have "unat w < 2 ^ LENGTH('a)" by simp
  also have "(2::nat) ^ LENGTH('a) = 256 ^ n" by (simp add: that power_mult)
  finally show ?thesis .
qed

lemma first_word_less: "first_word h < 256 ^ 8"
proof -
  have "unat (expiry h) < 2 ^ 62"
    using unsigned_less [of "expiry h", where ?'a = nat] by simp
  then show ?thesis by (auto simp: first_word_def)
qed

text \<open>The storage unit of the bit fields by itself.\<close>

definition encode_bit_fields :: "bit_fields \<Rightarrow> u8 list" where
  "encode_bit_fields f = le_bytes 8 (first_word f)"

definition decode_bit_fields :: "u8 list \<Rightarrow> bit_fields" where
  "decode_bit_fields bs =
     (let w = le_nat bs in \<lparr>active = odd w, end_of_buffer = odd (w div 2), expiry = of_nat (w div 4)\<rparr>)"

lemma first_word_fields:
  "odd (first_word h) = active h" "odd (first_word h div 2) = end_of_buffer h"
  "first_word h div 4 = unat (expiry h)"
  by (cases "active h"; cases "end_of_buffer h"; simp add: first_word_def; presburger)+

lemma length_encode_header: "length (encode_header h) = header_size"
  by (simp add: encode_header_def header_size_def)

lemma decode_encode_header: "decode_header (encode_header h) = h"
proof -
  have "le_nat (le_bytes 8 (first_word h)) = first_word h"
    by (rule le_nat_le_bytes_small [OF first_word_less])
  moreover have "le_nat (le_bytes 4 (unat (value_size h))) = unat (value_size h)"
    and "le_nat (le_bytes 2 (unat (key_size h))) = unat (key_size h)"
    and "le_nat (le_bytes 2 (unat (locks h))) = unat (locks h)"
    by (rule le_nat_le_bytes_small, rule unat_less_256_power, simp)+
  ultimately show ?thesis
    by (simp add: decode_header_def encode_header_def first_word_fields Let_def)
qed

lemma unat_of_le_nat:
  "length bs = n \<Longrightarrow> LENGTH('a::len) = 8 * n \<Longrightarrow> unat (of_nat (le_nat bs) :: 'a word) = le_nat bs"
  using le_nat_less [of bs] by (simp add: unat_of_nat power_mult)

lemma first_word_decode:
  assumes "length bs = 16"
  shows "first_word (decode_header bs) = le_nat (take 8 bs)"
proof -
  define w where "w = le_nat (take 8 bs)"
  have "w < 256 ^ 8"
    using le_nat_less [of "take 8 bs"] assms by (simp add: w_def)
  then have "w div 4 < 2 ^ 62" by simp
  then have "unat (of_nat (w div 4) :: 62 word) = w div 4"
    by (simp add: unat_of_nat)
  moreover have "of_bool (odd w) + 2 * of_bool (odd (w div 2)) + 4 * (w div 4) = w"
    by (cases "odd w"; cases "odd (w div 2)"; simp; presburger)
  ultimately show ?thesis
    by (simp add: first_word_def decode_header_def Let_def w_def)
qed

lemma encode_decode_header:
  assumes "length bs = header_size"
  shows "encode_header (decode_header bs) = bs"
proof -
  have len: "length bs = 16" using assms by (simp add: header_size_def)
  have "le_bytes 8 (first_word (decode_header bs)) = take 8 bs"
    using len by (simp add: first_word_decode le_bytes_le_nat)
  moreover have "le_bytes 4 (unat (value_size (decode_header bs))) = take 4 (drop 8 bs)"
    and "le_bytes 2 (unat (key_size (decode_header bs))) = take 2 (drop 12 bs)"
    and "le_bytes 2 (unat (locks (decode_header bs))) = take 2 (drop 14 bs)"
    using len by (simp_all add: decode_header_def Let_def unat_of_le_nat le_bytes_le_nat)
  moreover have "take 8 bs @ take 4 (drop 8 bs) @ take 2 (drop 12 bs) @ take 2 (drop 14 bs) = bs"
  proof -
    have "take 2 (drop 14 bs) = drop 14 bs" using len by simp
    moreover have "take 2 (drop 12 bs) @ drop 14 bs = drop 12 bs"
      using append_take_drop_id [of 2 "drop 12 bs"] by simp
    moreover have "take 4 (drop 8 bs) @ drop 12 bs = drop 8 bs"
      using append_take_drop_id [of 4 "drop 8 bs"] by simp
    ultimately show ?thesis by simp
  qed
  ultimately show ?thesis
    by (simp add: encode_header_def)
qed

lemma decode_bit_fields_take:
  "decode_bit_fields (take 8 bs) = bit_fields.truncate (decode_header bs)"
  by (simp add: decode_bit_fields_def decode_header_def bit_fields.truncate_def Let_def)

lemma bit_fields_codec:
  "length (encode_bit_fields f) = bit_fields_size"
  "decode_bit_fields (encode_bit_fields f) = f"
  "length bs = bit_fields_size \<Longrightarrow> encode_bit_fields (decode_bit_fields bs) = bs"
proof -
  show "length (encode_bit_fields f) = bit_fields_size"
    by (simp add: encode_bit_fields_def bit_fields_size_def)
  have "le_nat (le_bytes 8 (first_word f)) = first_word f"
    by (rule le_nat_le_bytes_small [OF first_word_less])
  then show "decode_bit_fields (encode_bit_fields f) = f"
    by (simp add: decode_bit_fields_def encode_bit_fields_def first_word_fields Let_def)
  assume bs: "length bs = bit_fields_size"
  let ?h = "decode_header (bs @ replicate 8 0)"
  have 8: "length bs = 8" using bs by (simp add: bit_fields_size_def)
  have "first_word ?h = le_nat bs" using first_word_decode [of "bs @ replicate 8 0"] 8 by simp
  moreover have "decode_bit_fields bs = bit_fields.truncate ?h"
    using decode_bit_fields_take [of "bs @ replicate 8 0"] 8 by simp
  moreover have "first_word (bit_fields.truncate h) = first_word h" for h :: entry_header
    by (simp add: first_word_def bit_fields.truncate_def)
  ultimately show "encode_bit_fields (decode_bit_fields bs) = bs"
    using le_bytes_le_nat [of bs] 8 by (simp add: encode_bit_fields_def)
qed

interpretation flags: object_store load_bytes store_bytes in_bounds disjoint_ranges
    encode_bit_fields decode_bit_fields bit_fields_size
  by unfold_locales (simp_all add: bit_fields_codec)

text \<open>The header layout is a packed struct of the shared contract, and an object of memory.\<close>

interpretation hdr: object_store load_bytes store_bytes in_bounds disjoint_ranges
    encode_header decode_header header_size
  by unfold_locales (simp_all add: length_encode_header decode_encode_header encode_decode_header)

section \<open>Headers in memory\<close>

definition load_header :: "memory \<Rightarrow> ptr \<Rightarrow> entry_header result" where
  "load_header m p = bindE (load_bytes m p header_size) (\<lambda>bs. Inr (decode_header bs))"

definition store_header :: "memory \<Rightarrow> ptr \<Rightarrow> entry_header \<Rightarrow> memory result" where
  "store_header m p h = store_bytes m p (encode_header h)"

lemma load_header_eq: "load_header = hdr.load_object"
  by (intro ext) (simp add: load_header_def hdr.load_object_def)

lemma store_header_eq: "store_header = hdr.store_object"
  by (intro ext) (simp add: store_header_def hdr.store_object_def)

lemmas load_header_total = hdr.load_object_total [folded load_header_eq]
lemmas store_header_total = hdr.store_object_total [folded store_header_eq]
lemmas load_stored_header = hdr.load_stored_object [folded load_header_eq store_header_eq]
lemmas load_other_header = hdr.load_other_object [folded load_header_eq store_header_eq]
lemmas store_loaded_header = hdr.store_loaded_object [folded load_header_eq store_header_eq]

definition header_at :: "memory \<Rightarrow> ptr \<Rightarrow> entry_header" where
  "header_at m p = decode_header (raw_bytes m p header_size)"

definition put_header :: "memory \<Rightarrow> ptr \<Rightarrow> entry_header \<Rightarrow> memory" where
  "put_header m p h = write_raw m p (encode_header h)"

lemma load_header_in_bounds [result_simps]:
  "in_bounds m p header_size \<Longrightarrow> load_header m p = Inr (header_at m p)"
  by (simp add: load_header_def load_in_bounds header_at_def)

lemma store_header_in_bounds [result_simps]:
  "in_bounds m p header_size \<Longrightarrow> store_header m p h = Inr (put_header m p h)"
  by (simp add: store_header_def put_header_def store_in_bounds length_encode_header)

lemma load_header_InrD: "load_header m p = Inr h \<Longrightarrow> in_bounds m p header_size \<and> h = header_at m p"
  by (auto simp: load_header_def load_bytes_def header_at_def split: if_splits)

lemma store_header_InrD:
  "store_header m p h = Inr m' \<Longrightarrow> in_bounds m p header_size \<and> m' = put_header m p h"
  by (auto simp: store_header_def store_bytes_def put_header_def length_encode_header
      split: if_splits)

lemma header_at_put_same [simp]: "p \<noteq> Null \<Longrightarrow> header_at (put_header m p h) p = h"
  using raw_bytes_write_same [of p m "encode_header h"]
  by (simp add: header_at_def put_header_def length_encode_header decode_encode_header)

lemma raw_bytes_put_other:
  "disjoint_ranges p header_size q n \<Longrightarrow> raw_bytes (put_header m p h) q n = raw_bytes m q n"
  by (simp add: put_header_def raw_bytes_write_other length_encode_header)

lemma header_at_put_other:
  "disjoint_ranges p header_size q header_size \<Longrightarrow> header_at (put_header m p h) q = header_at m q"
  by (simp add: header_at_def raw_bytes_put_other)

lemma put_header_bounds [simp]: "in_bounds (put_header m p h) q n = in_bounds m q n"
  by (simp add: put_header_def)

lemma put_header_blocks [simp]:
  "block_size (put_header m p h) = block_size m" "next_block (put_header m p h) = next_block m"
  by (simp_all add: put_header_def)

lemma write_raw_twice: "length bs = length cs \<Longrightarrow> write_raw (write_raw m p bs) p cs = write_raw m p cs"
  by (cases p) (auto simp: fun_eq_iff)

lemma put_header_twice [simp]: "put_header (put_header m p h) p h' = put_header m p h'"
  by (simp add: put_header_def write_raw_twice length_encode_header)

lemma write_raw_same: "write_raw m p (raw_bytes m p n) = m"
proof (cases p)
  case (Ptr b i)
  have "(bytes m)(b := (\<lambda>x. if i \<le> x \<and> x < i + n
           then map (\<lambda>k. bytes m b (i + k)) [0..<n] ! (x - i) else bytes m b x)) = bytes m"
    by (auto simp: fun_eq_iff)
  then show ?thesis using Ptr by simp
qed simp

lemma put_header_same [simp]: "p \<noteq> Null \<Longrightarrow> put_header m p (header_at m p) = m"
  by (simp add: put_header_def header_at_def encode_decode_header write_raw_same)

section \<open>The bit fields in memory\<close>

text \<open>
  Reading or setting a bit field accesses its storage unit, the first eight bytes of the header, and
  nothing behind it: \<open>load_bit_fields\<close> and \<open>store_bit_fields\<close> need only these bytes to be in bounds.
\<close>

definition load_bit_fields :: "memory \<Rightarrow> ptr \<Rightarrow> bit_fields result" where
  "load_bit_fields m p = bindE (load_bytes m p bit_fields_size) (\<lambda>bs. Inr (decode_bit_fields bs))"

definition store_bit_fields :: "memory \<Rightarrow> ptr \<Rightarrow> bit_fields \<Rightarrow> memory result" where
  "store_bit_fields m p f = store_bytes m p (encode_bit_fields f)"

lemma load_bit_fields_eq: "load_bit_fields = flags.load_object"
  by (intro ext) (simp add: load_bit_fields_def flags.load_object_def)

lemma store_bit_fields_eq: "store_bit_fields = flags.store_object"
  by (intro ext) (simp add: store_bit_fields_def flags.store_object_def)

lemmas load_stored_bit_fields = flags.load_stored_object [folded load_bit_fields_eq store_bit_fields_eq]

text \<open>Where the whole header is in bounds, they are the header's own fields.\<close>

definition bit_fields_at :: "memory \<Rightarrow> ptr \<Rightarrow> bit_fields" where
  "bit_fields_at m p = decode_bit_fields (raw_bytes m p bit_fields_size)"

lemma raw_bytes_take: "k \<le> n \<Longrightarrow> take k (raw_bytes m p n) = raw_bytes m p k"
  by (cases p) (auto simp: take_map)

lemma bit_fields_at_header: "bit_fields_at m p = bit_fields.truncate (header_at m p)"
  using decode_bit_fields_take [of "raw_bytes m p header_size"]
  by (simp add: bit_fields_at_def header_at_def raw_bytes_take bit_fields_size_def header_size_def
      del: raw_bytes.simps)

lemma bit_fields_at_fields [simp]:
  "active (bit_fields_at m p) = active (header_at m p)"
  "end_of_buffer (bit_fields_at m p) = end_of_buffer (header_at m p)"
  "expiry (bit_fields_at m p) = expiry (header_at m p)"
  by (simp_all add: bit_fields_at_header bit_fields.truncate_def)

lemma load_bit_fields_in_bounds [result_simps]:
  "in_bounds m p header_size \<Longrightarrow> load_bit_fields m p = Inr (bit_fields_at m p)"
  using in_bounds_mono [of m p header_size bit_fields_size]
  by (simp add: load_bit_fields_def load_in_bounds bit_fields_at_def header_size_def bit_fields_size_def)

lemma write_raw_prefix:
  "length bs = n \<Longrightarrow> write_raw m p (bs @ raw_bytes m (ptr_add p n) k) = write_raw m p bs"
proof (cases p)
  case (Ptr b i)
  assume n: "length bs = n"
  have "(bs @ map (\<lambda>j. bytes m b (i + n + j)) [0..<k]) ! (x - i) = bytes m b x"
    if x: "x < i + (n + k)" "\<not> x < i + n" for x
  proof -
    obtain y where "x = i + n + y" "y < k" using x by (metis add.assoc le_Suc_ex nat_add_left_cancel_less not_less)
    then show ?thesis using n by (simp add: nth_append)
  qed
  then have "(\<lambda>x. if i \<le> x \<and> x < i + (n + k)
        then (bs @ map (\<lambda>j. bytes m b (i + n + j)) [0..<k]) ! (x - i) else bytes m b x) =
      (\<lambda>x. if i \<le> x \<and> x < i + n then bs ! (x - i) else bytes m b x)"
    using n by (intro ext) (auto simp: nth_append)
  then show ?thesis using Ptr n by simp
qed simp

lemma put_bit_fields:
  assumes "p \<noteq> Null" and "value_size h = value_size (header_at m p)"
    and "key_size h = key_size (header_at m p)" and "locks h = locks (header_at m p)"
  shows "write_raw m p (encode_bit_fields (bit_fields.truncate h)) = put_header m p h"
proof -
  let ?old = "header_at m p" and ?f = "encode_bit_fields (bit_fields.truncate h)"
  let ?rest = "\<lambda>h. le_bytes 4 (unat (value_size h)) @ le_bytes 2 (unat (key_size h)) @ le_bytes 2 (unat (locks h))"
  have enc: "encode_header h = ?f @ ?rest h"
    by (simp add: encode_header_def encode_bit_fields_def first_word_def bit_fields.truncate_def)
  have "encode_header ?old = raw_bytes m p header_size"
    using assms(1) by (simp add: header_at_def encode_decode_header)
  also have "\<dots> = raw_bytes m p 8 @ raw_bytes m (ptr_add p 8) 8"
    using raw_bytes_append [OF assms(1), of m 8 8] by (simp add: header_size_def)
  finally have "le_bytes 8 (first_word ?old) @ ?rest ?old = raw_bytes m p 8 @ raw_bytes m (ptr_add p 8) 8"
    unfolding encode_header_def .
  then have "?rest ?old = raw_bytes m (ptr_add p 8) 8"
    using assms(1) by (subst (asm) append_eq_append_conv) simp_all
  then have "?rest h = raw_bytes m (ptr_add p 8) 8" using assms(2-4) by simp
  then show ?thesis
    using write_raw_prefix [of ?f 8 m p 8]
    by (simp only: put_header_def enc bit_fields_codec bit_fields_size_def)
qed

lemma store_bit_fields_in_bounds [result_simps]:
  assumes "in_bounds m p header_size"
  shows "store_bit_fields m p ((bit_fields_at m p)\<lparr>active := a\<rparr>) =
           Inr (put_header m p ((header_at m p)\<lparr>active := a\<rparr>))"
    and "store_bit_fields m p ((bit_fields_at m p)\<lparr>end_of_buffer := a\<rparr>) =
           Inr (put_header m p ((header_at m p)\<lparr>end_of_buffer := a\<rparr>))"
proof -
  have "in_bounds m p bit_fields_size"
    using in_bounds_mono [OF assms] by (simp add: header_size_def bit_fields_size_def)
  then have sto: "store_bit_fields m p f = Inr (write_raw m p (encode_bit_fields f))" for f
    by (simp add: store_bit_fields_def store_in_bounds bit_fields_codec)
  have p: "p \<noteq> Null" using assms by simp
  have "(bit_fields_at m p)\<lparr>active := a\<rparr> = bit_fields.truncate ((header_at m p)\<lparr>active := a\<rparr>)"
    "(bit_fields_at m p)\<lparr>end_of_buffer := a\<rparr> = bit_fields.truncate ((header_at m p)\<lparr>end_of_buffer := a\<rparr>)"
    by (simp_all add: bit_fields_at_header bit_fields.truncate_def)
  then show "store_bit_fields m p ((bit_fields_at m p)\<lparr>active := a\<rparr>) =
        Inr (put_header m p ((header_at m p)\<lparr>active := a\<rparr>))"
    and "store_bit_fields m p ((bit_fields_at m p)\<lparr>end_of_buffer := a\<rparr>) =
        Inr (put_header m p ((header_at m p)\<lparr>end_of_buffer := a\<rparr>))"
    by (simp_all add: sto put_bit_fields [OF p])
qed

section \<open>The read lock\<close>

definition ENTRY_HEADER_LOCK_CAPACITY :: u16 where
  "ENTRY_HEADER_LOCK_CAPACITY = 0xFFFF"

definition entry_header_acquire_lock ::
  "memory \<Rightarrow> ptr \<Rightarrow> (memory \<times> entry_header_lock_event) result" where
  "entry_header_acquire_lock m p =
     bindE (load_header m p) (\<lambda>h.
       if locks h = ENTRY_HEADER_LOCK_CAPACITY then Inr (m, LOCK_EVENT_BLOCKED)
       else bindE (store_header m p (h\<lparr>locks := locks h + 1\<rparr>)) (\<lambda>m'.
              Inr (m', LOCK_EVENT_NONE)))"

definition entry_header_release_lock ::
  "memory \<Rightarrow> ptr \<Rightarrow> (memory \<times> entry_header_lock_event) result" where
  "entry_header_release_lock m p =
     bindE (load_header m p) (\<lambda>h.
     bindE (assertE (0 \<le> locks h)) (\<lambda>_.
     let l = locks h - 1 in
     bindE (store_header m p (h\<lparr>locks := l\<rparr>)) (\<lambda>m'.
       if l = 0 then Inr (m', LOCK_EVENT_WRITES_UNBLOCKED)
       else if l = ENTRY_HEADER_LOCK_CAPACITY - 1 then Inr (m', LOCK_EVENT_READS_UNBLOCKED)
       else Inr (m', LOCK_EVENT_NONE))))"

lemma acquire_lock_eq:
  "in_bounds m p header_size \<Longrightarrow>
   entry_header_acquire_lock m p =
     Inr (if locks (header_at m p) = 0xFFFF then (m, LOCK_EVENT_BLOCKED)
          else (put_header m p ((header_at m p)\<lparr>locks := locks (header_at m p) + 1\<rparr>),
                LOCK_EVENT_NONE))"
  by (simp add: entry_header_acquire_lock_def result_simps ENTRY_HEADER_LOCK_CAPACITY_def)

lemma release_lock_eq:
  "in_bounds m p header_size \<Longrightarrow>
   entry_header_release_lock m p =
     Inr (put_header m p ((header_at m p)\<lparr>locks := locks (header_at m p) - 1\<rparr>),
          if locks (header_at m p) = 1 then LOCK_EVENT_WRITES_UNBLOCKED
          else if locks (header_at m p) = 0xFFFF then LOCK_EVENT_READS_UNBLOCKED
          else LOCK_EVENT_NONE)"
proof -
  have "(l - 1 = 0) = (l = 1)" "(l - 1 = 0xFFFE) = (l = 0xFFFF)" for l :: u16
    by (simp_all add: diff_eq_eq)
  then show "in_bounds m p header_size \<Longrightarrow> ?thesis"
    by (simp add: entry_header_release_lock_def result_simps ENTRY_HEADER_LOCK_CAPACITY_def
        Let_def)
qed

text \<open>C17. A read lock that was granted and then released leaves memory byte for byte as it was, and
  the release says exactly which waiters it may wake: writers when no lock is left, readers when
  the counter comes down from its capacity.\<close>

theorem lock_then_release:
  assumes "in_bounds m p header_size" and "locks (header_at m p) \<noteq> 0xFFFF"
  shows "\<exists>m'. entry_header_acquire_lock m p = Inr (m', LOCK_EVENT_NONE) \<and>
           locks (header_at m' p) = locks (header_at m p) + 1 \<and>
           entry_header_release_lock m' p =
             Inr (m, if locks (header_at m p) = 0 then LOCK_EVENT_WRITES_UNBLOCKED
                     else if locks (header_at m p) = 0xFFFE then LOCK_EVENT_READS_UNBLOCKED
                     else LOCK_EVENT_NONE)"
proof -
  let ?h = "header_at m p"
  have p: "p \<noteq> Null" using assms(1) by simp
  have "(locks ?h + 1 = 1) = (locks ?h = 0)" "(locks ?h + 1 = 0xFFFF) = (locks ?h = 0xFFFE)"
    by (simp_all flip: eq_diff_eq)
  then show ?thesis
    using assms p by (simp add: acquire_lock_eq release_lock_eq)
qed

theorem lock_then_release_witness:
  "\<exists>m'. entry_header_acquire_lock \<lparr>next_block = 1, block_size = [0 \<mapsto> 16], bytes = \<lambda>_ _. 0\<rparr> (Ptr 0 0)
          = Inr (m', LOCK_EVENT_NONE) \<and>
        entry_header_release_lock m' (Ptr 0 0) =
          Inr (\<lparr>next_block = 1, block_size = [0 \<mapsto> 16], bytes = \<lambda>_ _. 0\<rparr>, LOCK_EVENT_WRITES_UNBLOCKED)"
proof -
  let ?m = "\<lparr>next_block = 1, block_size = [0 \<mapsto> 16], bytes = \<lambda>_ _. 0\<rparr>"
  have "locks (header_at ?m (Ptr 0 0)) = 0"
    by (simp add: header_at_def decode_header_def header_size_def Let_def upt_rec numeral_2_eq_2)
  then show ?thesis
    using lock_then_release [of ?m "Ptr 0 0"] by (auto simp: header_size_def)
qed

end
