(* ===== verification/EntryHashMap.thy ===== *)
theory EntryHashMap
  imports HashMapProperties EntryHeader
begin

text \<open>
  \<^verbatim>\<open>src/entry_hash_map.c\<close>: the table from keys to the entries of the buffer. Its items are pointers
  to entry headers; an item is hashed and compared by the key bytes behind the header it points to,
  so the callbacks read C memory. \<open>entry_index\<close> is the contract the request handlers of
  \<^verbatim>\<open>src/connection.c\<close> rely on; it is interpreted on the operations of this file.

  Lookup is by the 48 kept bits of SipHash and then by \<open>entry_compare\<close>, which by itself does not
  decide equality of keys (it answers "equal" when the first key is the shorter one, and
  \<^verbatim>\<open>strncmp\<close> stops at a zero byte). The contract is therefore stated for a universe of keys without
  two keys of the same 48-bit hash, the condition under which the comparison is only ever asked
  about equal keys.
\<close>

section \<open>Callbacks\<close>

definition key_ptr :: "ptr \<Rightarrow> ptr" where
  "key_ptr p = ptr_add p header_size"

definition load_byte :: "memory \<Rightarrow> ptr \<Rightarrow> u8 result" where
  "load_byte m p = bindE (load_bytes m p 1) (\<lambda>bs. Inr (hd bs))"

text \<open>C's \<^verbatim>\<open>strncmp\<close>: it stops at the first difference, at a zero byte, or after \<open>n\<close> bytes.\<close>

fun strncmp :: "memory \<Rightarrow> ptr \<Rightarrow> ptr \<Rightarrow> nat \<Rightarrow> int result" where
  "strncmp m p q 0 = Inr 0"
| "strncmp m p q (Suc n) =
     bindE (load_byte m p) (\<lambda>a.
     bindE (load_byte m q) (\<lambda>b.
       if a \<noteq> b then Inr (int (unat a) - int (unat b))
       else if a = 0 then Inr 0
       else strncmp m (ptr_add p 1) (ptr_add q 1) n))"

definition entry_compare :: "memory \<Rightarrow> ptr compare_fun" where
  "entry_compare m pointer_1 pointer_2 =
     bindE (load_header m pointer_1) (\<lambda>h1.
     bindE (load_header m pointer_2) (\<lambda>h2.
       if key_size h1 \<noteq> key_size h2 then Inr (of_bool (key_size h1 > key_size h2))
       else strncmp m (key_ptr pointer_1) (key_ptr pointer_2) (unat (key_size h1))))"

definition entry_hash :: "memory \<Rightarrow> ptr hash_fun" where
  "entry_hash m pointer s0 s1 =
     bindE (load_header m pointer) (\<lambda>h.
     bindE (load_bytes m (key_ptr pointer) (unat (key_size h))) (\<lambda>k.
       Inr (hashmap_sip k s0 s1)))"

section \<open>Operations\<close>

text \<open>\<open>entry_hash_map_context_t\<close>; None is the NULL hash map.\<close>

record entry_hash_map_context =
  hashmap_of :: "ptr hashmap option"

definition context_hashmap :: "entry_hash_map_context \<Rightarrow> ptr hashmap result" where
  "context_hashmap c = (case hashmap_of c of None \<Rightarrow> Inl Null_deref | Some hm \<Rightarrow> Inr hm)"

definition entry_hash_map_open :: "bool \<times> bool \<Rightarrow> (entry_hash_map_context \<times> u8) result" where
  "entry_hash_map_open allocs =
     bindE (hashmap_new allocs 0 0 0) (\<lambda>r.
       Inr (\<lparr>hashmap_of = r\<rparr>, if r = None then 1 else 0))"

text \<open>The index has no callback for its items. Its freed table can no longer be used: None.\<close>

definition entry_hash_map_close :: "entry_hash_map_context \<Rightarrow> entry_hash_map_context result" where
  "entry_hash_map_close c =
     (if hashmap_of c \<noteq> None then bindE (hashmap_free None (hashmap_of c) ()) (\<lambda>_. Inr (c\<lparr>hashmap_of := None\<rparr>))
      else Inr c)"

definition entry_hash_map_get :: "memory \<Rightarrow> entry_hash_map_context \<Rightarrow> ptr \<Rightarrow> ptr result" where
  "entry_hash_map_get m c key_header =
     bindE (context_hashmap c) (\<lambda>hm.
     bindE (hashmap_get (entry_hash m) (entry_compare m) hm key_header) (\<lambda>r.
       case r of None \<Rightarrow> Inr Null | Some p \<Rightarrow> Inr p))"

text \<open>\<^verbatim>\<open>(*previous_entry)->active = 0\<close>\<close>

definition deactivate :: "memory \<Rightarrow> ptr \<Rightarrow> memory result" where
  "deactivate m p = bindE (load_bit_fields m p) (\<lambda>f. store_bit_fields m p (f\<lparr>active := False\<rparr>))"

definition entry_hash_map_put :: "bool \<times> bool \<Rightarrow> memory \<Rightarrow> entry_hash_map_context \<Rightarrow> ptr \<Rightarrow>
    (memory \<times> entry_hash_map_context \<times> u8) result" where
  "entry_hash_map_put allocs m c entry_header =
     bindE (context_hashmap c) (\<lambda>hm.
     bindE (hashmap_set (entry_hash m) (entry_compare m) allocs hm entry_header) (\<lambda>(hm, previous).
       let c = c\<lparr>hashmap_of := Some hm\<rparr> in
       case previous of
         Some p \<Rightarrow> bindE (deactivate m p) (\<lambda>m. Inr (m, c, 0))
       | None \<Rightarrow> Inr (m, c, if hashmap_oom hm then 1 else 0)))"

definition entry_hash_map_delete :: "bool \<times> bool \<Rightarrow> memory \<Rightarrow> entry_hash_map_context \<Rightarrow> ptr \<Rightarrow>
    (memory \<times> entry_hash_map_context) result" where
  "entry_hash_map_delete allocs m c key_header =
     bindE (context_hashmap c) (\<lambda>hm.
     bindE (hashmap_delete (entry_hash m) (entry_compare m) allocs hm key_header) (\<lambda>(hm, previous).
       let c = c\<lparr>hashmap_of := Some hm\<rparr> in
       case previous of
         Some p \<Rightarrow> bindE (deactivate m p) (\<lambda>m. Inr (m, c))
       | None \<Rightarrow> Inr (m, c)))"

section \<open>Keys of entries\<close>

definition entry_readable :: "memory \<Rightarrow> ptr \<Rightarrow> bool" where
  "entry_readable m p \<longleftrightarrow> in_bounds m p (header_size + unat (key_size (header_at m p)))"

definition entry_key :: "memory \<Rightarrow> ptr \<Rightarrow> u8 list" where
  "entry_key m p = raw_bytes m (key_ptr p) (unat (key_size (header_at m p)))"

definition key_hash :: "u8 list \<Rightarrow> 48 word" where
  "key_hash k = clip_hash (hashmap_sip k 0 0)"

text \<open>The keys of \<open>K\<close>, provided that no two of them agree in the kept bits of their hash.\<close>

definition key_universe :: "u8 list set \<Rightarrow> u8 list set" where
  "key_universe K = (if inj_on key_hash K then K else {})"

definition entry_ok :: "memory \<Rightarrow> u8 list set \<Rightarrow> ptr \<Rightarrow> bool" where
  "entry_ok m K p \<longleftrightarrow> entry_readable m p \<and> entry_key m p \<in> key_universe K"

lemma key_universe_inj: "k \<in> key_universe K \<Longrightarrow> l \<in> key_universe K \<Longrightarrow> key_hash k = key_hash l \<Longrightarrow> k = l"
  by (auto simp: key_universe_def inj_on_def split: if_splits)

lemma entry_readable_bounds:
  assumes "entry_readable m p"
  shows "in_bounds m p header_size" "in_bounds m (key_ptr p) (unat (key_size (header_at m p)))"
    "key_ptr p \<noteq> Null"
proof -
  show "in_bounds m p header_size" using assms by (auto simp: entry_readable_def elim: in_bounds_mono)
  show *: "in_bounds m (key_ptr p) (unat (key_size (header_at m p)))"
    using assms by (auto simp: entry_readable_def key_ptr_def intro: in_bounds_add)
  show "key_ptr p \<noteq> Null" using * by simp
qed

lemma ptr_add_add [simp]: "ptr_add (ptr_add p i) j = ptr_add p (i + j)"
  by (cases p) auto

lemma raw_bytes_Suc: "p \<noteq> Null \<Longrightarrow> raw_bytes m p (Suc n) = hd (raw_bytes m p 1) # raw_bytes m (ptr_add p 1) n"
  using raw_bytes_append [of p m 1 n] by (cases p) auto

lemma strncmp_bounds:
  "in_bounds m p n \<Longrightarrow> in_bounds m q n \<Longrightarrow> \<exists>c. strncmp m p q n = Inr c"
proof (induction n arbitrary: p q)
  case 0
  then show ?case by simp
next
  case (Suc n)
  have "in_bounds m p 1" "in_bounds m q 1" using Suc.prems by (auto elim: in_bounds_mono)
  moreover have "in_bounds m (ptr_add p 1) n" "in_bounds m (ptr_add q 1) n"
    using Suc.prems by (auto intro!: in_bounds_add)
  ultimately show ?case using Suc.IH by (simp add: load_byte_def result_simps)
qed

lemma strncmp_equal:
  "in_bounds m p n \<Longrightarrow> in_bounds m q n \<Longrightarrow> raw_bytes m p n = raw_bytes m q n \<Longrightarrow>
   strncmp m p q n = Inr 0"
proof (induction n arbitrary: p q)
  case 0
  then show ?case by simp
next
  case (Suc n)
  have b: "in_bounds m p 1" "in_bounds m q 1" using Suc.prems by (auto elim: in_bounds_mono)
  moreover have "in_bounds m (ptr_add p 1) n" "in_bounds m (ptr_add q 1) n"
    using Suc.prems by (auto intro!: in_bounds_add)
  moreover have "hd (raw_bytes m p 1) = hd (raw_bytes m q 1)"
    "raw_bytes m (ptr_add p 1) n = raw_bytes m (ptr_add q 1) n"
    using Suc.prems(3) raw_bytes_Suc [of p m n] raw_bytes_Suc [of q m n] b by auto
  ultimately show ?case using Suc.IH by (simp add: load_byte_def result_simps)
qed

lemma entry_hash_eq:
  "entry_readable m p \<Longrightarrow> entry_hash m p s0 s1 = Inr (hashmap_sip (entry_key m p) s0 s1)"
  by (simp add: entry_hash_def result_simps entry_readable_bounds entry_key_def)

lemma entry_compare_total:
  "entry_readable m p \<Longrightarrow> entry_readable m q \<Longrightarrow> \<exists>c. entry_compare m p q = Inr c"
  using strncmp_bounds [of m "key_ptr p" "unat (key_size (header_at m p))" "key_ptr q"]
    entry_readable_bounds [of m p] entry_readable_bounds [of m q]
  by (cases "key_size (header_at m p) = key_size (header_at m q)")
    (simp_all add: entry_compare_def result_simps)

lemma entry_compare_equal:
  assumes "entry_readable m p" "entry_readable m q" "entry_key m p = entry_key m q"
  shows "entry_compare m p q = Inr 0"
proof -
  note b = entry_readable_bounds [OF assms(1)] entry_readable_bounds [OF assms(2)]
  have "key_size (header_at m p) = key_size (header_at m q)"
    using arg_cong [OF assms(3), of length] b by (simp add: entry_key_def word_unat_eq_iff)
  then show ?thesis
    using assms(3) b strncmp_equal [of m "key_ptr p" _ "key_ptr q"]
    by (simp add: entry_compare_def result_simps entry_key_def)
qed

text \<open>The callbacks satisfy the contract of the hash map.\<close>

interpretation entries: item_callbacks "entry_hash m" "entry_compare m" 0 0 "entry_ok m K"
    "entry_key m" "\<lambda>p. key_hash (entry_key m p)"
  for m K
proof
  fix x y
  assume x: "entry_ok m K x"
  then show "get_hash (entry_hash m) 0 0 x = Inr (key_hash (entry_key m x))"
    by (simp add: get_hash_def entry_ok_def entry_hash_eq key_hash_def)
  assume y: "entry_ok m K y"
  show "\<exists>c. entry_compare m x y = Inr c" using x y by (simp add: entry_ok_def entry_compare_total)
  show "(key_hash (entry_key m x) = key_hash (entry_key m y) \<and> entry_compare m x y = Inr 0)
        = (entry_key m x = entry_key m y)"
    using x y key_universe_inj entry_compare_equal by (auto simp: entry_ok_def)
qed

section \<open>The index in changing memory\<close>

text \<open>Bytes of an entry: header and key. Two entries are apart when they are the same or share no byte.\<close>

definition entry_apart :: "memory \<Rightarrow> ptr \<Rightarrow> ptr \<Rightarrow> bool" where
  "entry_apart m p q \<longleftrightarrow> p = q \<or>
     disjoint_ranges p (header_size + length (entry_key m p)) q (header_size + length (entry_key m q))"

type_synonym index_state = "memory \<times> entry_hash_map_context"

definition index_map :: "index_state \<Rightarrow> u8 list \<Rightarrow> ptr option" where
  "index_map s = (case hashmap_of (snd s) of None \<Rightarrow> Map.empty | Some hm \<Rightarrow> hashmap_map (entry_key (fst s)) hm)"

definition index_wf :: "u8 list set \<Rightarrow> index_state \<Rightarrow> bool" where
  "index_wf K s \<longleftrightarrow>
     (case hashmap_of (snd s) of None \<Rightarrow> False
      | Some hm \<Rightarrow> hashmap_wf (entry_ok (fst s) K) (\<lambda>p. key_hash (entry_key (fst s) p)) (entry_key (fst s)) 0 0 hm) \<and>
     (\<forall>p\<in>ran (index_map s). \<forall>q\<in>ran (index_map s). entry_apart (fst s) p q)"

definition index_room :: "index_state \<Rightarrow> bool" where
  "index_room s \<longleftrightarrow> (\<forall>hm. hashmap_of (snd s) = Some hm \<longrightarrow> hashmap_small hm)"

definition index_valid :: "u8 list set \<Rightarrow> index_state \<Rightarrow> ptr \<Rightarrow> bool" where
  "index_valid K s p \<longleftrightarrow> entry_ok (fst s) K p \<and> (\<forall>q\<in>ran (index_map s). entry_apart (fst s) p q)"

lemma rh_table_cong:
  assumes T: "rh_table ok hv key n bs"
    and same: "\<forall>x\<in>items n bs. ok' x \<and> hv' x = hv x \<and> key' x = key x"
  shows "rh_table ok' hv' key' n bs"
proof -
  have same': "ok' (b_item (bs ! i))" "hv' (b_item (bs ! i)) = hv (b_item (bs ! i))"
    "key' (b_item (bs ! i)) = key (b_item (bs ! i))" if "i < n" "dib (bs ! i) \<noteq> 0" for i
    using same itemsI [OF that] by blast+
  have inj: "i = j" if "i < n" "j < n" "dib (bs ! i) \<noteq> 0" "dib (bs ! j) \<noteq> 0"
    "key' (b_item (bs ! i)) = key' (b_item (bs ! j))" for i j
    using rh_tableD(6) [OF T that(1-4)] that same' by simp
  show ?thesis
    unfolding rh_table_def
  proof (intro conjI allI impI)
    fix i j
    assume "i < n" "j < n" "dib (bs ! i) \<noteq> 0" "dib (bs ! j) \<noteq> 0"
      "key' (b_item (bs ! i)) = key' (b_item (bs ! j))"
    then show "i = j" by (rule inj)
  qed (simp_all add: rh_tableD(1-4) [OF T] rh_tableD(5) [OF T, simplified] same')
qed

lemma hashmap_wf_cong:
  assumes W: "hashmap_wf ok hv key s0 s1 hm"
    and same: "\<forall>x\<in>ran (hashmap_map key hm). ok' x \<and> hv' x = hv x \<and> key' x = key x"
  shows "hashmap_wf ok' hv' key' s0 s1 hm" and "hashmap_map key' hm = hashmap_map key hm"
proof -
  have items: "items (nbuckets hm) (buckets hm) = ran (hashmap_map key hm)"
    using hashmap_map_Some [OF W] by (auto simp: ran_def)
  show W': "hashmap_wf ok' hv' key' s0 s1 hm"
    using W rh_table_cong [OF hashmap_wfD(6) [OF W], of ok' hv' key'] same
    by (simp add: hashmap_wf_def items)
  show "hashmap_map key' hm = hashmap_map key hm"
  proof (intro ext)
    fix k
    have "hashmap_map key' hm k = Some x \<longleftrightarrow> hashmap_map key hm k = Some x" for x
      unfolding hashmap_map_Some [OF W] hashmap_map_Some [OF W'] items using same by auto
    then show "hashmap_map key' hm k = hashmap_map key hm k"
      by (subst option_eq_iff) blast
  qed
qed

text \<open>Clearing the active bit of an entry changes neither its key nor any entry apart from it.\<close>

definition inactive :: "memory \<Rightarrow> ptr \<Rightarrow> memory" where
  "inactive m p = put_header m p ((header_at m p)\<lparr>active := False\<rparr>)"

lemma deactivate_eq: "entry_readable m p \<Longrightarrow> deactivate m p = Inr (inactive m p)"
  by (simp add: deactivate_def inactive_def result_simps entry_readable_bounds)

lemma disjoint_ranges_sub:
  "disjoint_ranges p n q k \<Longrightarrow> i \<le> n \<Longrightarrow> j + l \<le> k \<Longrightarrow> disjoint_ranges p i (ptr_add q j) l"
  by (cases p; cases q) auto

lemma disjoint_ranges_key:
  "p \<noteq> Null \<Longrightarrow> disjoint_ranges p header_size (key_ptr p) n"
  by (cases p) (auto simp: key_ptr_def)

lemma ptr_add_0 [simp]: "ptr_add p 0 = p"
  by (cases p) auto

lemma length_entry_key: "entry_readable m p \<Longrightarrow> length (entry_key m p) = unat (key_size (header_at m p))"
  by (simp add: entry_key_def entry_readable_bounds)

lemma inactive_same:
  assumes "entry_readable m p" and "entry_readable m q" and "entry_apart m p q"
  shows "entry_key (inactive m p) q = entry_key m q" and "entry_readable (inactive m p) q"
    and "key_size (header_at (inactive m p) q) = key_size (header_at m q)"
proof -
  have p: "p \<noteq> Null" using entry_readable_bounds(1) [OF assms(1)] by simp
  have ks: "key_size (header_at (inactive m p) q) = key_size (header_at m q)"
  proof (cases "p = q")
    case True
    then show ?thesis using p by (simp add: inactive_def)
  next
    case False
    then have "disjoint_ranges p header_size q header_size"
      using assms(3) disjoint_ranges_sub [of p _ q _ header_size 0 header_size]
      by (simp add: entry_apart_def)
    then show ?thesis by (simp add: inactive_def header_at_put_other)
  qed
  then show "key_size (header_at (inactive m p) q) = key_size (header_at m q)" .
  show "entry_readable (inactive m p) q"
    using assms(2) ks by (simp add: entry_readable_def) (simp add: inactive_def)
  have "disjoint_ranges p header_size (key_ptr q) (unat (key_size (header_at m q)))"
  proof (cases "p = q")
    case True
    then show ?thesis using p disjoint_ranges_key by blast
  next
    case False
    then show ?thesis
      using assms(3) disjoint_ranges_sub [of p _ q _ header_size header_size]
      by (simp add: entry_apart_def key_ptr_def length_entry_key [OF assms(2)])
  qed
  then show "entry_key (inactive m p) q = entry_key m q"
    using ks unfolding entry_key_def by (simp add: inactive_def raw_bytes_put_other)
qed

text \<open>The contract of the index.\<close>

locale entry_index =
  fixes inv :: "'s \<Rightarrow> bool" and room :: "'s \<Rightarrow> bool" and valid :: "'s \<Rightarrow> 'p \<Rightarrow> bool"
    and key :: "'s \<Rightarrow> 'p \<Rightarrow> 'k" and apart :: "'s \<Rightarrow> 'p \<Rightarrow> 'p \<Rightarrow> bool"
    and lookup :: "'s \<Rightarrow> 'k \<Rightarrow> 'p option" and null :: 'p
    and get :: "'s \<Rightarrow> 'p \<Rightarrow> 'p result" and put :: "'a \<Rightarrow> 's \<Rightarrow> 'p \<Rightarrow> ('s \<times> bool) result"
    and del :: "'a \<Rightarrow> 's \<Rightarrow> 'p \<Rightarrow> 's result" and enough :: "'a \<Rightarrow> bool"
  assumes get_law: "inv s \<Longrightarrow> valid s p \<Longrightarrow>
      get s p = Inr (case lookup s (key s p) of None \<Rightarrow> null | Some q \<Rightarrow> q)"
    and put_law: "inv s \<Longrightarrow> room s \<Longrightarrow> valid s p \<Longrightarrow>
      \<exists>s' ok. put a s p = Inr (s', ok) \<and> (enough a \<longrightarrow> ok) \<and> inv s' \<and>
        lookup s' = (if ok then (lookup s)(key s p \<mapsto> p) else lookup s) \<and>
        (\<forall>q. valid s q \<longrightarrow> apart s q p \<longrightarrow> valid s' q \<and> key s' q = key s q)"
    and del_law: "inv s \<Longrightarrow> room s \<Longrightarrow> valid s p \<Longrightarrow>
      \<exists>s'. del a s p = Inr s' \<and> inv s' \<and> lookup s' = (lookup s)(key s p := None) \<and>
        (\<forall>q. valid s q \<longrightarrow> valid s' q \<and> key s' q = key s q)"
begin

text \<open>What a request sees after an insertion: the new entry under its key, the old ones elsewhere.\<close>

lemma get_after_put:
  assumes "inv s" "room s" "valid s p" "valid s q" "apart s q p" "put a s p = Inr (s', ok)"
  shows "get s' q = (if ok \<and> key s q = key s p then Inr p else get s q)"
proof -
  have "inv s'" "valid s' q" "key s' q = key s q"
    "lookup s' = (if ok then (lookup s)(key s p \<mapsto> p) else lookup s)"
    using put_law [OF assms(1-3), of a] assms(4-6) by auto
  then show ?thesis using get_law [of s' q] get_law [OF assms(1,4)] by simp
qed

lemma get_after_del:
  assumes "inv s" "room s" "valid s p" "valid s q" "del a s p = Inr s'"
  shows "get s' q = (if key s q = key s p then Inr null else get s q)"
proof -
  have "inv s'" "valid s' q" "key s' q = key s q" "lookup s' = (lookup s)(key s p := None)"
    using del_law [OF assms(1-3), of a] assms(4,5) by auto
  then show ?thesis using get_law [of s' q] get_law [OF assms(1,4)] by simp
qed

end

section \<open>The operations keep the contract\<close>

text \<open>Clearing active bits of entries of the index leaves the index and every valid entry as they are.\<close>

lemma entry_ok_readable: "entry_ok m K p \<Longrightarrow> entry_readable m p"
  by (simp add: entry_ok_def)

lemma entry_ok_inactive:
  "entry_ok m K p \<Longrightarrow> entry_ok m K q \<Longrightarrow> entry_apart m p q \<Longrightarrow> entry_ok (inactive m p) K q"
  by (simp add: entry_ok_def inactive_same)

lemma entry_apart_inactive:
  "entry_readable m p \<Longrightarrow> entry_readable m q \<Longrightarrow> entry_readable m r \<Longrightarrow> entry_apart m p q \<Longrightarrow>
   entry_apart m p r \<Longrightarrow> entry_apart (inactive m p) q r = entry_apart m q r"
  by (simp add: entry_apart_def inactive_same)

lemma entry_apart_sym: "entry_apart m p q \<Longrightarrow> entry_apart m q p"
  by (auto simp: entry_apart_def disjoint_ranges_sym)

lemma index_wfD:
  assumes "index_wf K s"
  obtains hm where "hashmap_of (snd s) = Some hm"
    "hashmap_wf (entry_ok (fst s) K) (\<lambda>p. key_hash (entry_key (fst s) p)) (entry_key (fst s)) 0 0 hm"
    "index_map s = hashmap_map (entry_key (fst s)) hm"
  using assms by (auto simp: index_wf_def index_map_def split: option.splits)

lemma index_items:
  assumes "index_wf K s" and "index_map s k = Some p"
  shows "entry_ok (fst s) K p" and "entry_key (fst s) p = k"
proof -
  obtain hm where W: "hashmap_wf (entry_ok (fst s) K) (\<lambda>p. key_hash (entry_key (fst s) p)) (entry_key (fst s)) 0 0 hm"
    "index_map s = hashmap_map (entry_key (fst s)) hm"
    using index_wfD [OF assms(1)] by metis
  then have "p \<in> items (nbuckets hm) (buckets hm)" "entry_key (fst s) p = k"
    using assms(2) hashmap_map_Some [OF W(1)] by auto
  then show "entry_ok (fst s) K p" "entry_key (fst s) p = k"
    using rh_tableD(3) [OF hashmap_wfD(6) [OF W(1)]] by (auto elim: itemsE)
qed

text \<open>
  What \<open>put\<close> and \<open>delete\<close> share: the table changed to \<open>hm\<close>, then the active bit of the entry \<open>p\<close>
  that lost its place was cleared.
\<close>

lemma index_deactivated:
  assumes W: "hashmap_wf (entry_ok m K) (\<lambda>p. key_hash (entry_key m p)) (entry_key m) 0 0 hm"
    and apart: "\<forall>q\<in>insert p (ran (hashmap_map (entry_key m) hm)).
                \<forall>r\<in>insert p (ran (hashmap_map (entry_key m) hm)). entry_apart m q r"
    and p: "entry_ok m K p"
  defines "s \<equiv> (inactive m p, \<lparr>hashmap_of = Some hm\<rparr>)"
  shows "index_wf K s" and "index_map s = hashmap_map (entry_key m) hm"
proof -
  have ok: "entry_ok m K q" if "q \<in> ran (hashmap_map (entry_key m) hm)" for q
    using index_items(1) [of K "(m, \<lparr>hashmap_of = Some hm\<rparr>)"] that W apart
    by (auto simp: index_wf_def index_map_def ran_def)
  have readable: "entry_readable m p" "\<And>q. q \<in> ran (hashmap_map (entry_key m) hm) \<Longrightarrow> entry_readable m q"
    using ok p entry_ok_readable by blast+
  have same: "\<forall>q\<in>ran (hashmap_map (entry_key m) hm). entry_ok (inactive m p) K q \<and>
      key_hash (entry_key (inactive m p) q) = key_hash (entry_key m q) \<and>
      entry_key (inactive m p) q = entry_key m q"
    using ok apart p readable by (auto intro: entry_ok_inactive simp: inactive_same)
  note cong = hashmap_wf_cong [OF W same]
  show M: "index_map s = hashmap_map (entry_key m) hm"
    using cong(2) by (simp add: s_def index_map_def)
  have "entry_apart (inactive m p) q r"
    if "q \<in> ran (hashmap_map (entry_key m) hm)" "r \<in> ran (hashmap_map (entry_key m) hm)" for q r
    using that readable apart by (subst entry_apart_inactive) auto
  then show "index_wf K s"
    using cong(1) M by (simp add: index_wf_def) (simp add: s_def)
qed

lemma index_valid_deactivated:
  assumes "entry_ok m K p" and "entry_ok m K q" and "entry_apart m p q"
    and "index_map s = M" and "fst s = inactive m p"
    and "\<forall>r\<in>ran M. entry_ok m K r \<and> entry_apart m p r \<and> entry_apart m q r"
  shows "index_valid K s q \<and> entry_key (fst s) q = entry_key m q"
proof -
  have r: "entry_readable m p" "entry_readable m q" "\<And>r. r \<in> ran M \<Longrightarrow> entry_readable m r"
    using assms(1,2,6) entry_ok_readable by blast+
  then have "entry_apart (inactive m p) q r" if "r \<in> ran M" for r
    using assms(3,6) that by (subst entry_apart_inactive) auto
  then show ?thesis
    using assms r by (auto simp: index_valid_def inactive_same intro: entry_ok_inactive)
qed

lemma get_index:
  assumes "index_wf K s" and "index_valid K s p"
  shows "entry_hash_map_get (fst s) (snd s) p =
           Inr (case index_map s (entry_key (fst s) p) of None \<Rightarrow> Null | Some q \<Rightarrow> q)"
proof -
  obtain hm where hm: "hashmap_of (snd s) = Some hm"
    "hashmap_wf (entry_ok (fst s) K) (\<lambda>p. key_hash (entry_key (fst s) p)) (entry_key (fst s)) 0 0 hm"
    "index_map s = hashmap_map (entry_key (fst s)) hm"
    using assms(1) by (rule index_wfD)
  have "entry_ok (fst s) K p" using assms(2) by (simp add: index_valid_def)
  then show ?thesis
    using entries.get_correct [OF hm(2)] hm(1,3)
    by (simp add: entry_hash_map_get_def context_hashmap_def split: option.split)
qed

text \<open>The table that \<open>put\<close> or \<open>delete\<close> leaves, and the entry it replaced if any.\<close>

definition index_after :: "memory \<Rightarrow> ptr hashmap \<Rightarrow> ptr option \<Rightarrow> index_state" where
  "index_after m hm old =
     (case old of None \<Rightarrow> m | Some q \<Rightarrow> inactive m q, \<lparr>hashmap_of = Some hm\<rparr>)"

lemma index_after_correct:
  assumes s: "index_wf K (m, c)" and p: "index_valid K (m, c) p"
    and W: "hashmap_wf (entry_ok m K) (\<lambda>p. key_hash (entry_key m p)) (entry_key m) 0 0 hm"
    and new: "ran (hashmap_map (entry_key m) hm) \<subseteq> insert p (ran (index_map (m, c)))"
    and old: "set_option old \<subseteq> ran (index_map (m, c))"
  shows "index_wf K (index_after m hm old)"
    and "index_map (index_after m hm old) = hashmap_map (entry_key m) hm"
    and "index_valid K (m, c) q \<Longrightarrow>
         p \<in> ran (hashmap_map (entry_key m) hm) \<longrightarrow> entry_apart m q p \<Longrightarrow>
         index_valid K (index_after m hm old) q \<and>
         entry_key (fst (index_after m hm old)) q = entry_key m q"
proof -
  let ?M = "ran (index_map (m, c))"
  have ok: "entry_ok m K r" if "r \<in> insert p ?M" for r
    using that index_items(1) [OF s] p by (auto simp: ran_def index_valid_def)
  have ap: "entry_apart m r q" if "r \<in> insert p ?M" "q \<in> insert p ?M" for r q
    using that s p by (auto simp: index_wf_def index_valid_def entry_apart_def disjoint_ranges_sym)
  have "index_wf K (index_after m hm old) \<and> index_map (index_after m hm old) = hashmap_map (entry_key m) hm"
  proof (cases old)
    case None
    have "\<forall>r\<in>ran (hashmap_map (entry_key m) hm). \<forall>t\<in>ran (hashmap_map (entry_key m) hm). entry_apart m r t"
      using new ap by blast
    then show ?thesis
      using None W by (simp add: index_wf_def index_map_def index_after_def)
  next
    case (Some q)
    then have q: "q \<in> ?M" using old by simp
    have "\<forall>r\<in>insert q (ran (hashmap_map (entry_key m) hm)).
        \<forall>t\<in>insert q (ran (hashmap_map (entry_key m) hm)). entry_apart m r t"
      using q new ap by blast
    then show ?thesis
      using index_deactivated [OF W _ ok, of q] q Some by (simp add: index_after_def)
  qed
  then show wf: "index_wf K (index_after m hm old)"
    and mp: "index_map (index_after m hm old) = hashmap_map (entry_key m) hm"
    by blast+
  assume q: "index_valid K (m, c) q"
    and qp: "p \<in> ran (hashmap_map (entry_key m) hm) \<longrightarrow> entry_apart m q p"
  have qap: "entry_apart m q r" if "r \<in> ran (hashmap_map (entry_key m) hm)" for r
    using that new q qp by (auto simp: index_valid_def)
  have qok: "entry_ok m K q" using q by (simp add: index_valid_def)
  show "index_valid K (index_after m hm old) q \<and>
        entry_key (fst (index_after m hm old)) q = entry_key m q"
  proof (cases old)
    case None
    then show ?thesis using qok qap mp by (simp add: index_valid_def index_after_def)
  next
    case (Some r)
    then have r: "r \<in> ?M" using old by simp
    have "entry_apart m r q" using q r by (auto simp: index_valid_def entry_apart_sym)
    then show ?thesis
      using Some new ok ap qap r qok mp
      by (intro index_valid_deactivated [of m K r]) (auto simp: index_after_def)
  qed
qed

definition index_put :: "bool \<times> bool \<Rightarrow> index_state \<Rightarrow> ptr \<Rightarrow> (index_state \<times> bool) result" where
  "index_put allocs s p =
     bindE (entry_hash_map_put allocs (fst s) (snd s) p) (\<lambda>(m, c, r). Inr ((m, c), r = 0))"

lemma put_index_memory:
  assumes s: "index_wf K s" and room: "index_room s" and p: "index_valid K s p"
  shows "\<exists>s' ok. index_put allocs s p = Inr (s', ok) \<and> (fst allocs \<and> snd allocs \<longrightarrow> ok) \<and> index_wf K s' \<and>
           index_map s' = (if ok then (index_map s)(entry_key (fst s) p \<mapsto> p) else index_map s) \<and>
           (\<forall>q. index_valid K s q \<longrightarrow> entry_apart (fst s) q p \<longrightarrow>
              index_valid K s' q \<and> entry_key (fst s') q = entry_key (fst s) q) \<and>
           (fst s' = fst s \<or> (\<exists>q\<in>ran (index_map s). fst s' = inactive (fst s) q))"
proof -
  obtain m c where mc: "s = (m, c)" by (cases s)
  obtain hm where hm: "hashmap_of c = Some hm"
    "hashmap_wf (entry_ok m K) (\<lambda>p. key_hash (entry_key m p)) (entry_key m) 0 0 hm"
    "index_map s = hashmap_map (entry_key m) hm"
    using index_wfD [OF s] mc by auto
  have pok: "entry_ok m K p" using p mc by (simp add: index_valid_def)
  have small: "hashmap_small hm" using room hm(1) mc by (simp add: index_room_def)
  obtain hm' old where set: "hashmap_set (entry_hash m) (entry_compare m) allocs hm p = Inr (hm', old)"
    "hashmap_wf (entry_ok m K) (\<lambda>p. key_hash (entry_key m p)) (entry_key m) 0 0 hm'"
    "oom hm' = (map_count hm = growat hm \<and> \<not> (fst allocs \<and> snd allocs))"
    "old = (if oom hm' then None else index_map s (entry_key m p))"
    "hashmap_map (entry_key m) hm' =
       (if oom hm' then index_map s else (index_map s)(entry_key m p \<mapsto> p))"
    unfolding hm(3) using entries.set_correct [OF hm(2) pok small, of allocs] by blast
  have old: "set_option old \<subseteq> ran (index_map s)" using set(4) by (auto simp: ran_def)
  have new: "ran (hashmap_map (entry_key m) hm') \<subseteq> insert p (ran (index_map s))"
    using set(5) by (auto simp: ran_def split: if_splits)
  note after = index_after_correct [OF s [unfolded mc] p [unfolded mc] set(2) new [unfolded mc] old [unfolded mc]]
  have "entry_readable m q" if "old = Some q" for q
    using old that index_items(1) [OF s] mc entry_ok_readable by (fastforce simp: ran_def)
  moreover have "old \<noteq> None \<Longrightarrow> \<not> oom hm'" using set(4) by (auto split: if_splits)
  ultimately have "index_put allocs s p = Inr (index_after m hm' old, \<not> oom hm')"
    using hm(1) set(1) mc
    by (cases old) (auto simp: index_put_def entry_hash_map_put_def context_hashmap_def
        deactivate_eq index_after_def hashmap_oom_def Let_def)
  moreover have "fst (index_after m hm' old) = m \<or> (\<exists>q\<in>ran (index_map s). fst (index_after m hm' old) = inactive m q)"
    using old by (cases old) (auto simp: index_after_def)
  ultimately show ?thesis
    using after set(3,5) mc by auto
qed

lemma put_index:
  assumes "index_wf K s" and "index_room s" and "index_valid K s p"
  shows "\<exists>s' ok. index_put allocs s p = Inr (s', ok) \<and> (fst allocs \<and> snd allocs \<longrightarrow> ok) \<and> index_wf K s' \<and>
           index_map s' = (if ok then (index_map s)(entry_key (fst s) p \<mapsto> p) else index_map s) \<and>
           (\<forall>q. index_valid K s q \<longrightarrow> entry_apart (fst s) q p \<longrightarrow>
              index_valid K s' q \<and> entry_key (fst s') q = entry_key (fst s) q)"
  using put_index_memory [OF assms, of allocs] by blast

lemma del_index_memory:
  assumes s: "index_wf K s" and room: "index_room s" and p: "index_valid K s p"
  shows "\<exists>s'. entry_hash_map_delete allocs (fst s) (snd s) p = Inr s' \<and> index_wf K s' \<and>
           index_map s' = (index_map s)(entry_key (fst s) p := None) \<and>
           (\<forall>q. index_valid K s q \<longrightarrow> index_valid K s' q \<and> entry_key (fst s') q = entry_key (fst s) q) \<and>
           (fst s' = fst s \<or> (\<exists>q\<in>ran (index_map s). fst s' = inactive (fst s) q))"
proof -
  obtain m c where mc: "s = (m, c)" by (cases s)
  obtain hm where hm: "hashmap_of c = Some hm"
    "hashmap_wf (entry_ok m K) (\<lambda>p. key_hash (entry_key m p)) (entry_key m) 0 0 hm"
    "index_map s = hashmap_map (entry_key m) hm"
    using index_wfD [OF s] mc by auto
  have pok: "entry_ok m K p" using p mc by (simp add: index_valid_def)
  have small: "hashmap_small hm" using room hm(1) mc by (simp add: index_room_def)
  define old where "old = index_map s (entry_key m p)"
  obtain hm' where del: "hashmap_delete (entry_hash m) (entry_compare m) allocs hm p = Inr (hm', old)"
    "hashmap_wf (entry_ok m K) (\<lambda>p. key_hash (entry_key m p)) (entry_key m) 0 0 hm'"
    "hashmap_map (entry_key m) hm' = (index_map s)(entry_key m p := None)"
    unfolding hm(3) old_def using entries.delete_correct [OF hm(2) pok small, of allocs] by blast
  have old: "set_option old \<subseteq> ran (index_map s)" by (auto simp: old_def ran_def)
  have new: "ran (hashmap_map (entry_key m) hm') \<subseteq> insert p (ran (index_map s))"
    using del(3) by (auto simp: ran_def split: if_splits)
  note after = index_after_correct [OF s [unfolded mc] p [unfolded mc] del(2) new [unfolded mc] old [unfolded mc]]
  have apart: "entry_apart m q p" if "index_valid K s q" "p \<in> ran (hashmap_map (entry_key m) hm')" for q
    using that del(3) mc by (auto simp: index_valid_def ran_def split: if_splits)
  have "entry_readable m q" if "old = Some q" for q
    using old that index_items(1) [OF s] mc entry_ok_readable by (fastforce simp: ran_def)
  then have "entry_hash_map_delete allocs (fst s) (snd s) p = Inr (index_after m hm' old)"
    using hm(1) del(1) mc
    by (cases old) (auto simp: entry_hash_map_delete_def context_hashmap_def deactivate_eq
        index_after_def Let_def)
  moreover have "fst (index_after m hm' old) = m \<or> (\<exists>q\<in>ran (index_map s). fst (index_after m hm' old) = inactive m q)"
    using old by (cases old) (auto simp: index_after_def)
  ultimately show ?thesis
    using after apart del(3) mc by auto
qed

lemma del_index:
  assumes "index_wf K s" and "index_room s" and "index_valid K s p"
  shows "\<exists>s'. entry_hash_map_delete allocs (fst s) (snd s) p = Inr s' \<and> index_wf K s' \<and>
           index_map s' = (index_map s)(entry_key (fst s) p := None) \<and>
           (\<forall>q. index_valid K s q \<longrightarrow> index_valid K s' q \<and> entry_key (fst s') q = entry_key (fst s) q)"
  using del_index_memory [OF assms, of allocs] by blast

interpretation index: entry_index "index_wf K" index_room "index_valid K" "\<lambda>s. entry_key (fst s)"
    "\<lambda>s. entry_apart (fst s)" index_map Null "\<lambda>s. entry_hash_map_get (fst s) (snd s)" index_put
    "\<lambda>allocs s. entry_hash_map_delete allocs (fst s) (snd s)" "\<lambda>allocs. fst allocs \<and> snd allocs"
  for K
  by unfold_locales (rule get_index put_index del_index; assumption)+

section \<open>The comparison itself\<close>

text \<open>Without zero bytes, \<^verbatim>\<open>strncmp\<close> over \<open>n\<close> bytes is 0 only on equal bytes.\<close>

lemma strncmp_zero:
  "in_bounds m p n \<Longrightarrow> in_bounds m q n \<Longrightarrow> 0 \<notin> set (raw_bytes m p n) \<Longrightarrow>
   strncmp m p q n = Inr 0 \<Longrightarrow> raw_bytes m p n = raw_bytes m q n"
proof (induction n arbitrary: p q)
  case 0
  then show ?case by (cases p; cases q) auto
next
  case (Suc n)
  have b: "in_bounds m p 1" "in_bounds m q 1" using Suc.prems by (auto elim: in_bounds_mono)
  moreover have "in_bounds m (ptr_add p 1) n" "in_bounds m (ptr_add q 1) n"
    using Suc.prems by (auto intro!: in_bounds_add)
  moreover have p: "raw_bytes m p (Suc n) = hd (raw_bytes m p 1) # raw_bytes m (ptr_add p 1) n"
    and q: "raw_bytes m q (Suc n) = hd (raw_bytes m q 1) # raw_bytes m (ptr_add q 1) n"
    using raw_bytes_Suc [of p m n] raw_bytes_Suc [of q m n] b by auto
  moreover have "0 \<notin> set (raw_bytes m (ptr_add p 1) n)" "hd (raw_bytes m p 1) \<noteq> 0"
    using Suc.prems(3) p by auto
  ultimately show ?case
    using Suc.prems(4) Suc.IH [of "ptr_add p 1" "ptr_add q 1"]
    by (auto simp: load_byte_def result_simps simp flip: word_uint_eq_iff split: if_splits)
qed

section \<open>Properties\<close>

text \<open>A memory with two entries that have the key \<^verbatim>\<open>"a"\<close>, for the witnesses.\<close>

definition two_entries :: memory where
  "two_entries = \<lparr>next_block = 2, block_size = [0 \<mapsto> 17, 1 \<mapsto> 17],
     bytes = (\<lambda>b i. if i = 12 then 1 else if i = 16 then 97 else 0)\<rparr>"

lemma two_entries_header:
  "key_size (header_at two_entries (Ptr b 0)) = 1"
  by (simp add: header_at_def two_entries_def header_size_def decode_header_def Let_def upt_rec numeral_2_eq_2)

lemma two_entries_key:
  "b < 2 \<Longrightarrow> entry_readable two_entries (Ptr b 0)" "entry_key two_entries (Ptr b 0) = [97]"
  by (auto simp: entry_readable_def entry_key_def two_entries_header key_ptr_def)
     (auto simp: two_entries_def header_size_def)

lemma two_entries_index:
  "\<exists>c. entry_hash_map_open (True, True) = Inr (c, 0) \<and> index_wf {[97]} (two_entries, c) \<and>
       index_room (two_entries, c) \<and> index_map (two_entries, c) = Map.empty \<and>
       index_valid {[97]} (two_entries, c) (Ptr 0 0) \<and> index_valid {[97]} (two_entries, c) (Ptr 1 0)"
proof -
  obtain hm where hm: "hashmap_new (True, True) 0 0 0 = Inr (Some hm)"
    "hashmap_wf (entry_ok two_entries {[97]}) (\<lambda>p. key_hash (entry_key two_entries p)) (entry_key two_entries) 0 0 hm"
    "hashmap_small hm" "hashmap_map (entry_key two_entries) hm = Map.empty"
    using hashmap_new_0 by blast
  have "entry_ok two_entries {[97]} (Ptr 0 0)" "entry_ok two_entries {[97]} (Ptr 1 0)"
    by (simp_all add: entry_ok_def two_entries_key key_universe_def)
  then show ?thesis
    using hm by (intro exI [of _ "\<lparr>hashmap_of = Some hm\<rparr>"])
      (simp add: entry_hash_map_open_def index_wf_def index_map_def index_room_def index_valid_def)
qed

text \<open>C12. After a successful \<open>entry_hash_map_put\<close> of an entry, \<open>entry_hash_map_get\<close> with any request
  header of the same key returns that entry, and every other key is looked up as before; when both
  allocations that a growing table needs succeed, the put succeeds.\<close>

theorem entry_put_then_get:
  assumes "index_wf K s" and "index_room s" and "index_valid K s p" and "index_valid K s q"
    and "entry_apart (fst s) q p"
  shows "\<exists>s' ok. index_put allocs s p = Inr (s', ok) \<and> (fst allocs \<and> snd allocs \<longrightarrow> ok) \<and> index_wf K s' \<and>
           entry_hash_map_get (fst s') (snd s') q =
             (if ok \<and> entry_key (fst s) q = entry_key (fst s) p then Inr p
              else entry_hash_map_get (fst s) (snd s) q)"
  using put_index [OF assms(1-3), of allocs] index.get_after_put [OF assms, of allocs] by metis

theorem entry_put_then_get_witness:
  "\<exists>c s'. entry_hash_map_open (True, True) = Inr (c, 0) \<and>
     index_put (True, True) (two_entries, c) (Ptr 0 0) = Inr (s', True) \<and>
     entry_hash_map_get (fst s') (snd s') (Ptr 1 0) = Inr (Ptr 0 0)"
proof -
  obtain c where c: "entry_hash_map_open (True, True) = Inr (c, 0)" "index_wf {[97]} (two_entries, c)"
    "index_room (two_entries, c)" "index_valid {[97]} (two_entries, c) (Ptr 0 0)"
    "index_valid {[97]} (two_entries, c) (Ptr 1 0)"
    using two_entries_index by blast
  have "entry_apart (fst (two_entries, c)) (Ptr 1 0) (Ptr 0 0)" by (simp add: entry_apart_def)
  from entry_put_then_get [OF c(2-5) this, of "(True, True)"]
  obtain s' where "index_put (True, True) (two_entries, c) (Ptr 0 0) = Inr (s', True)"
    "entry_hash_map_get (fst s') (snd s') (Ptr 1 0) = Inr (Ptr 0 0)"
    by (auto simp: two_entries_key)
  then show ?thesis using c(1) by blast
qed

text \<open>C13. After \<open>entry_hash_map_delete\<close> no request header with the deleted key finds an entry, and
  every other key is looked up as before. Deleting never fails, even when shrinking cannot allocate.\<close>

theorem entry_delete_then_get:
  assumes "index_wf K s" and "index_room s" and "index_valid K s p" and "index_valid K s q"
  shows "\<exists>s'. entry_hash_map_delete allocs (fst s) (snd s) p = Inr s' \<and> index_wf K s' \<and>
           entry_hash_map_get (fst s') (snd s') q =
             (if entry_key (fst s) q = entry_key (fst s) p then Inr Null
              else entry_hash_map_get (fst s) (snd s) q)"
  using del_index [OF assms(1-3), of allocs] index.get_after_del [OF assms, of allocs] by metis

theorem entry_delete_then_get_witness:
  "\<exists>c s'. entry_hash_map_open (True, True) = Inr (c, 0) \<and>
     entry_hash_map_delete (True, True) two_entries c (Ptr 0 0) = Inr s' \<and>
     entry_hash_map_get (fst s') (snd s') (Ptr 1 0) = Inr Null"
proof -
  obtain c where c: "entry_hash_map_open (True, True) = Inr (c, 0)" "index_wf {[97]} (two_entries, c)"
    "index_room (two_entries, c)" "index_valid {[97]} (two_entries, c) (Ptr 0 0)"
    "index_valid {[97]} (two_entries, c) (Ptr 1 0)"
    using two_entries_index by blast
  from entry_delete_then_get [OF c(2-5), of "(True, True)"] c(1) show ?thesis
    by (auto simp: two_entries_key)
qed

text \<open>C18. \<open>entry_compare\<close> never faults on readable entries. On keys of the same length without zero bytes
  it is 0 exactly when the keys are equal, but it is also 0 whenever the first key is shorter than the
  second: the table relies on the 48-bit hash to keep such keys apart.\<close>

theorem entry_compare_meaning:
  assumes "entry_readable m p" and "entry_readable m q"
  shows "\<exists>c. entry_compare m p q = Inr c \<and>
           (length (entry_key m p) < length (entry_key m q) \<longrightarrow> c = 0) \<and>
           (length (entry_key m q) < length (entry_key m p) \<longrightarrow> c = 1) \<and>
           (length (entry_key m p) = length (entry_key m q) \<longrightarrow> 0 \<notin> set (entry_key m p) \<longrightarrow>
              (c = 0) = (entry_key m p = entry_key m q))"
proof -
  let ?hp = "header_at m p" and ?hq = "header_at m q"
  note b = entry_readable_bounds [OF assms(1)] entry_readable_bounds [OF assms(2)]
  note len = length_entry_key [OF assms(1)] length_entry_key [OF assms(2)]
  show ?thesis
  proof (cases "key_size ?hp = key_size ?hq")
    case True
    have "c = 0" if "entry_compare m p q = Inr c" "entry_key m p = entry_key m q" for c
      using entry_compare_equal [OF assms that(2)] that(1) by simp
    moreover have "entry_key m p = entry_key m q"
      if "entry_compare m p q = Inr 0" "0 \<notin> set (entry_key m p)"
      using that True b strncmp_zero [of m "key_ptr p" "unat (key_size ?hp)" "key_ptr q"]
      by (simp add: entry_compare_def result_simps entry_key_def)
    ultimately show ?thesis
      using entry_compare_total [OF assms] len True by auto
  next
    case False
    then show ?thesis
      using len b by (auto simp: entry_compare_def result_simps word_less_nat_alt word_unat_eq_iff)
  qed
qed

theorem entry_compare_meaning_witness:
  "entry_compare two_entries (Ptr 0 0) (Ptr 1 0) = Inr 0"
  using entry_compare_meaning [of two_entries "Ptr 0 0" "Ptr 1 0"] two_entries_key by auto

end
