(* ===== verification/MemoryQueue.thy ===== *)
theory MemoryQueue
  imports EntryHashMap
begin

text \<open>
  \<^verbatim>\<open>src/memory_queue.c\<close>: the ring buffer that holds the entries. Entries are allocated one behind
  the other; when one does not fit before the end, the entry that would start at \<open>write_index\<close> is
  marked \<open>end_of_buffer\<close> and allocation goes on at offset 0. Room is made by evicting the oldest
  entries, and a locked entry stops that. The indices are \<^verbatim>\<open>uint64_t\<close> values kept as \<open>nat\<close> with
  their wrap-around (\<open>add64\<close>, \<open>sub64\<close>), the size of an entry is the \<^verbatim>\<open>uint32_t\<close> the code computes
  (\<open>wrap32\<close>). Where the code accesses only bit fields of a header, as for the end mark, the model
  accesses only their eight bytes.
\<close>

section \<open>State\<close>

datatype memory_queue_result =
    MEMORY_QUEUE_SUCCESS
  | MEMORY_QUEUE_NONE
  | MEMORY_QUEUE_OUT_OF_MEMORY
  | MEMORY_QUEUE_WRITE_BLOCKED

record memory_queue_context =
  buffer :: ptr
  entry_count :: nat
  occupied_bytes :: nat
  capacity_bytes :: nat
  read_index :: nat
  write_index :: nat

text \<open>The static state the operations work on: C memory and the two contexts.\<close>

record store =
  mem :: memory
  index_ctx :: entry_hash_map_context
  queue :: memory_queue_context

abbreviation entry_at :: "memory_queue_context \<Rightarrow> nat \<Rightarrow> ptr" where
  "entry_at q i \<equiv> ptr_add (buffer q) i"

definition total_size :: "nat \<Rightarrow> nat \<Rightarrow> nat" where
  "total_size k v = wrap32 (header_size + k + v)"

abbreviation entry_size :: "entry_header \<Rightarrow> nat" where
  "entry_size h \<equiv> header_size + unat (key_size h) + unat (value_size h)"

section \<open>Operations\<close>

text \<open>\<open>ok\<close> tells whether \<^verbatim>\<open>malloc\<close> succeeds. On failure only \<^verbatim>\<open>context.buffer\<close> is written.\<close>

definition memory_queue_open :: "nat \<Rightarrow> bool \<Rightarrow> store \<Rightarrow> store \<times> u8" where
  "memory_queue_open capacity ok st =
     (let (m, p) = malloc_block (mem st) capacity ok;
          st = st\<lparr>mem := m, queue := (queue st)\<lparr>buffer := p\<rparr>\<rparr>
      in if p = Null then (st, 1)
         else (st\<lparr>queue := \<lparr>buffer = p, entry_count = 0, occupied_bytes = 0,
                            capacity_bytes = capacity, read_index = 0, write_index = 0\<rparr>\<rparr>, 0))"

definition memory_queue_close :: "store \<Rightarrow> store result" where
  "memory_queue_close st =
     (if buffer (queue st) \<noteq> Null
      then bindE (free_block (mem st) (buffer (queue st))) (\<lambda>m. Inr (st\<lparr>mem := m\<rparr>))
      else Inr st)"

text \<open>\<open>entry_hash_map_delete\<close> on the store; \<open>allocs\<close> is what its shrinking allocations give.\<close>

definition store_delete :: "bool \<times> bool \<Rightarrow> store \<Rightarrow> ptr \<Rightarrow> store result" where
  "store_delete allocs st p =
     bindE (entry_hash_map_delete allocs (mem st) (index_ctx st) p) (\<lambda>(m, c).
       Inr (st\<lparr>mem := m, index_ctx := c\<rparr>))"

definition remove_entry :: "bool \<times> bool \<Rightarrow> store \<Rightarrow> ptr \<Rightarrow> (store \<times> memory_queue_result) result" where
  "remove_entry allocs st entry_header =
     bindE (load_header (mem st) entry_header) (\<lambda>h.
       let need = total_size (unat (key_size h)) (unat (value_size h)) in
       if locks h \<noteq> 0 then Inr (st, MEMORY_QUEUE_WRITE_BLOCKED)
       else
         let q = queue st;
             st = st\<lparr>queue := q\<lparr>entry_count := sub64 (entry_count q) 1,
                                 read_index := add64 (read_index q) need,
                                 occupied_bytes := sub64 (occupied_bytes q) need\<rparr>\<rparr> in
         bindE (if active h then store_delete allocs st entry_header else Inr st) (\<lambda>st.
         bindE (load_bit_fields (mem st) (entry_at (queue st) (read_index (queue st)))) (\<lambda>f.
           Inr (if end_of_buffer f then st\<lparr>queue := (queue st)\<lparr>read_index := 0\<rparr>\<rparr> else st,
                MEMORY_QUEUE_SUCCESS))))"

definition force_clean :: "bool \<times> bool \<Rightarrow> store \<Rightarrow> (store \<times> memory_queue_result) result" where
  "force_clean allocs st =
     bindE (assertE (entry_count (queue st) > 0)) (\<lambda>_.
       let entry_header = entry_at (queue st) (read_index (queue st)) in
       bindE (remove_entry allocs st entry_header) (\<lambda>(st, result).
         if result = MEMORY_QUEUE_WRITE_BLOCKED then
           bindE (load_bit_fields (mem st) entry_header) (\<lambda>f.
             if active f then
               bindE (store_bit_fields (mem st) entry_header (f\<lparr>active := False\<rparr>)) (\<lambda>m.
               bindE (store_delete allocs (st\<lparr>mem := m\<rparr>) entry_header) (\<lambda>st.
                 Inr (st, result)))
             else Inr (st, result))
         else Inr (st, result)))"

lemma store_delete_queue: "store_delete allocs st p = Inr st' \<Longrightarrow> queue st' = queue st"
  by (auto simp: store_delete_def)

lemma remove_entry_count:
  assumes "remove_entry allocs st p = Inr (st', MEMORY_QUEUE_SUCCESS)"
  shows "entry_count (queue st') = sub64 (entry_count (queue st)) 1"
  using assms by (auto simp: remove_entry_def Let_def dest!: store_delete_queue
      elim!: bindE_InrE split: if_splits)

lemma force_clean_count:
  assumes "force_clean allocs st = Inr (st', MEMORY_QUEUE_SUCCESS)"
  shows "entry_count (queue st') < entry_count (queue st)"
proof -
  have "entry_count (queue st') = sub64 (entry_count (queue st)) 1" "0 < entry_count (queue st)"
    using assms remove_entry_count [of allocs]
    by (auto simp: force_clean_def Let_def assertE_def elim!: bindE_InrE split: if_splits prod.splits)
  moreover have "sub64 n 1 < n" if pos: "0 < n" for n
  proof -
    obtain k where "n = Suc k" using pos by (cases n) auto
    then have "n + (2 ^ 64 - 1 mod 2 ^ 64) = k + 2 ^ 64" "n - 1 = k" by simp_all
    then have "sub64 n 1 = (n - 1) mod 2 ^ 64" unfolding sub64_def by (metis mod_add_self2)
    also have "\<dots> \<le> n - 1" by (rule mod_less_eq_dividend)
    finally show ?thesis using pos by simp
  qed
  ultimately show ?thesis by simp
qed

text \<open>The two loops \<^verbatim>\<open>while (...) { result = force_clean(); ... }\<close> of \<open>memory_queue_allocate\<close>.\<close>

function clean_while :: "(memory_queue_context \<Rightarrow> bool) \<Rightarrow> bool \<times> bool \<Rightarrow> store \<Rightarrow>
    (store \<times> memory_queue_result) result" where
  "clean_while cond allocs st =
     (if cond (queue st) then
        bindE (force_clean allocs st) (\<lambda>r.
          if snd r \<noteq> MEMORY_QUEUE_SUCCESS then Inr r else clean_while cond allocs (fst r))
      else Inr (st, MEMORY_QUEUE_SUCCESS))"
  by pat_completeness auto
termination
proof (relation "measure (\<lambda>(cond, allocs, st). entry_count (queue st))")
  fix cond allocs st r
  assume "cond (queue st)" "force_clean allocs st = Inr r" "\<not> snd r \<noteq> MEMORY_QUEUE_SUCCESS"
  then have "entry_count (queue (fst r)) < entry_count (queue st)"
    by (intro force_clean_count [of allocs]) (cases r, simp)
  then show "((cond, allocs, fst r), cond, allocs, st) \<in> measure (\<lambda>(cond, allocs, st). entry_count (queue st))"
    by simp
qed simp

declare clean_while.simps [simp del]

text \<open>
  The part of \<open>memory_queue_allocate\<close> under \<^verbatim>\<open>if (write_index + total_size + sizeof(entry_header_t)
  >= capacity_bytes)\<close>: empty what is in front of the write index, mark the end, go to offset 0.
\<close>

definition wrap_around :: "bool \<times> bool \<Rightarrow> store \<Rightarrow> ptr \<Rightarrow> (store \<times> memory_queue_result \<times> ptr) result" where
  "wrap_around allocs st entry_header =
     bindE (clean_while (\<lambda>q. write_index q < read_index q) allocs st) (\<lambda>(st, result).
       if result \<noteq> MEMORY_QUEUE_SUCCESS then Inr (st, result, entry_header)
       else
         bindE (load_bit_fields (mem st) entry_header) (\<lambda>f.
         bindE (store_bit_fields (mem st) entry_header (f\<lparr>end_of_buffer := True\<rparr>)) (\<lambda>m.
           let q = queue st;
               q = (if read_index q = write_index q then q\<lparr>read_index := 0\<rparr> else q);
               q = q\<lparr>write_index := 0\<rparr>
           in Inr (st\<lparr>mem := m, queue := q\<rparr>, MEMORY_QUEUE_SUCCESS, buffer q))))"

definition must_clean :: "nat \<Rightarrow> memory_queue_context \<Rightarrow> bool" where
  "must_clean need q \<longleftrightarrow> entry_count q > 0 \<and> write_index q \<le> read_index q \<and>
     read_index q \<le> add64 (add64 (write_index q) need) header_size"

text \<open>
  \<open>entry_header\<close> is the value of the out parameter before the call; the result carries its value
  after the call, which is written even when the allocation is blocked.
\<close>

definition memory_queue_allocate :: "bool \<times> bool \<Rightarrow> u16 \<Rightarrow> u32 \<Rightarrow> u64 \<Rightarrow> ptr \<Rightarrow> store \<Rightarrow>
    (store \<times> memory_queue_result \<times> ptr) result" where
  "memory_queue_allocate allocs ksize vsize expires entry_header st =
     (let need = total_size (unat ksize) (unat vsize); q = queue st in
      if capacity_bytes q < need then Inr (st, MEMORY_QUEUE_OUT_OF_MEMORY, entry_header)
      else
        let entry_header = entry_at q (write_index q) in
        bindE (if capacity_bytes q \<le> add64 (add64 (write_index q) need) header_size
               then wrap_around allocs st entry_header
               else Inr (st, MEMORY_QUEUE_SUCCESS, entry_header)) (\<lambda>(st, result, entry_header).
          if result \<noteq> MEMORY_QUEUE_SUCCESS then Inr (st, result, entry_header)
          else
            bindE (clean_while (must_clean need) allocs st) (\<lambda>(st, result).
              if result \<noteq> MEMORY_QUEUE_SUCCESS then Inr (st, result, entry_header)
              else
                bindE (store_header (mem st) entry_header
                         \<lparr>active = False, end_of_buffer = False, expiry = ucast expires,
                          value_size = vsize, key_size = ksize, locks = 0\<rparr>) (\<lambda>m.
                  let q = queue st in
                  Inr (st\<lparr>mem := m,
                          queue := q\<lparr>entry_count := add64 (entry_count q) 1,
                                     write_index := add64 (write_index q) need,
                                     occupied_bytes := add64 (occupied_bytes q) need\<rparr>\<rparr>,
                       MEMORY_QUEUE_SUCCESS, entry_header)))))"

definition memory_queue_clean :: "bool \<times> bool \<Rightarrow> u64 \<Rightarrow> store \<Rightarrow> (store \<times> memory_queue_result) result" where
  "memory_queue_clean allocs now st =
     (let entry_header = entry_at (queue st) (read_index (queue st)) in
      if entry_count (queue st) \<noteq> 0 then
        bindE (load_bit_fields (mem st) entry_header) (\<lambda>f.
          if \<not> active f \<or> ucast (expiry f) \<le> now then remove_entry allocs st entry_header
          else Inr (st, MEMORY_QUEUE_NONE))
      else Inr (st, MEMORY_QUEUE_NONE))"

definition memory_queue_get_entry_count :: "memory_queue_context \<Rightarrow> nat" where
  "memory_queue_get_entry_count q = entry_count q"

definition memory_queue_get_occupied_bytes :: "memory_queue_context \<Rightarrow> nat" where
  "memory_queue_get_occupied_bytes q = occupied_bytes q"

definition memory_queue_get_capacity_bytes :: "memory_queue_context \<Rightarrow> nat" where
  "memory_queue_get_capacity_bytes q = capacity_bytes q"

definition memory_queue_get_read_index :: "memory_queue_context \<Rightarrow> nat" where
  "memory_queue_get_read_index q = read_index q"

definition memory_queue_get_write_index :: "memory_queue_context \<Rightarrow> nat" where
  "memory_queue_get_write_index q = write_index q"

end
