(* ===== verification/MemoryQueueCorrect.thy ===== *)
theory MemoryQueueCorrect
  imports MemoryQueue
begin

text \<open>
  The invariant of the entry queue of \<^verbatim>\<open>src/memory_queue.c\<close> and what its operations do to it. The
  abstraction is the list of the offsets of the entries, oldest first: an allocation evicts some of
  the oldest entries, none of them locked, and appends one. The entries of the model are never
  active, as in the program, where nothing sets the bit.
\<close>

section \<open>The invariant\<close>

text \<open>
  \<open>chain m b i es j\<close>: from offset \<open>i\<close> of block \<open>b\<close> on there are the entries at the offsets \<open>es\<close>, one
  right behind the other, the last of which ends at \<open>j\<close>. None of them has its end or active bit set.
\<close>

fun chain :: "memory \<Rightarrow> nat \<Rightarrow> nat \<Rightarrow> nat list \<Rightarrow> nat \<Rightarrow> bool" where
  "chain m b i [] j = (i = j)"
| "chain m b i (e # es) j =
     (e = i \<and> \<not> end_of_buffer (header_at m (Ptr b e)) \<and> \<not> active (header_at m (Ptr b e)) \<and>
      chain m b (i + entry_size (header_at m (Ptr b e))) es j)"

definition chain_size :: "memory \<Rightarrow> nat \<Rightarrow> nat list \<Rightarrow> nat" where
  "chain_size m b es = (\<Sum>e\<leftarrow>es. entry_size (header_at m (Ptr b e)))"

text \<open>
  The entries in the order they were allocated. Either they lie between the read and the write index,
  or they go from the read index up to an end mark and then from offset 0 to the write index.
\<close>

definition queue_layout :: "memory \<Rightarrow> nat \<Rightarrow> nat \<Rightarrow> nat \<Rightarrow> nat \<Rightarrow> nat list \<Rightarrow> bool" where
  "queue_layout m b c r w es \<longleftrightarrow>
     chain m b r es w \<or>
     (\<exists>es1 es2 j. es = es1 @ es2 \<and> es1 \<noteq> [] \<and> w \<le> r \<and> chain m b r es1 j \<and>
        end_of_buffer (header_at m (Ptr b j)) \<and> j + header_size \<le> c \<and> chain m b 0 es2 w)"

definition queue_fields :: "nat \<Rightarrow> store \<Rightarrow> nat list \<Rightarrow> bool" where
  "queue_fields b st es \<longleftrightarrow>
     (let q = queue st in
      buffer q = Ptr b 0 \<and> block_size (mem st) b = Some (capacity_bytes q) \<and>
      capacity_bytes q < 2 ^ 32 \<and> write_index q + header_size \<le> capacity_bytes q \<and>
      entry_count q = length es \<and> occupied_bytes q = chain_size (mem st) b es \<and>
      queue_layout (mem st) b (capacity_bytes q) (read_index q) (write_index q) es)"

text \<open>\<open>queue_wf b st es\<close>: the buffer is block \<open>b\<close> and holds the entries \<open>es\<close>, oldest first.\<close>

definition queue_wf :: "nat \<Rightarrow> store \<Rightarrow> nat list \<Rightarrow> bool" where
  "queue_wf b st es \<longleftrightarrow> queue_fields b st es \<and>
     (read_index (queue st) = write_index (queue st) \<longrightarrow> es = [] \<or> write_index (queue st) = 0)"

lemma header_size_pos [simp]: "0 < header_size"
  by (simp add: header_size_def)

lemma chain_size_simps [simp]:
  "chain_size m b [] = 0"
  "chain_size m b (e # es) = entry_size (header_at m (Ptr b e)) + chain_size m b es"
  "chain_size m b (es1 @ es2) = chain_size m b es1 + chain_size m b es2"
  by (simp_all add: chain_size_def)

lemma chain_end: "chain m b i es j \<Longrightarrow> j = i + chain_size m b es"
proof (induction es arbitrary: i)
  case (Cons e es)
  have "j = i + entry_size (header_at m (Ptr b e)) + chain_size m b es"
    using Cons.prems by (intro Cons.IH) auto
  then show ?case by simp
qed simp

lemma chain_size_ge: "header_size * length es \<le> chain_size m b es"
  by (induction es) auto

lemma chain_empty: "chain m b i es i \<longleftrightarrow> es = []"
  using chain_end [of m b i es i] chain_size_ge [of es m b] by (auto simp: header_size_def)

lemma chain_append: "chain m b i (es1 @ es2) j \<longleftrightarrow> (\<exists>k. chain m b i es1 k \<and> chain m b k es2 j)"
  by (induction es1 arbitrary: i) auto

lemma chain_hd: "chain m b i es j \<Longrightarrow> es \<noteq> [] \<Longrightarrow> hd es = i"
  by (cases es) auto

text \<open>Every entry of a chain lies between its ends, and two entries do not overlap.\<close>

lemma chain_mem:
  "chain m b i es j \<Longrightarrow> e \<in> set es \<Longrightarrow>
   i \<le> e \<and> e + entry_size (header_at m (Ptr b e)) \<le> j \<and>
   \<not> end_of_buffer (header_at m (Ptr b e)) \<and> \<not> active (header_at m (Ptr b e))"
proof (induction es arbitrary: i)
  case (Cons x es)
  then show ?case
  proof (cases "e = x")
    case True
    then show ?thesis using Cons.prems chain_end [of m b _ es j] by fastforce
  next
    case False
    then show ?thesis using Cons by fastforce
  qed
qed simp

lemma chain_disjoint:
  "chain m b i es j \<Longrightarrow> e \<in> set es \<Longrightarrow> f \<in> set es \<Longrightarrow> e \<noteq> f \<Longrightarrow>
   e + entry_size (header_at m (Ptr b e)) \<le> f \<or> f + entry_size (header_at m (Ptr b f)) \<le> e"
proof (induction es arbitrary: i)
  case (Cons x es)
  then show ?case using chain_mem [of m b _ es j] by fastforce
qed simp

lemma chain_cong:
  assumes "\<forall>e\<in>set es. header_at m' (Ptr b e) = header_at m (Ptr b e)"
  shows "chain m' b i es j = chain m b i es j" and "chain_size m' b es = chain_size m b es"
  using assms by (induction es arbitrary: i) auto

lemma queue_fieldsD:
  assumes "queue_fields b st es"
  shows "buffer (queue st) = Ptr b 0" and "block_size (mem st) b = Some (capacity_bytes (queue st))"
    and "capacity_bytes (queue st) < 2 ^ 32"
    and "write_index (queue st) + header_size \<le> capacity_bytes (queue st)"
    and "entry_count (queue st) = length es" and "occupied_bytes (queue st) = chain_size (mem st) b es"
    and "queue_layout (mem st) b (capacity_bytes (queue st)) (read_index (queue st)) (write_index (queue st)) es"
  using assms by (simp_all add: queue_fields_def Let_def)

lemma layout_mem:
  assumes "queue_layout m b c r w es" and "w + header_size \<le> c" and "e \<in> set es"
  shows "e + entry_size (header_at m (Ptr b e)) + header_size \<le> c \<and>
         \<not> end_of_buffer (header_at m (Ptr b e)) \<and> \<not> active (header_at m (Ptr b e))"
proof -
  have "\<exists>i j es'. chain m b i es' j \<and> e \<in> set es' \<and> j + header_size \<le> c"
    using assms unfolding queue_layout_def by (metis Un_iff set_append)
  then show ?thesis using chain_mem by fastforce
qed

lemma entry_in_bounds:
  assumes "queue_fields b st es" and "e \<in> set es"
  shows "in_bounds (mem st) (Ptr b e) (entry_size (header_at (mem st) (Ptr b e)))"
    and "in_bounds (mem st) (Ptr b e) header_size"
    and "\<not> active (header_at (mem st) (Ptr b e))"
    and "entry_size (header_at (mem st) (Ptr b e)) + header_size \<le> capacity_bytes (queue st)"
  using layout_mem [OF queue_fieldsD(7,4) [OF assms(1)] assms(2)] queue_fieldsD(2) [OF assms(1)]
  by auto

text \<open>A nonempty queue whose write index is not beyond its read index has wrapped around.\<close>

lemma layout_wrapped:
  assumes "queue_layout m b c r w es" and "es \<noteq> []" and "w \<le> r"
  obtains es1 es2 j where "es = es1 @ es2" "es1 \<noteq> []" "chain m b r es1 j"
    "end_of_buffer (header_at m (Ptr b j))" "j + header_size \<le> c" "chain m b 0 es2 w"
proof -
  have "\<not> chain m b r es w"
  proof
    assume c: "chain m b r es w"
    then have "r + chain_size m b es \<le> r" using chain_end [OF c] assms(3) by simp
    then show False using chain_size_ge [of es m b] assms(2) by (simp add: header_size_def)
  qed
  then show ?thesis using assms that by (auto simp: queue_layout_def)
qed

section \<open>Evicting the oldest entry\<close>

lemma layout_size_less:
  assumes "queue_fields b st es"
  shows "chain_size (mem st) b es < 2 ^ 33"
proof -
  note f = queue_fieldsD [OF assms]
  from f(7) consider "chain (mem st) b (read_index (queue st)) es (write_index (queue st))"
    | es1 es2 j where "es = es1 @ es2" "chain (mem st) b (read_index (queue st)) es1 j"
      "chain (mem st) b 0 es2 (write_index (queue st))" "j + header_size \<le> capacity_bytes (queue st)"
    by (auto simp: queue_layout_def)
  then show ?thesis
  proof cases
    case 1
    then show ?thesis using chain_end [OF 1] f(3,4) by simp
  next
    case 2
    then show ?thesis using chain_end [OF 2(2)] chain_end [OF 2(3)] f(3,4) by simp
  qed
qed

text \<open>What the code does when the first entry is not locked and is followed by room for a header.\<close>

definition without_first :: "nat \<Rightarrow> store \<Rightarrow> nat list \<Rightarrow> nat \<Rightarrow> store" where
  "without_first b st es i = st\<lparr>queue := (queue st)\<lparr>entry_count := length es,
     read_index := (if end_of_buffer (header_at (mem st) (Ptr b i)) then 0 else i),
     occupied_bytes := chain_size (mem st) b es\<rparr>\<rparr>"

lemma remove_entry_run:
  assumes F: "queue_fields b st (e # es)" and e: "e = read_index (queue st)"
    and free: "locks (header_at (mem st) (Ptr b e)) = 0"
    and room: "e + entry_size (header_at (mem st) (Ptr b e)) + header_size \<le> capacity_bytes (queue st)"
  shows "remove_entry allocs st (entry_at (queue st) (read_index (queue st))) =
           Inr (without_first b st es (e + entry_size (header_at (mem st) (Ptr b e))), MEMORY_QUEUE_SUCCESS)"
proof -
  let ?q = "queue st" and ?m = "mem st"
  let ?h = "header_at ?m (Ptr b e)"
  let ?i = "e + entry_size ?h"
  note f = queue_fieldsD [OF F] and eb = entry_in_bounds [OF F, of e, OF list.set_intros(1)]
  have tot: "total_size (unat (key_size ?h)) (unat (value_size ?h)) = entry_size ?h"
    using eb(4) f(3) by (simp add: total_size_def wrap32_small)
  have r': "add64 e (entry_size ?h) = ?i" using room f(3) by (intro add64_small) simp
  note occ = layout_size_less [OF F]
  have o': "sub64 (occupied_bytes ?q) (entry_size ?h) = chain_size ?m b es"
    using f(6) occ by (subst sub64_small) simp_all
  have "length (e # es) \<le> chain_size ?m b (e # es)"
    using chain_size_ge [of "e # es" ?m b] by (simp add: header_size_def)
  then have c': "sub64 (entry_count ?q) 1 = length es"
    using f(5) occ by (subst sub64_small) simp_all
  have inb: "in_bounds ?m (Ptr b ?i) header_size" using room f(2) by simp
  have ld: "load_header ?m (Ptr b e) = Inr ?h"
    "load_bit_fields ?m (Ptr b ?i) = Inr (bit_fields_at ?m (Ptr b ?i))"
    by (rule load_header_in_bounds load_bit_fields_in_bounds, fact)+
  have pe: "entry_at ?q (read_index ?q) = Ptr b e" using f(1) e by simp
  show ?thesis
    unfolding pe using free eb(3)
    by (simp add: remove_entry_def Let_def ld tot r' o' c' [simplified] f(1) without_first_def flip: e)
qed

lemma remove_first:
  assumes F: "queue_fields b st (e # es)" and wr: "write_index (queue st) \<le> read_index (queue st)"
    and free: "locks (header_at (mem st) (Ptr b e)) = 0"
  shows "\<exists>st'. remove_entry allocs st (entry_at (queue st) (read_index (queue st))) = Inr (st', MEMORY_QUEUE_SUCCESS) \<and>
           queue_wf b st' es \<and> mem st' = mem st \<and> index_ctx st' = index_ctx st \<and>
           write_index (queue st') = write_index (queue st) \<and>
           capacity_bytes (queue st') = capacity_bytes (queue st)"
proof -
  let ?q = "queue st" and ?m = "mem st" and ?r = "read_index (queue st)" and ?w = "write_index (queue st)"
  note f = queue_fieldsD [OF F]
  obtain es1 es2 j where L: "e # es = es1 @ es2" "es1 \<noteq> []" "chain ?m b ?r es1 j"
    "end_of_buffer (header_at ?m (Ptr b j))" "j + header_size \<le> capacity_bytes ?q" "chain ?m b 0 es2 ?w"
    using layout_wrapped [OF f(7) _ wr] by blast
  obtain es1' where e1: "es1 = e # es1'" "es = es1' @ es2" using L(1,2) by (cases es1) auto
  let ?h = "header_at ?m (Ptr b e)"
  have e: "e = ?r" and c1: "chain ?m b (?r + entry_size ?h) es1' j" using L(3) e1 by auto
  let ?st = "without_first b st es (?r + entry_size ?h)"
  have "?r + entry_size ?h \<le> j" using chain_end [OF c1] by simp
  then have run: "remove_entry allocs st (entry_at ?q ?r) = Inr (?st, MEMORY_QUEUE_SUCCESS)"
    using remove_entry_run [OF F e free, of allocs] L(5) e by simp
  have "queue_wf b ?st es"
  proof (cases es1')
    case Nil
    then have "end_of_buffer (header_at ?m (Ptr b (?r + entry_size ?h)))" "es = es2"
      using c1 L(4) e1 by simp_all
    then show ?thesis
      using f(1-4) L(6)
      by (auto simp: queue_wf_def queue_fields_def queue_layout_def Let_def without_first_def)
  next
    case (Cons x xs)
    then have no: "\<not> end_of_buffer (header_at ?m (Ptr b (?r + entry_size ?h)))" using c1 by auto
    have "queue_layout ?m b (capacity_bytes ?q) (?r + entry_size ?h) ?w es"
      unfolding queue_layout_def using Cons c1 L(4-6) e1 wr
      by (intro disjI2 exI [of _ es1'] exI [of _ es2] exI [of _ j]) auto
    moreover have "?w < ?r + entry_size ?h" using wr by (simp add: header_size_def)
    ultimately show ?thesis
      using f(1-4) no by (auto simp: queue_wf_def queue_fields_def Let_def without_first_def)
  qed
  then show ?thesis using run by (simp add: without_first_def)
qed

text \<open>
  Removing the first entry of a queue that has not wrapped around. Behind the last entry there is no
  header: the end bit that is read there must not happen to be set.
\<close>

definition stale_end_bit :: "nat \<Rightarrow> store \<Rightarrow> bool" where
  "stale_end_bit b st \<longleftrightarrow> entry_count (queue st) = 1 \<and>
     read_index (queue st) < write_index (queue st) \<and>
     end_of_buffer (header_at (mem st) (Ptr b (write_index (queue st))))"

lemma remove_first_linear:
  assumes F: "queue_fields b st (e # es)" and rw: "read_index (queue st) < write_index (queue st)"
    and free: "locks (header_at (mem st) (Ptr b e)) = 0" and stale: "\<not> stale_end_bit b st"
  shows "\<exists>st'. remove_entry allocs st (entry_at (queue st) (read_index (queue st))) = Inr (st', MEMORY_QUEUE_SUCCESS) \<and>
           queue_wf b st' es \<and> mem st' = mem st"
proof -
  let ?m = "mem st" and ?r = "read_index (queue st)" and ?w = "write_index (queue st)"
  let ?h = "header_at ?m (Ptr b e)"
  note f = queue_fieldsD [OF F]
  have c: "chain ?m b ?r (e # es) ?w" using f(7) rw by (auto simp: queue_layout_def)
  then have e: "e = ?r" and c1: "chain ?m b (?r + entry_size ?h) es ?w" by auto
  let ?st = "without_first b st es (?r + entry_size ?h)"
  have "?r + entry_size ?h \<le> ?w" using chain_end [OF c1] by simp
  then have run: "remove_entry allocs st (entry_at (queue st) ?r) = Inr (?st, MEMORY_QUEUE_SUCCESS)"
    using remove_entry_run [OF F e free, of allocs] f(4) e by simp
  have no: "\<not> end_of_buffer (header_at ?m (Ptr b (?r + entry_size ?h)))"
  proof (cases es)
    case Nil
    then show ?thesis using c1 stale rw f(5) by (simp add: stale_end_bit_def)
  next
    case (Cons x xs)
    then show ?thesis using c1 by auto
  qed
  have "es = []" if "?r + entry_size ?h = ?w" using c1 chain_empty [of ?m b ?w es] that by simp
  then have "queue_wf b ?st es"
    using f(1-4) c1 no by (auto simp: queue_wf_def queue_fields_def queue_layout_def Let_def without_first_def)
  then show ?thesis using run by (simp add: without_first_def)
qed

lemma force_clean_first:
  assumes F: "queue_fields b st (e # es)" and wr: "write_index (queue st) \<le> read_index (queue st)"
  shows "if locks (header_at (mem st) (Ptr b e)) \<noteq> 0
         then force_clean allocs st = Inr (st, MEMORY_QUEUE_WRITE_BLOCKED)
         else \<exists>st'. force_clean allocs st = Inr (st', MEMORY_QUEUE_SUCCESS) \<and>
           queue_wf b st' es \<and> mem st' = mem st \<and> index_ctx st' = index_ctx st \<and>
           write_index (queue st') = write_index (queue st) \<and>
           capacity_bytes (queue st') = capacity_bytes (queue st)"
proof -
  note f = queue_fieldsD [OF F] and eb = entry_in_bounds [OF F, of e, OF list.set_intros(1)]
  have ld: "load_header (mem st) (Ptr b e) = Inr (header_at (mem st) (Ptr b e))"
    "load_bit_fields (mem st) (Ptr b e) = Inr (bit_fields_at (mem st) (Ptr b e))"
    by (rule load_header_in_bounds load_bit_fields_in_bounds, fact)+
  obtain es1 es2 j where "e # es = es1 @ es2" "es1 \<noteq> []"
    "chain (mem st) b (read_index (queue st)) es1 j"
    using layout_wrapped [OF f(7) _ wr] by blast
  then have e: "entry_at (queue st) (read_index (queue st)) = Ptr b e"
    using f(1) by (cases es1) auto
  have pos: "0 < entry_count (queue st)" using f(5) by simp
  show ?thesis
  proof (cases "locks (header_at (mem st) (Ptr b e)) = 0")
    case True
    then show ?thesis
      using remove_first [OF F wr, of allocs] pos by (auto simp: force_clean_def Let_def)
  next
    case False
    then have "remove_entry allocs st (Ptr b e) = Inr (st, MEMORY_QUEUE_WRITE_BLOCKED)"
      by (simp add: remove_entry_def ld Let_def)
    then show ?thesis
      using False pos eb(3) by (simp add: force_clean_def Let_def e ld)
  qed
qed

section \<open>Making room\<close>

text \<open>
  A cleaning loop evicts unlocked entries from the front until its condition fails or the next entry
  is locked.
\<close>

lemma clean_while_correct:
  assumes cond: "\<And>st es. queue_fields b st es \<Longrightarrow> cond (queue st) \<Longrightarrow>
      es \<noteq> [] \<and> write_index (queue st) \<le> read_index (queue st)"
    and "queue_fields b st es"
  shows "\<exists>n st' r. clean_while cond allocs st = Inr (st', r) \<and> n \<le> length es \<and>
           queue_fields b st' (drop n es) \<and> (n = 0 \<and> st' = st \<or> queue_wf b st' (drop n es)) \<and>
           mem st' = mem st \<and> index_ctx st' = index_ctx st \<and>
           write_index (queue st') = write_index (queue st) \<and>
           capacity_bytes (queue st') = capacity_bytes (queue st) \<and>
           (\<forall>e\<in>set (take n es). locks (header_at (mem st) (Ptr b e)) = 0) \<and>
           (r = MEMORY_QUEUE_SUCCESS \<and> \<not> cond (queue st') \<or>
            r = MEMORY_QUEUE_WRITE_BLOCKED \<and> drop n es \<noteq> [] \<and>
              locks (header_at (mem st) (Ptr b (hd (drop n es)))) \<noteq> 0)"
  using assms(2)
proof (induction es arbitrary: st)
  case Nil
  then have "\<not> cond (queue st)" using cond by blast
  then show ?case using Nil by (subst clean_while.simps) simp
next
  case (Cons e es)
  show ?case
  proof (cases "cond (queue st)")
    case False
    then show ?thesis using Cons.prems by (subst clean_while.simps) (auto intro!: exI [of _ 0])
  next
    case True
    then have wr: "write_index (queue st) \<le> read_index (queue st)" using cond Cons.prems by blast
    note first = force_clean_first [OF Cons.prems wr, of allocs]
    show ?thesis
    proof (cases "locks (header_at (mem st) (Ptr b e)) = 0")
      case False
      then have "clean_while cond allocs st = Inr (st, MEMORY_QUEUE_WRITE_BLOCKED)"
        using first True by (subst clean_while.simps) simp
      then show ?thesis using Cons.prems False by (auto intro!: exI [of _ 0])
    next
      case free: True
      then obtain st1 where st1: "force_clean allocs st = Inr (st1, MEMORY_QUEUE_SUCCESS)"
        "queue_wf b st1 es" "mem st1 = mem st" "index_ctx st1 = index_ctx st"
        "write_index (queue st1) = write_index (queue st)"
        "capacity_bytes (queue st1) = capacity_bytes (queue st)"
        using first by auto
      have step: "clean_while cond allocs st = clean_while cond allocs st1"
        using True st1(1) by (subst clean_while.simps) simp
      have "queue_fields b st1 es" using st1(2) by (simp add: queue_wf_def)
      from Cons.IH [OF this] obtain n st' r where n: "clean_while cond allocs st1 = Inr (st', r)"
        "n \<le> length es" "queue_fields b st' (drop n es)"
        "n = 0 \<and> st' = st1 \<or> queue_wf b st' (drop n es)"
        "mem st' = mem st1" "index_ctx st' = index_ctx st1"
        "write_index (queue st') = write_index (queue st1)"
        "capacity_bytes (queue st') = capacity_bytes (queue st1)"
        "\<forall>e\<in>set (take n es). locks (header_at (mem st1) (Ptr b e)) = 0"
        "r = MEMORY_QUEUE_SUCCESS \<and> \<not> cond (queue st') \<or>
         r = MEMORY_QUEUE_WRITE_BLOCKED \<and> drop n es \<noteq> [] \<and>
           locks (header_at (mem st1) (Ptr b (hd (drop n es)))) \<noteq> 0"
        by blast
      have "queue_wf b st' (drop n es)" using n(4) st1(2) by auto
      then show ?thesis
        using n st1 step free by (intro exI [of _ "Suc n"] exI [of _ st'] exI [of _ r]) simp
    qed
  qed
qed

text \<open>Writing a header leaves every range that is apart from it as it was.\<close>

lemma put_header_range:
  "w + header_size \<le> e \<or> e + n \<le> w \<Longrightarrow>
   raw_bytes (put_header m (Ptr b w) h) (Ptr b e) n = raw_bytes m (Ptr b e) n"
  by (rule raw_bytes_put_other) auto

lemma put_header_entry:
  "w + header_size \<le> e \<or> e + header_size \<le> w \<Longrightarrow>
   header_at (put_header m (Ptr b w) h) (Ptr b e) = header_at m (Ptr b e)"
  by (rule header_at_put_other) auto

lemma put_header_chain:
  assumes "chain m b i es j" and "w + header_size \<le> i \<or> j \<le> w"
  shows "chain (put_header m (Ptr b w) h) b i es j"
    and "chain_size (put_header m (Ptr b w) h) b es = chain_size m b es"
    and "e \<in> set es \<Longrightarrow> header_at (put_header m (Ptr b w) h) (Ptr b e) = header_at m (Ptr b e)"
    and "e \<in> set es \<Longrightarrow> raw_bytes (put_header m (Ptr b w) h) (Ptr b e) (entry_size (header_at m (Ptr b e))) =
           raw_bytes m (Ptr b e) (entry_size (header_at m (Ptr b e)))"
proof -
  have same: "\<forall>e\<in>set es. header_at (put_header m (Ptr b w) h) (Ptr b e) = header_at m (Ptr b e)"
    using chain_mem [OF assms(1)] assms(2) by (fastforce intro!: put_header_entry)
  then show "chain (put_header m (Ptr b w) h) b i es j"
    "chain_size (put_header m (Ptr b w) h) b es = chain_size m b es"
    using chain_cong [OF same] assms(1) by simp_all
  assume e: "e \<in> set es"
  then show "header_at (put_header m (Ptr b w) h) (Ptr b e) = header_at m (Ptr b e)" using same by blast
  show "raw_bytes (put_header m (Ptr b w) h) (Ptr b e) (entry_size (header_at m (Ptr b e))) =
      raw_bytes m (Ptr b e) (entry_size (header_at m (Ptr b e)))"
    using chain_mem [OF assms(1) e] assms(2) by (intro put_header_range) auto
qed

lemma linear_or_empty:
  assumes "queue_layout m b c r w es" and "r \<le> w" and "r = w \<longrightarrow> es = [] \<or> w = 0" and "0 < w"
  shows "chain m b r es w"
proof (cases "chain m b r es w")
  case False
  then have "es \<noteq> []" "w \<le> r" using assms(1) by (auto simp: queue_layout_def)
  then show ?thesis using assms(2-4) by simp
qed

lemma put_header_block: "c \<noteq> b \<Longrightarrow> same_block c m (put_header m (Ptr b i) h)"
  by (simp add: put_header_def del: write_raw.simps)

text \<open>The end of the buffer is marked behind the last entry, and the next entry will be the first of the buffer.\<close>

lemma wrapped_queue:
  assumes W: "queue_wf b st es" and w: "0 < write_index (queue st)" and le: "read_index (queue st) \<le> write_index (queue st)"
  defines "h \<equiv> (header_at (mem st) (Ptr b (write_index (queue st))))\<lparr>end_of_buffer := True\<rparr>"
  defines "st' \<equiv> st\<lparr>mem := put_header (mem st) (Ptr b (write_index (queue st))) h,
      queue := (queue st)\<lparr>read_index := (if read_index (queue st) = write_index (queue st) then 0 else read_index (queue st)),
        write_index := 0\<rparr>\<rparr>"
  shows "queue_fields b st' es" and "in_bounds (mem st) (Ptr b (write_index (queue st))) header_size"
    and "\<forall>e\<in>set es. raw_bytes (mem st') (Ptr b e) (entry_size (header_at (mem st) (Ptr b e))) =
        raw_bytes (mem st) (Ptr b e) (entry_size (header_at (mem st) (Ptr b e))) \<and>
      header_at (mem st') (Ptr b e) = header_at (mem st) (Ptr b e)"
proof -
  let ?r = "read_index (queue st)" and ?w = "write_index (queue st)" and ?c = "capacity_bytes (queue st)"
  let ?m = "put_header (mem st) (Ptr b ?w) h"
  have F: "queue_fields b st es" using W by (simp add: queue_wf_def)
  note f = queue_fieldsD [OF F]
  have lin: "chain (mem st) b ?r es ?w" using linear_or_empty [OF f(7) le] W w by (simp add: queue_wf_def)
  note keep = put_header_chain [OF lin disjI2 [OF order_refl], where h = h]
  show "in_bounds (mem st) (Ptr b ?w) header_size" using f(2,4) by simp
  have "queue_layout ?m b ?c (if ?r = ?w then 0 else ?r) 0 es"
  proof (cases "es = []")
    case True
    then have "?r = ?w" using lin by simp
    then show ?thesis using True by (simp add: queue_layout_def)
  next
    case False
    then have "?r \<noteq> ?w" using lin chain_empty by metis
    then show ?thesis
      unfolding queue_layout_def using False keep(1) f(4)
      by (intro disjI2 exI [of _ es] exI [of _ "[]"] exI [of _ ?w]) (simp add: h_def)
  qed
  then show "queue_fields b st' es" using f keep(2) by (simp add: queue_fields_def Let_def st'_def)
  show "\<forall>e\<in>set es. raw_bytes (mem st') (Ptr b e) (entry_size (header_at (mem st) (Ptr b e))) =
        raw_bytes (mem st) (Ptr b e) (entry_size (header_at (mem st) (Ptr b e))) \<and>
      header_at (mem st') (Ptr b e) = header_at (mem st) (Ptr b e)"
    using keep(3,4) by (simp add: st'_def)
qed

lemma wrap_around_correct:
  assumes W: "queue_wf b st es" and w: "0 < write_index (queue st)"
  shows "\<exists>n st' r out. wrap_around allocs st (Ptr b (write_index (queue st))) = Inr (st', r, out) \<and>
           n \<le> length es \<and> queue_fields b st' (drop n es) \<and>
           capacity_bytes (queue st') = capacity_bytes (queue st) \<and> index_ctx st' = index_ctx st \<and>
           (\<forall>c. c \<noteq> b \<longrightarrow> same_block c (mem st) (mem st')) \<and>
           (\<forall>e\<in>set (take n es). locks (header_at (mem st) (Ptr b e)) = 0) \<and>
           (\<forall>e\<in>set (drop n es). raw_bytes (mem st') (Ptr b e) (entry_size (header_at (mem st) (Ptr b e))) =
                               raw_bytes (mem st) (Ptr b e) (entry_size (header_at (mem st) (Ptr b e))) \<and>
                               header_at (mem st') (Ptr b e) = header_at (mem st) (Ptr b e)) \<and>
           (r = MEMORY_QUEUE_SUCCESS \<and> write_index (queue st') = 0 \<and> out = Ptr b 0 \<or>
            r = MEMORY_QUEUE_WRITE_BLOCKED \<and> queue_wf b st' (drop n es) \<and>
              out = Ptr b (write_index (queue st')) \<and> drop n es \<noteq> [] \<and>
              locks (header_at (mem st) (Ptr b (hd (drop n es)))) \<noteq> 0)"
proof -
  let ?w = "write_index (queue st)" and ?c = "capacity_bytes (queue st)"
  have F: "queue_fields b st es" using W by (simp add: queue_wf_def)
  have cond: "es \<noteq> [] \<and> write_index (queue st) \<le> read_index (queue st)"
    if "queue_fields b st es" "write_index (queue st) < read_index (queue st)" for st es
    using queue_fieldsD(7) [OF that(1)] that(2) by (auto simp: queue_layout_def)
  obtain n st1 r where C: "clean_while (\<lambda>q. write_index q < read_index q) allocs st = Inr (st1, r)"
    "n \<le> length es" "queue_fields b st1 (drop n es)"
    "n = 0 \<and> st1 = st \<or> queue_wf b st1 (drop n es)"
    "mem st1 = mem st" "index_ctx st1 = index_ctx st" "write_index (queue st1) = ?w"
    "capacity_bytes (queue st1) = ?c"
    "\<forall>e\<in>set (take n es). locks (header_at (mem st) (Ptr b e)) = 0"
    "r = MEMORY_QUEUE_SUCCESS \<and> \<not> write_index (queue st1) < read_index (queue st1) \<or>
     r = MEMORY_QUEUE_WRITE_BLOCKED \<and> drop n es \<noteq> [] \<and>
       locks (header_at (mem st) (Ptr b (hd (drop n es)))) \<noteq> 0"
    using clean_while_correct [where cond = "\<lambda>q. write_index q < read_index q" and allocs = allocs, OF cond F] by blast
  have W1: "queue_wf b st1 (drop n es)" using C(4) W by auto
  note f = queue_fieldsD [OF C(3), unfolded C(5,7,8)]
  show ?thesis
  proof (cases "r = MEMORY_QUEUE_SUCCESS")
    case False
    then have "wrap_around allocs st (Ptr b ?w) = Inr (st1, r, Ptr b ?w)"
      using C(1) by (simp add: wrap_around_def)
    then show ?thesis using C False W1 by (intro exI [of _ n] exI [of _ st1]) (simp add: same_block_refl)
  next
    case True
    let ?h = "(header_at (mem st) (Ptr b ?w))\<lparr>end_of_buffer := True\<rparr>"
    have le: "read_index (queue st1) \<le> write_index (queue st1)" using C(10) True by simp
    note wr = wrapped_queue [OF W1 _ le, unfolded C(5,7)]
    have sto: "load_bit_fields (mem st) (Ptr b ?w) = Inr (bit_fields_at (mem st) (Ptr b ?w))"
      "store_bit_fields (mem st) (Ptr b ?w) ((bit_fields_at (mem st) (Ptr b ?w))\<lparr>end_of_buffer := True\<rparr>) =
         Inr (put_header (mem st) (Ptr b ?w) ?h)"
      using load_bit_fields_in_bounds [OF wr(2)] store_bit_fields_in_bounds(2) [OF wr(2)] w by simp_all
    define st2 where "st2 = st1\<lparr>mem := put_header (mem st) (Ptr b ?w) ?h,
      queue := (queue st1)\<lparr>read_index := (if read_index (queue st1) = ?w then 0 else read_index (queue st1)), write_index := 0\<rparr>\<rparr>"
    have run: "wrap_around allocs st (Ptr b ?w) = Inr (st2, MEMORY_QUEUE_SUCCESS, Ptr b 0)"
      using C(1,5,7) True sto f(1) by (simp add: wrap_around_def Let_def st2_def)
    show ?thesis
      using run C wr(1,3) w by (intro exI [of _ n] exI [of _ st2]) (simp add: st2_def put_header_block)
  qed
qed

section \<open>Allocating\<close>

lemma must_clean_iff:
  assumes "queue_fields b st es" and "need < 2 ^ 32"
  shows "must_clean need (queue st) \<longleftrightarrow> es \<noteq> [] \<and> write_index (queue st) \<le> read_index (queue st) \<and>
           read_index (queue st) \<le> write_index (queue st) + need + header_size"
proof -
  have "add64 (add64 (write_index (queue st)) need) header_size = write_index (queue st) + need + header_size"
    using queue_fieldsD(3,4) [OF assms(1)] assms(2) by (simp add: add64_small header_size_def)
  then show ?thesis using queue_fieldsD(5) [OF assms(1)] by (auto simp: must_clean_def)
qed

text \<open>The entries \<open>es\<close> of two memories agree in all their bytes.\<close>

definition same_entries :: "nat \<Rightarrow> memory \<Rightarrow> memory \<Rightarrow> nat list \<Rightarrow> bool" where
  "same_entries b m m' es \<longleftrightarrow> (\<forall>e\<in>set es.
     raw_bytes m' (Ptr b e) (entry_size (header_at m (Ptr b e))) =
       raw_bytes m (Ptr b e) (entry_size (header_at m (Ptr b e))) \<and>
     header_at m' (Ptr b e) = header_at m (Ptr b e))"

lemma same_entries_refl [simp]: "same_entries b m m es"
  by (simp add: same_entries_def)

lemma same_entries_trans:
  "same_entries b m m' es \<Longrightarrow> same_entries b m' m'' es' \<Longrightarrow> set es' \<subseteq> set es \<Longrightarrow> same_entries b m m'' es'"
  by (auto simp: same_entries_def)

text \<open>The layout of the entries with a new one behind them.\<close>

lemma appended_layout:
  assumes F: "queue_fields b st es"
    and clean: "\<not> must_clean (entry_size h) (queue st)"
    and room: "write_index (queue st) + entry_size h + header_size \<le> capacity_bytes (queue st)"
    and h: "\<not> active h" "\<not> end_of_buffer h"
  defines "w \<equiv> write_index (queue st)"
  defines "m' \<equiv> put_header (mem st) (Ptr b w) h"
  shows "queue_layout m' b (capacity_bytes (queue st)) (read_index (queue st)) (w + entry_size h) (es @ [w]) \<and>
      same_entries b (mem st) m' es \<and> chain_size m' b es = chain_size (mem st) b es \<and>
      chain_size (mem st) b es < 2 ^ 33 \<and> read_index (queue st) \<noteq> w + entry_size h"
proof -
  let ?r = "read_index (queue st)" and ?c = "capacity_bytes (queue st)"
  note f = queue_fieldsD [OF F]
  have hs: "header_size = 16" by (simp add: header_size_def)
  have small: "entry_size h < 2 ^ 32" using room f(3) by simp
  have new: "chain m' b w [w] (w + entry_size h)" using h by (simp add: m'_def)
  show ?thesis
  proof (cases "chain (mem st) b ?r es w")
    case True
    note keep = put_header_chain [OF True disjI2 [OF order_refl], where h = h, folded m'_def]
    have "chain m' b ?r (es @ [w]) (w + entry_size h)"
      using keep(1) new by (auto simp: chain_append)
    moreover have "?r \<noteq> w + entry_size h" using chain_end [OF True] hs by simp
    moreover have "chain_size (mem st) b es < 2 ^ 33"
      using chain_end [OF True] room f(3) by (simp add: w_def)
    ultimately show ?thesis using keep by (auto simp: queue_layout_def same_entries_def)
  next
    case False
    then obtain es1 es2 j where e: "es = es1 @ es2" "es1 \<noteq> []" "w \<le> ?r" "chain (mem st) b ?r es1 j"
      "end_of_buffer (header_at (mem st) (Ptr b j))" "j + header_size \<le> ?c" "chain (mem st) b 0 es2 w"
      using f(7) by (auto simp: queue_layout_def w_def)
    have gap: "w + entry_size h + header_size < ?r"
      using clean must_clean_iff [OF F small] e(1-3) by (simp add: w_def)
    then have far: "w + header_size \<le> ?r \<or> j \<le> w" by simp
    note k1 = put_header_chain [OF e(4) far, where h = h, folded m'_def]
    note k2 = put_header_chain [OF e(7) disjI2 [OF order_refl], where h = h, folded m'_def]
    have j: "?r \<le> j" using chain_end [OF e(4)] by simp
    have eob: "end_of_buffer (header_at m' (Ptr b j))"
      using e(5) gap j unfolding m'_def by (subst put_header_entry) auto
    have c2: "chain m' b 0 (es2 @ [w]) (w + entry_size h)"
      using k2(1) new by (auto simp: chain_append)
    have "queue_layout m' b ?c ?r (w + entry_size h) (es @ [w])"
      unfolding queue_layout_def using e(1,2,6) k1(1) eob c2 gap
      by (intro disjI2 exI [of _ es1] exI [of _ "es2 @ [w]"] exI [of _ j]) simp
    moreover have "chain_size (mem st) b es < 2 ^ 33"
      using chain_end [OF e(4)] chain_end [OF e(7)] e(1,6) room f(3) by (simp add: w_def)
    ultimately show ?thesis using k1 k2 e(1) gap by (auto simp: same_entries_def)
  qed
qed

lemma append_entry:
  assumes F: "queue_fields b st es"
    and clean: "\<not> must_clean (entry_size h) (queue st)"
    and room: "write_index (queue st) + entry_size h + header_size \<le> capacity_bytes (queue st)"
    and h: "\<not> active h" "\<not> end_of_buffer h"
  defines "w \<equiv> write_index (queue st)"
  defines "m' \<equiv> put_header (mem st) (Ptr b w) h"
  defines "st' \<equiv> st\<lparr>mem := m', queue := (queue st)\<lparr>entry_count := add64 (entry_count (queue st)) 1,
      write_index := add64 w (entry_size h), occupied_bytes := add64 (occupied_bytes (queue st)) (entry_size h)\<rparr>\<rparr>"
  shows "queue_wf b st' (es @ [w])" and "same_entries b (mem st) m' es"
    and "in_bounds (mem st) (Ptr b w) header_size"
proof -
  let ?r = "read_index (queue st)" and ?c = "capacity_bytes (queue st)"
  note f = queue_fieldsD [OF F]
  have hs: "header_size = 16" by (simp add: header_size_def)
  have small: "entry_size h < 2 ^ 32" using room f(3) by simp
  show inb: "in_bounds (mem st) (Ptr b w) header_size" using f(2) room by (simp add: w_def)
  have hw: "header_at m' (Ptr b w) = h" by (simp add: m'_def)
  have w': "add64 w (entry_size h) = w + entry_size h"
    using room f(3) by (simp add: add64_small w_def)
  note L = appended_layout [OF F clean room h, folded w_def, folded m'_def]
  have len: "length es \<le> chain_size (mem st) b es"
    using chain_size_ge [of es "mem st" b] unfolding hs by linarith
  have c': "add64 (entry_count (queue st)) 1 = length (es @ [w])"
    using L len f(5) by (simp add: add64_small)
  have o': "add64 (occupied_bytes (queue st)) (entry_size h) = chain_size m' b (es @ [w])"
    using L f(6) small hw by (simp add: add64_small)
  show "queue_wf b st' (es @ [w])"
    using L f(1-4) room unfolding queue_wf_def queue_fields_def st'_def c' o' w'
    by (simp add: Let_def m'_def w_def)
  show "same_entries b (mem st) m' es" using L by blast
qed

text \<open>
  What an allocation does to the queue: it evicts \<open>n\<close> entries from the front, none of them locked,
  and keeps the others byte for byte. Then it appends the new entry (\<open>evicted\<close> with
  \<open>MEMORY_QUEUE_SUCCESS\<close>), or it stops because the next entry to go is locked.
\<close>

definition evicted :: "nat \<Rightarrow> store \<Rightarrow> nat list \<Rightarrow> nat \<Rightarrow> store \<Rightarrow> bool" where
  "evicted b st es n st' \<longleftrightarrow>
     n \<le> length es \<and> capacity_bytes (queue st') = capacity_bytes (queue st) \<and>
     index_ctx st' = index_ctx st \<and> (\<forall>c. c \<noteq> b \<longrightarrow> same_block c (mem st) (mem st')) \<and>
     (\<forall>e\<in>set (take n es). locks (header_at (mem st) (Ptr b e)) = 0) \<and>
     same_entries b (mem st) (mem st') (drop n es)"

definition blocked_at :: "nat \<Rightarrow> store \<Rightarrow> nat list \<Rightarrow> store \<Rightarrow> ptr \<Rightarrow> bool" where
  "blocked_at b st es st' out \<longleftrightarrow>
     queue_wf b st' es \<and> es \<noteq> [] \<and> locks (header_at (mem st) (Ptr b (hd es))) \<noteq> 0 \<and>
     out = Ptr b (write_index (queue st'))"

lemma wrap_phase:
  assumes W: "queue_wf b st es" and need: "need < 2 ^ 32" "need + header_size < capacity_bytes (queue st)"
  shows "\<exists>n st' r out.
           (if capacity_bytes (queue st) \<le> add64 (add64 (write_index (queue st)) need) header_size
            then wrap_around allocs st (entry_at (queue st) (write_index (queue st)))
            else Inr (st, MEMORY_QUEUE_SUCCESS, entry_at (queue st) (write_index (queue st)))) = Inr (st', r, out) \<and>
           evicted b st es n st' \<and> queue_wf b st' (drop n es) \<and>
           (r = MEMORY_QUEUE_SUCCESS \<and> out = Ptr b (write_index (queue st')) \<and>
              write_index (queue st') \<in> {0, write_index (queue st)} \<and>
              write_index (queue st') + need + header_size \<le> capacity_bytes (queue st) \<or>
            r = MEMORY_QUEUE_WRITE_BLOCKED \<and> blocked_at b st (drop n es) st' out)"
proof -
  let ?w = "write_index (queue st)"
  have F: "queue_fields b st es" using W by (simp add: queue_wf_def)
  note f = queue_fieldsD [OF F]
  have sum: "add64 (add64 ?w need) header_size = ?w + need + header_size"
    using f(3,4) need(1) by (simp add: add64_small header_size_def)
  have out: "entry_at (queue st) ?w = Ptr b ?w" using f(1) by simp
  show ?thesis
  proof (cases "capacity_bytes (queue st) \<le> ?w + need + header_size")
    case False
    then show ?thesis
      using W out sum by (intro exI [of _ 0] exI [of _ st]) (simp add: evicted_def same_block_refl)
  next
    case True
    then have "0 < ?w" using need(2) by simp
    from wrap_around_correct [OF W this, of allocs] obtain n st' r out where
      n: "wrap_around allocs st (Ptr b ?w) = Inr (st', r, out)" "n \<le> length es"
      "queue_fields b st' (drop n es)" "capacity_bytes (queue st') = capacity_bytes (queue st)"
      "index_ctx st' = index_ctx st" "\<forall>c. c \<noteq> b \<longrightarrow> same_block c (mem st) (mem st')" "\<forall>e\<in>set (take n es). locks (header_at (mem st) (Ptr b e)) = 0"
      "same_entries b (mem st) (mem st') (drop n es)"
      "r = MEMORY_QUEUE_SUCCESS \<and> write_index (queue st') = 0 \<and> out = Ptr b 0 \<or>
       r = MEMORY_QUEUE_WRITE_BLOCKED \<and> queue_wf b st' (drop n es) \<and>
         out = Ptr b (write_index (queue st')) \<and> drop n es \<noteq> [] \<and>
         locks (header_at (mem st) (Ptr b (hd (drop n es)))) \<noteq> 0"
      unfolding same_entries_def by blast
    have "queue_wf b st' (drop n es)" using n(3,9) by (auto simp: queue_wf_def)
    then show ?thesis
      using n need(2) True sum out
      by (intro exI [of _ n] exI [of _ st'] exI [of _ r] exI [of _ out])
        (auto simp: evicted_def blocked_at_def)
  qed
qed

text \<open>Evicting in two phases, and being blocked in the second one.\<close>

lemma evicted_trans:
  assumes "evicted b st es n1 st1" and "evicted b st1 (drop n1 es) n2 st2"
  shows "evicted b st es (n1 + n2) st2"
proof -
  let ?es1 = "drop n1 es"
  have same: "same_entries b (mem st) (mem st1) ?es1" using assms(1) by (simp add: evicted_def)
  have "locks (header_at (mem st) (Ptr b e)) = 0" if e: "e \<in> set (take n2 ?es1)" for e
  proof -
    have "header_at (mem st1) (Ptr b e) = header_at (mem st) (Ptr b e)"
      using same in_set_takeD [OF e] by (simp add: same_entries_def)
    then show ?thesis using assms(2) e by (auto simp: evicted_def)
  qed
  moreover have "same_entries b (mem st) (mem st2) (drop (n1 + n2) es)"
  proof (rule same_entries_trans [OF same])
    show "same_entries b (mem st1) (mem st2) (drop (n1 + n2) es)" using assms(2) by (simp add: evicted_def add.commute)
    show "set (drop (n1 + n2) es) \<subseteq> set ?es1" using set_drop_subset [of n2 ?es1] by (simp add: add.commute)
  qed
  ultimately show ?thesis using assms same_block_trans by (fastforce simp: evicted_def take_add)
qed

lemma blocked_at_earlier:
  assumes "evicted b st es n1 st1" and "blocked_at b st1 (drop n2 (drop n1 es)) st2 out"
  shows "blocked_at b st (drop (n1 + n2) es) st2 out"
proof -
  have "hd (drop n2 (drop n1 es)) \<in> set (drop n1 es)"
    using assms(2) hd_in_set [of "drop n2 (drop n1 es)"] in_set_dropD [of _ n2 "drop n1 es"] by (auto simp: blocked_at_def)
  then have "header_at (mem st1) (Ptr b (hd (drop n2 (drop n1 es)))) = header_at (mem st) (Ptr b (hd (drop n2 (drop n1 es))))"
    using assms(1) by (simp add: evicted_def same_entries_def)
  then show ?thesis using assms(2) by (simp add: blocked_at_def add.commute)
qed

text \<open>The second loop, which makes room behind the write index.\<close>

lemma clean_phase:
  assumes W: "queue_wf b st es" and need: "need < 2 ^ 32"
  shows "\<exists>n st' r. clean_while (must_clean need) allocs st = Inr (st', r) \<and> evicted b st es n st' \<and>
           queue_wf b st' (drop n es) \<and> write_index (queue st') = write_index (queue st) \<and>
           (r = MEMORY_QUEUE_SUCCESS \<and> \<not> must_clean need (queue st') \<or>
            r = MEMORY_QUEUE_WRITE_BLOCKED \<and> blocked_at b st (drop n es) st' (Ptr b (write_index (queue st))))"
proof -
  have F: "queue_fields b st es" using W by (simp add: queue_wf_def)
  have cond: "es \<noteq> [] \<and> write_index (queue st) \<le> read_index (queue st)"
    if "queue_fields b st es" "must_clean need (queue st)" for st es
    using must_clean_iff [OF that(1) need] that(2) by simp
  obtain n st' r where C: "clean_while (must_clean need) allocs st = Inr (st', r)" "n \<le> length es"
    "n = 0 \<and> st' = st \<or> queue_wf b st' (drop n es)"
    "mem st' = mem st" "index_ctx st' = index_ctx st" "write_index (queue st') = write_index (queue st)"
    "capacity_bytes (queue st') = capacity_bytes (queue st)"
    "\<forall>e\<in>set (take n es). locks (header_at (mem st) (Ptr b e)) = 0"
    "r = MEMORY_QUEUE_SUCCESS \<and> \<not> must_clean need (queue st') \<or>
     r = MEMORY_QUEUE_WRITE_BLOCKED \<and> drop n es \<noteq> [] \<and> locks (header_at (mem st) (Ptr b (hd (drop n es)))) \<noteq> 0"
    using clean_while_correct [where cond = "must_clean need" and allocs = allocs, OF cond F] by blast
  have wf: "queue_wf b st' (drop n es)" using C(3) W by auto
  moreover have "evicted b st es n st'" using C(2,4,5,7,8) by (simp add: evicted_def same_block_refl)
  ultimately show ?thesis using C(1,6,9) by (auto simp: blocked_at_def)
qed

lemma allocate_correct:
  fixes ksize :: u16 and vsize :: u32
  assumes W: "queue_wf b st es"
    and fit: "header_size + unat ksize + unat vsize + header_size < capacity_bytes (queue st)"
  shows "\<exists>n st' r out.
           memory_queue_allocate allocs ksize vsize expires out0 st = Inr (st', r, out) \<and>
           evicted b st es n st' \<and>
           (r = MEMORY_QUEUE_SUCCESS \<and>
              (\<exists>w. out = Ptr b w \<and> queue_wf b st' (drop n es @ [w]) \<and> w \<in> {0, write_index (queue st)} \<and>
                   w + (header_size + unat ksize + unat vsize) + header_size \<le> capacity_bytes (queue st) \<and>
                   header_at (mem st') out = \<lparr>active = False, end_of_buffer = False,
                     expiry = ucast expires, value_size = vsize, key_size = ksize, locks = 0\<rparr>) \<or>
            r = MEMORY_QUEUE_WRITE_BLOCKED \<and> blocked_at b st (drop n es) st' out)"
proof -
  define h where "h = \<lparr>active = False, end_of_buffer = False, expiry = ucast expires,
      value_size = vsize, key_size = ksize, locks = 0\<rparr>"
  define need where "need = header_size + unat ksize + unat vsize"
  have "capacity_bytes (queue st) < 2 ^ 32" using W by (simp add: queue_wf_def queue_fields_def Let_def)
  then have need: "need < 2 ^ 32" "need + header_size < capacity_bytes (queue st)" "entry_size h = need"
    using fit by (simp_all add: need_def h_def)
  have total: "total_size (unat ksize) (unat vsize) = need"
    using need(1) by (simp add: total_size_def need_def wrap32_small)
  obtain n1 st1 r1 out1 where P: "(if capacity_bytes (queue st) \<le> add64 (add64 (write_index (queue st)) need) header_size
            then wrap_around allocs st (entry_at (queue st) (write_index (queue st)))
            else Inr (st, MEMORY_QUEUE_SUCCESS, entry_at (queue st) (write_index (queue st)))) = Inr (st1, r1, out1)"
    "evicted b st es n1 st1" "queue_wf b st1 (drop n1 es)"
    "r1 = MEMORY_QUEUE_SUCCESS \<and> out1 = Ptr b (write_index (queue st1)) \<and>
       write_index (queue st1) \<in> {0, write_index (queue st)} \<and>
       write_index (queue st1) + need + header_size \<le> capacity_bytes (queue st) \<or>
     r1 = MEMORY_QUEUE_WRITE_BLOCKED \<and> blocked_at b st (drop n1 es) st1 out1"
    using wrap_phase [OF W need(1,2), of allocs] by blast
  obtain n2 st2 r2 where C: "clean_while (must_clean need) allocs st1 = Inr (st2, r2)"
    "evicted b st1 (drop n1 es) n2 st2" "queue_wf b st2 (drop n2 (drop n1 es))"
    "write_index (queue st2) = write_index (queue st1)"
    "r2 = MEMORY_QUEUE_SUCCESS \<and> \<not> must_clean need (queue st2) \<or>
     r2 = MEMORY_QUEUE_WRITE_BLOCKED \<and> blocked_at b st1 (drop n2 (drop n1 es)) st2 (Ptr b (write_index (queue st1)))"
    using clean_phase [OF P(3) need(1), of allocs] by blast
  let ?w = "write_index (queue st2)" and ?n = "n1 + n2"
  have ev: "evicted b st es ?n st2" using evicted_trans [OF P(2) C(2)] .
  consider "r1 = MEMORY_QUEUE_WRITE_BLOCKED" | "r1 = MEMORY_QUEUE_SUCCESS" "r2 = MEMORY_QUEUE_WRITE_BLOCKED"
    | "r1 = MEMORY_QUEUE_SUCCESS" "r2 = MEMORY_QUEUE_SUCCESS"
    using P(4) C(5) by blast
  then show ?thesis
  proof cases
    case 1
    then have "memory_queue_allocate allocs ksize vsize expires out0 st = Inr (st1, r1, out1)"
      using P(1) need(2) by (simp add: memory_queue_allocate_def total Let_def)
    then show ?thesis using 1 P by blast
  next
    case 2
    then have "memory_queue_allocate allocs ksize vsize expires out0 st = Inr (st2, r2, out1)"
      using P(1) C(1) need(2) by (simp add: memory_queue_allocate_def total Let_def)
    moreover have "blocked_at b st (drop ?n es) st2 out1" using blocked_at_earlier [OF P(2)] C(5) P(4) 2 by auto
    ultimately show ?thesis using 2 ev by blast
  next
    case 3
    have "\<not> must_clean (entry_size h) (queue st2)" "?w + entry_size h + header_size \<le> capacity_bytes (queue st2)"
      "\<not> active h" "\<not> end_of_buffer h" "queue_fields b st2 (drop ?n es)"
      using 3 P(2,4) C need(3) by (simp_all add: h_def evicted_def queue_wf_def add.commute)
    note A = append_entry [OF this(5,1-4), unfolded need(3)]
    define st3 where "st3 = st2\<lparr>mem := put_header (mem st2) (Ptr b ?w) h, queue := (queue st2)\<lparr>
        entry_count := add64 (entry_count (queue st2)) 1, write_index := add64 ?w need,
        occupied_bytes := add64 (occupied_bytes (queue st2)) need\<rparr>\<rparr>"
    have "memory_queue_allocate allocs ksize vsize expires out0 st = Inr (st3, MEMORY_QUEUE_SUCCESS, Ptr b ?w)"
      using P(1,4) C(1,4) 3 need(2) store_header_in_bounds [OF A(3)]
      by (simp add: memory_queue_allocate_def total Let_def st3_def h_def)
    moreover have "evicted b st2 (drop ?n es) 0 st3" using A(2) by (simp add: st3_def evicted_def put_header_block)
    then have "evicted b st es ?n st3" using evicted_trans [OF ev, of 0 st3] by simp
    moreover have "queue_wf b st3 (drop ?n es @ [?w])" "header_at (mem st3) (Ptr b ?w) = h" using A(1) by (simp_all add: st3_def)
    moreover have "?w \<in> {0, write_index (queue st)}" "?w + need + header_size \<le> capacity_bytes (queue st)"
      using P(4) 3 C(4) by auto
    ultimately show ?thesis unfolding h_def need_def by blast
  qed
qed

end
