(* ===== verification/MemoryQueueProperties.thy ===== *)
theory MemoryQueueProperties
  imports MemoryQueueCorrect
begin

text \<open>
  The properties of the entry queue of \<^verbatim>\<open>src/memory_queue.c\<close>: the invariant over every run of
  allocations, lock changes and payload writes, first-in first-out eviction that spares locked
  entries, and the sizes for which \<open>memory_queue_allocate\<close> breaks the buffer. \<open>queue_entries\<close> reads
  the entries off the buffer as the code walks it.
\<close>

section \<open>The entries of a queue\<close>

fun walk :: "memory \<Rightarrow> nat \<Rightarrow> nat \<Rightarrow> nat \<Rightarrow> nat list" where
  "walk m b 0 i = []"
| "walk m b (Suc n) i =
     (let e = (if end_of_buffer (header_at m (Ptr b i)) then 0 else i)
      in e # walk m b n (e + entry_size (header_at m (Ptr b e))))"

definition queue_entries :: "nat \<Rightarrow> store \<Rightarrow> nat list" where
  "queue_entries b st = walk (mem st) b (entry_count (queue st)) (read_index (queue st))"

lemma walk_chain: "chain m b i es j \<Longrightarrow> walk m b (length es) i = es"
  by (induction es arbitrary: i) (auto simp: Let_def)

lemma walk_append: "chain m b i es j \<Longrightarrow> walk m b (length es + n) i = es @ walk m b n j"
  by (induction es arbitrary: i) (auto simp: Let_def)

lemma walk_marker: "end_of_buffer (header_at m (Ptr b i)) \<Longrightarrow> chain m b 0 es j \<Longrightarrow>
    walk m b (length es) i = es"
proof (cases es)
  case (Cons e es')
  assume "end_of_buffer (header_at m (Ptr b i))" "chain m b 0 es j"
  then show ?thesis using Cons walk_chain [of m b _ es' j] by (auto simp: Let_def)
qed simp

lemma queue_wf_entries:
  assumes "queue_wf b st es"
  shows "queue_entries b st = es"
proof -
  have F: "queue_fields b st es" using assms by (simp add: queue_wf_def)
  note f = queue_fieldsD [OF F]
  from f(7) consider "chain (mem st) b (read_index (queue st)) es (write_index (queue st))"
    | es1 es2 j where "es = es1 @ es2" "chain (mem st) b (read_index (queue st)) es1 j"
      "end_of_buffer (header_at (mem st) (Ptr b j))" "chain (mem st) b 0 es2 (write_index (queue st))"
    by (auto simp: queue_layout_def)
  then show ?thesis
  proof cases
    case 1
    then show ?thesis using f(5) walk_chain by (simp add: queue_entries_def)
  next
    case 2
    then show ?thesis
      using f(5) walk_append [OF 2(2), of "length es2"] walk_marker [OF 2(3,4)]
      by (simp add: queue_entries_def)
  qed
qed

definition queue_ok :: "nat \<Rightarrow> store \<Rightarrow> bool" where
  "queue_ok b st \<longleftrightarrow> queue_wf b st (queue_entries b st)"

lemma queue_okI: "queue_wf b st es \<Longrightarrow> queue_ok b st \<and> queue_entries b st = es"
  using queue_wf_entries by (auto simp: queue_ok_def)

section \<open>Entries do not overlap\<close>

lemma layout_disjoint:
  assumes L: "queue_layout m b c r w es" and e: "e \<in> set es" "f \<in> set es" "e \<noteq> f"
  shows "e + entry_size (header_at m (Ptr b e)) \<le> f \<or> f + entry_size (header_at m (Ptr b f)) \<le> e"
proof -
  from L consider "chain m b r es w"
    | es1 es2 j where "es = es1 @ es2" "w \<le> r" "chain m b r es1 j" "chain m b 0 es2 w"
    by (auto simp: queue_layout_def)
  then show ?thesis
  proof cases
    case 1
    then show ?thesis using chain_disjoint e by blast
  next
    case 2
    consider "e \<in> set es1" "f \<in> set es1" | "e \<in> set es2" "f \<in> set es2"
      | "e \<in> set es1" "f \<in> set es2" | "e \<in> set es2" "f \<in> set es1"
      using e(1,2) 2(1) by auto
    then show ?thesis
    proof cases
      case 1
      then show ?thesis using chain_disjoint [OF 2(3)] e(3) by blast
    next
      case c: 2
      then show ?thesis using chain_disjoint [OF 2(4)] e(3) by blast
    next
      case 3
      then show ?thesis using chain_mem [OF 2(3) 3(1)] chain_mem [OF 2(4) 3(2)] 2(2) by simp
    next
      case 4
      then show ?thesis using chain_mem [OF 2(3) 4(2)] chain_mem [OF 2(4) 4(1)] 2(2) by simp
    qed
  qed
qed

section \<open>Writes inside one entry\<close>

text \<open>\<open>m'\<close> differs from \<open>m\<close> at most inside the entry at \<open>e\<close>, whose header keeps its shape.\<close>

definition changed_in_entry :: "nat \<Rightarrow> memory \<Rightarrow> memory \<Rightarrow> nat \<Rightarrow> bool" where
  "changed_in_entry b m m' e \<longleftrightarrow>
     block_size m' = block_size m \<and>
     (\<forall>x. x < e \<or> e + entry_size (header_at m (Ptr b e)) \<le> x \<longrightarrow> bytes m' b x = bytes m b x) \<and>
     key_size (header_at m' (Ptr b e)) = key_size (header_at m (Ptr b e)) \<and>
     value_size (header_at m' (Ptr b e)) = value_size (header_at m (Ptr b e)) \<and>
     end_of_buffer (header_at m' (Ptr b e)) = end_of_buffer (header_at m (Ptr b e)) \<and>
     active (header_at m' (Ptr b e)) = active (header_at m (Ptr b e))"

lemma changed_range:
  assumes "changed_in_entry b m m' e" and "f + n \<le> e \<or> e + entry_size (header_at m (Ptr b e)) \<le> f"
  shows "raw_bytes m' (Ptr b f) n = raw_bytes m (Ptr b f) n"
  using assms by (auto simp: changed_in_entry_def)

lemma changed_header:
  assumes "changed_in_entry b m m' e"
    and "f + header_size \<le> e \<or> e + entry_size (header_at m (Ptr b e)) \<le> f"
  shows "header_at m' (Ptr b f) = header_at m (Ptr b f)"
  by (simp only: header_at_def changed_range [OF assms])

lemma chain_shape_cong:
  assumes "\<forall>e\<in>set es. key_size (header_at m' (Ptr b e)) = key_size (header_at m (Ptr b e)) \<and>
      value_size (header_at m' (Ptr b e)) = value_size (header_at m (Ptr b e)) \<and>
      end_of_buffer (header_at m' (Ptr b e)) = end_of_buffer (header_at m (Ptr b e)) \<and>
      active (header_at m' (Ptr b e)) = active (header_at m (Ptr b e))"
  shows "chain m' b i es j = chain m b i es j" and "chain_size m' b es = chain_size m b es"
  using assms by (induction es arbitrary: i) auto

lemma queue_wf_changed:
  assumes W: "queue_wf b st es" and e: "e \<in> set es" and ch: "changed_in_entry b (mem st) m' e"
  shows "queue_wf b (st\<lparr>mem := m'\<rparr>) es"
    and "f \<in> set es \<Longrightarrow> f \<noteq> e \<Longrightarrow> raw_bytes m' (Ptr b f) (entry_size (header_at (mem st) (Ptr b f))) =
           raw_bytes (mem st) (Ptr b f) (entry_size (header_at (mem st) (Ptr b f)))"
proof -
  let ?m = "mem st" and ?r = "read_index (queue st)" and ?w = "write_index (queue st)"
    and ?c = "capacity_bytes (queue st)"
  have F: "queue_fields b st es" using W by (simp add: queue_wf_def)
  note f = queue_fieldsD [OF F]
  have apart: "g + entry_size (header_at ?m (Ptr b g)) \<le> e \<or> e + entry_size (header_at ?m (Ptr b e)) \<le> g"
    if "g \<in> set es" "g \<noteq> e" for g
    using layout_disjoint [OF f(7) that(1) e that(2)] .
  show "f \<in> set es \<Longrightarrow> f \<noteq> e \<Longrightarrow> raw_bytes m' (Ptr b f) (entry_size (header_at ?m (Ptr b f))) =
           raw_bytes ?m (Ptr b f) (entry_size (header_at ?m (Ptr b f)))"
    using changed_range [OF ch apart] .
  have shape: "\<forall>g\<in>set es. key_size (header_at m' (Ptr b g)) = key_size (header_at ?m (Ptr b g)) \<and>
      value_size (header_at m' (Ptr b g)) = value_size (header_at ?m (Ptr b g)) \<and>
      end_of_buffer (header_at m' (Ptr b g)) = end_of_buffer (header_at ?m (Ptr b g)) \<and>
      active (header_at m' (Ptr b g)) = active (header_at ?m (Ptr b g))"
  proof
    fix g
    assume g: "g \<in> set es"
    show "key_size (header_at m' (Ptr b g)) = key_size (header_at ?m (Ptr b g)) \<and>
      value_size (header_at m' (Ptr b g)) = value_size (header_at ?m (Ptr b g)) \<and>
      end_of_buffer (header_at m' (Ptr b g)) = end_of_buffer (header_at ?m (Ptr b g)) \<and>
      active (header_at m' (Ptr b g)) = active (header_at ?m (Ptr b g))"
    proof (cases "g = e")
      case True
      then show ?thesis using ch by (simp add: changed_in_entry_def)
    next
      case False
      then have "header_at m' (Ptr b g) = header_at ?m (Ptr b g)"
        using apart [OF g False] by (intro changed_header [OF ch]) auto
      then show ?thesis by simp
    qed
  qed
  note cong = chain_shape_cong [of _ m' b ?m]
  have "queue_layout m' b ?c ?r ?w es"
  proof (cases "chain ?m b ?r es ?w")
    case True
    then show ?thesis using cong(1) [OF shape] by (simp add: queue_layout_def)
  next
    case False
    then obtain es1 es2 j where L: "es = es1 @ es2" "es1 \<noteq> []" "?w \<le> ?r" "chain ?m b ?r es1 j"
      "end_of_buffer (header_at ?m (Ptr b j))" "j + header_size \<le> ?c" "chain ?m b 0 es2 ?w"
      using f(7) by (auto simp: queue_layout_def)
    have "e + entry_size (header_at ?m (Ptr b e)) \<le> j"
      using e L(1,3) chain_mem [OF L(4)] chain_mem [OF L(7)] chain_end [OF L(4)] by fastforce
    then have "header_at m' (Ptr b j) = header_at ?m (Ptr b j)"
      by (intro changed_header [OF ch]) simp
    then show ?thesis
      unfolding queue_layout_def using L cong(1) [of es1] cong(1) [of es2] shape
      by (intro disjI2 exI [of _ es1] exI [of _ es2] exI [of _ j]) simp
  qed
  then show "queue_wf b (st\<lparr>mem := m'\<rparr>) es"
    using f W ch cong(2) [OF shape]
    by (simp add: queue_wf_def queue_fields_def Let_def changed_in_entry_def)
qed

text \<open>Lock changes and payload writes are such changes.\<close>

lemma changed_by_header:
  assumes "key_size h = key_size (header_at m (Ptr b e))" "value_size h = value_size (header_at m (Ptr b e))"
    "end_of_buffer h = end_of_buffer (header_at m (Ptr b e))" "active h = active (header_at m (Ptr b e))"
  shows "changed_in_entry b m (put_header m (Ptr b e) h) e"
proof -
  have "bytes (put_header m (Ptr b e) h) b x = bytes m b x" if "x < e \<or> e + header_size \<le> x" for x
    using that by (auto simp: put_header_def length_encode_header)
  then show ?thesis using assms by (auto simp: changed_in_entry_def)
qed

lemma changed_by_payload:
  assumes "e + header_size \<le> p" and "p + length bs \<le> e + entry_size (header_at m (Ptr b e))"
  shows "changed_in_entry b m (write_raw m (Ptr b p) bs) e"
proof -
  have "header_at (write_raw m (Ptr b p) bs) (Ptr b e) = header_at m (Ptr b e)"
    unfolding header_at_def using assms(1) by (subst raw_bytes_write_other) auto
  then show ?thesis using assms by (auto simp: changed_in_entry_def)
qed

section \<open>Reachable queues\<close>

text \<open>
  What the program does to the buffer after opening it: allocations of entries that fit in front of a
  second header and allocations that are refused, lock changes of entries, writes inside the key and
  value of an entry, and cleaning, unless it removes the last entry in front of a stale end bit. The
  sizes and the cleaning that are left out do break the buffer, as the properties below show.
\<close>

inductive queue_reach :: "nat \<Rightarrow> store \<Rightarrow> bool" for b where
  reach_open: "memory_queue_open c True st = (st', 0) \<Longrightarrow> header_size \<le> c \<Longrightarrow> c < 2 ^ 32 \<Longrightarrow>
    b = next_block (mem st) \<Longrightarrow> queue_reach b st'"
| reach_allocate: "queue_reach b st \<Longrightarrow>
    header_size + unat ksize + unat vsize + header_size < capacity_bytes (queue st) \<Longrightarrow>
    memory_queue_allocate allocs ksize vsize expires out st = Inr (st', r, out') \<Longrightarrow> queue_reach b st'"
| reach_acquire: "queue_reach b st \<Longrightarrow> e \<in> set (queue_entries b st) \<Longrightarrow>
    entry_header_acquire_lock (mem st) (Ptr b e) = Inr (m', event) \<Longrightarrow> queue_reach b (st\<lparr>mem := m'\<rparr>)"
| reach_release: "queue_reach b st \<Longrightarrow> e \<in> set (queue_entries b st) \<Longrightarrow>
    entry_header_release_lock (mem st) (Ptr b e) = Inr (m', event) \<Longrightarrow> queue_reach b (st\<lparr>mem := m'\<rparr>)"
| reach_payload: "queue_reach b st \<Longrightarrow> e \<in> set (queue_entries b st) \<Longrightarrow> e + header_size \<le> p \<Longrightarrow>
    p + length bs \<le> e + entry_size (header_at (mem st) (Ptr b e)) \<Longrightarrow>
    queue_reach b (st\<lparr>mem := write_raw (mem st) (Ptr b p) bs\<rparr>)"
| reach_refused: "queue_reach b st \<Longrightarrow> capacity_bytes (queue st) < total_size (unat ksize) (unat vsize) \<Longrightarrow>
    memory_queue_allocate allocs ksize vsize expires out st = Inr (st', r, out') \<Longrightarrow> queue_reach b st'"
| reach_clean: "queue_reach b st \<Longrightarrow> \<not> stale_end_bit b st \<Longrightarrow>
    memory_queue_clean allocs now st = Inr (st', r) \<Longrightarrow> queue_reach b st'"

lemma open_wf:
  assumes "memory_queue_open c True st = (st', 0)" and "header_size \<le> c" and "c < 2 ^ 32"
  shows "queue_wf (next_block (mem st)) st' []" and "read_index (queue st') = 0"
    and "write_index (queue st') = 0" and "capacity_bytes (queue st') = c"
    and "index_ctx st' = index_ctx st" and "bytes (mem st') = bytes (mem st)"
  using assms by (auto simp: memory_queue_open_def malloc_block_def Let_def queue_wf_def
      queue_fields_def queue_layout_def)

lemma queue_changed_ok:
  assumes "queue_ok b st" and "e \<in> set (queue_entries b st)" and "changed_in_entry b (mem st) m' e"
  shows "queue_ok b (st\<lparr>mem := m'\<rparr>)" and "queue_entries b (st\<lparr>mem := m'\<rparr>) = queue_entries b st"
  using queue_okI [OF queue_wf_changed(1) [OF assms(1) [unfolded queue_ok_def] assms(2,3)]] by blast+

lemma entry_header_in_bounds:
  assumes "queue_ok b st" and "e \<in> set (queue_entries b st)"
  shows "in_bounds (mem st) (Ptr b e) header_size"
proof -
  have "queue_fields b st (queue_entries b st)" using assms(1) by (simp add: queue_ok_def queue_wf_def)
  then show ?thesis using assms(2) by (rule entry_in_bounds(2))
qed

lemma acquire_changes:
  assumes "entry_header_acquire_lock m (Ptr b e) = Inr (m', event)" and "in_bounds m (Ptr b e) header_size"
  shows "changed_in_entry b m m' e"
proof -
  have "changed_in_entry b m m e" by (simp add: changed_in_entry_def)
  then show ?thesis
    using assms by (auto simp: acquire_lock_eq simp del: in_bounds.simps intro!: changed_by_header split: if_splits)
qed

lemma release_changes:
  assumes "entry_header_release_lock m (Ptr b e) = Inr (m', event)" and "in_bounds m (Ptr b e) header_size"
  shows "changed_in_entry b m m' e"
  using assms by (auto simp: release_lock_eq simp del: in_bounds.simps intro!: changed_by_header)

lemma allocate_ok:
  fixes ksize :: u16 and vsize :: u32
  assumes "queue_ok b st"
    and "header_size + unat ksize + unat vsize + header_size < capacity_bytes (queue st)"
  shows "\<exists>n st' r out.
           memory_queue_allocate allocs ksize vsize expires out0 st = Inr (st', r, out) \<and>
           queue_ok b st' \<and> evicted b st (queue_entries b st) n st' \<and>
           (r = MEMORY_QUEUE_SUCCESS \<and>
              (\<exists>w. out = Ptr b w \<and> queue_entries b st' = drop n (queue_entries b st) @ [w] \<and>
                   header_at (mem st') out = \<lparr>active = False, end_of_buffer = False,
                     expiry = ucast expires, value_size = vsize, key_size = ksize, locks = 0\<rparr>) \<or>
            r = MEMORY_QUEUE_WRITE_BLOCKED \<and> out = Ptr b (write_index (queue st')) \<and>
              queue_entries b st' = drop n (queue_entries b st) \<and> queue_entries b st' \<noteq> [] \<and>
              locks (header_at (mem st) (Ptr b (hd (queue_entries b st')))) \<noteq> 0)"
proof -
  obtain n st' r out where
    a: "memory_queue_allocate allocs ksize vsize expires out0 st = Inr (st', r, out)"
    "evicted b st (queue_entries b st) n st'"
    "r = MEMORY_QUEUE_SUCCESS \<and>
       (\<exists>w. out = Ptr b w \<and> queue_wf b st' (drop n (queue_entries b st) @ [w]) \<and>
            header_at (mem st') out = \<lparr>active = False, end_of_buffer = False,
              expiry = ucast expires, value_size = vsize, key_size = ksize, locks = 0\<rparr>) \<or>
     r = MEMORY_QUEUE_WRITE_BLOCKED \<and> blocked_at b st (drop n (queue_entries b st)) st' out"
    using allocate_correct [OF assms(1) [unfolded queue_ok_def] assms(2), of allocs expires out0] by blast
  from a(3) show ?thesis
  proof
    assume s: "r = MEMORY_QUEUE_SUCCESS \<and>
       (\<exists>w. out = Ptr b w \<and> queue_wf b st' (drop n (queue_entries b st) @ [w]) \<and>
            header_at (mem st') out = \<lparr>active = False, end_of_buffer = False,
              expiry = ucast expires, value_size = vsize, key_size = ksize, locks = 0\<rparr>)"
    then show ?thesis using a(1,2) queue_okI by blast
  next
    assume "r = MEMORY_QUEUE_WRITE_BLOCKED \<and> blocked_at b st (drop n (queue_entries b st)) st' out"
    then show ?thesis
      using a(1,2) queue_okI [of b st' "drop n (queue_entries b st)"] unfolding blocked_at_def by metis
  qed
qed

lemma first_entry_at_read_index:
  assumes "queue_wf b st (e # es)"
  shows "entry_at (queue st) (read_index (queue st)) = Ptr b e"
proof -
  have F: "queue_fields b st (e # es)" using assms by (simp add: queue_wf_def)
  note f = queue_fieldsD [OF F]
  from f(7) have "e = read_index (queue st)" by (auto simp: queue_layout_def Cons_eq_append_conv)
  then show ?thesis using f(1) by simp
qed

lemma clean_wf:
  assumes W: "queue_wf b st es" and stale: "\<not> stale_end_bit b st"
  shows "\<exists>st' r es'. memory_queue_clean allocs now st = Inr (st', r) \<and> mem st' = mem st \<and> queue_wf b st' es' \<and>
           (es = [] \<and> r = MEMORY_QUEUE_NONE \<and> es' = [] \<or>
            es \<noteq> [] \<and> locks (header_at (mem st) (Ptr b (hd es))) \<noteq> 0 \<and> r = MEMORY_QUEUE_WRITE_BLOCKED \<and> es' = es \<or>
            es \<noteq> [] \<and> locks (header_at (mem st) (Ptr b (hd es))) = 0 \<and> r = MEMORY_QUEUE_SUCCESS \<and> es' = tl es)"
proof (cases es)
  case Nil
  then have "entry_count (queue st) = 0" using W by (simp add: queue_wf_def queue_fields_def Let_def)
  then show ?thesis using W Nil by (simp add: memory_queue_clean_def)
next
  case (Cons e es1)
  let ?p = "entry_at (queue st) (read_index (queue st))"
  have F: "queue_fields b st (e # es1)" using W Cons by (simp add: queue_wf_def)
  note eb = entry_in_bounds [OF F, of e, OF list.set_intros(1)]
  have p: "?p = Ptr b e" using first_entry_at_read_index W Cons by simp
  have n: "entry_count (queue st) \<noteq> 0" using queue_fieldsD(5) [OF F] by simp
  have "memory_queue_clean allocs now st = remove_entry allocs st ?p"
    using n eb(3) by (simp only: memory_queue_clean_def Let_def p load_bit_fields_in_bounds [OF eb(2)]) simp
  moreover have "remove_entry allocs st ?p = Inr (st, MEMORY_QUEUE_WRITE_BLOCKED)"
    if "locks (header_at (mem st) (Ptr b e)) \<noteq> 0"
    using that by (simp only: remove_entry_def p load_header_in_bounds [OF eb(2)] Let_def) simp
  moreover have "\<exists>st'. remove_entry allocs st ?p = Inr (st', MEMORY_QUEUE_SUCCESS) \<and> queue_wf b st' es1 \<and> mem st' = mem st"
    if "locks (header_at (mem st) (Ptr b e)) = 0"
    using remove_first [OF F _ that] remove_first_linear [OF F _ that stale]
    by (metis linorder_not_less)
  ultimately show ?thesis using W Cons by (cases "locks (header_at (mem st) (Ptr b e)) = 0") auto
qed

lemma queue_reach_ok: "queue_reach b st \<Longrightarrow> queue_ok b st"
proof (induction rule: queue_reach.induct)
  case (reach_open c st st')
  then show ?case using open_wf(1) queue_okI by blast
next
  case (reach_allocate st ksize vsize allocs expires out st' r out')
  then show ?case using allocate_ok [OF reach_allocate.IH, of ksize vsize allocs expires out] by auto
next
  case (reach_acquire st e m' event)
  then show ?case using acquire_changes entry_header_in_bounds queue_changed_ok(1) by blast
next
  case (reach_release st e m' event)
  then show ?case using release_changes entry_header_in_bounds queue_changed_ok(1) by blast
next
  case (reach_payload st e p bs)
  then show ?case using changed_by_payload queue_changed_ok(1) by blast
next
  case (reach_refused st ksize vsize allocs expires out st' r out')
  then show ?case by (simp add: memory_queue_allocate_def Let_def)
next
  case (reach_clean st allocs now st' r)
  obtain st1 r1 es' where c: "memory_queue_clean allocs now st = Inr (st1, r1)" "queue_wf b st1 es'"
    using clean_wf [OF reach_clean.IH [unfolded queue_ok_def] reach_clean.hyps(2), of allocs now] by blast
  then have "st' = st1" using reach_clean.hyps(3) by simp
  then show ?case using queue_okI [OF c(2)] by blast
qed

lemma layout_size:
  assumes "queue_layout m b c r w es" and "w \<le> c"
  shows "chain_size m b es \<le> c"
proof -
  from assms(1) consider "chain m b r es w"
    | es1 es2 j where "es = es1 @ es2" "w \<le> r" "chain m b r es1 j" "chain m b 0 es2 w" "j \<le> c"
    by (auto simp: queue_layout_def)
  then show ?thesis
  proof cases
    case 1
    then show ?thesis using chain_end [OF 1] assms(2) by simp
  next
    case 2
    then show ?thesis using chain_end [OF 2(3)] chain_end [OF 2(4)] by simp
  qed
qed

lemma queue_ok_safe:
  assumes "queue_ok b st"
  shows "\<forall>e\<in>set (queue_entries b st). in_bounds (mem st) (Ptr b e) (entry_size (header_at (mem st) (Ptr b e)))"
    and "\<forall>e\<in>set (queue_entries b st). \<forall>f\<in>set (queue_entries b st). e \<noteq> f \<longrightarrow>
           disjoint_ranges (Ptr b e) (entry_size (header_at (mem st) (Ptr b e)))
             (Ptr b f) (entry_size (header_at (mem st) (Ptr b f)))"
    and "entry_count (queue st) = length (queue_entries b st)"
    and "occupied_bytes (queue st) = chain_size (mem st) b (queue_entries b st)"
    and "occupied_bytes (queue st) \<le> capacity_bytes (queue st)"
proof -
  have F: "queue_fields b st (queue_entries b st)" using assms by (simp add: queue_ok_def queue_wf_def)
  note f = queue_fieldsD [OF F]
  show "\<forall>e\<in>set (queue_entries b st). in_bounds (mem st) (Ptr b e) (entry_size (header_at (mem st) (Ptr b e)))"
    using entry_in_bounds(1) [OF F] by blast
  show "\<forall>e\<in>set (queue_entries b st). \<forall>f\<in>set (queue_entries b st). e \<noteq> f \<longrightarrow>
      disjoint_ranges (Ptr b e) (entry_size (header_at (mem st) (Ptr b e)))
        (Ptr b f) (entry_size (header_at (mem st) (Ptr b f)))"
    using layout_disjoint [OF f(7)] by simp
  show "entry_count (queue st) = length (queue_entries b st)" using f(5) .
  show "occupied_bytes (queue st) = chain_size (mem st) b (queue_entries b st)" using f(6) .
  then show "occupied_bytes (queue st) \<le> capacity_bytes (queue st)"
    using layout_size [OF f(7)] f(4) by simp
qed

section \<open>Sizes at the limits\<close>

lemma open_fields:
  assumes "memory_queue_open c True st = (st', 0)"
  shows "queue st' = \<lparr>buffer = Ptr (next_block (mem st)) 0, entry_count = 0, occupied_bytes = 0,
      capacity_bytes = c, read_index = 0, write_index = 0\<rparr>"
    and "block_size (mem st') (next_block (mem st)) = Some c"
  using assms by (auto simp: memory_queue_open_def malloc_block_def Let_def)

lemma clean_while_skip: "\<not> cond (queue st) \<Longrightarrow> clean_while cond allocs st = Inr (st, MEMORY_QUEUE_SUCCESS)"
  by (subst clean_while.simps) simp

text \<open>The first allocation of a queue, when the entry does not fit in front of a second header.\<close>

lemma first_allocation_wraps:
  fixes ksize :: u16 and vsize :: u32
  assumes q: "queue st = \<lparr>buffer = Ptr b 0, entry_count = 0, occupied_bytes = 0,
      capacity_bytes = c, read_index = 0, write_index = 0\<rparr>"
    and b: "block_size (mem st) b = Some c" and c: "header_size \<le> c" "c < 2 ^ 32"
    and need: "total_size (unat ksize) (unat vsize) = need" "need \<le> c" "c \<le> need + header_size"
  shows "\<exists>st'. memory_queue_allocate allocs ksize vsize expires out0 st = Inr (st', MEMORY_QUEUE_SUCCESS, Ptr b 0) \<and>
           queue st' = \<lparr>buffer = Ptr b 0, entry_count = 1, occupied_bytes = need, capacity_bytes = c,
             read_index = 0, write_index = need\<rparr> \<and> block_size (mem st') = block_size (mem st)"
proof -
  have inb: "in_bounds m (Ptr b 0) header_size" if "block_size m = block_size (mem st)" for m
    using b c that by simp
  have sum: "add64 (add64 0 need) header_size = need + header_size" "add64 0 need = need" "add64 0 1 = 1"
    using need(2) c by (simp_all add: add64_small header_size_def)
  show ?thesis
    using q need sum inb
    by (simp add: memory_queue_allocate_def wrap_around_def clean_while_skip must_clean_def Let_def
        result_simps del: in_bounds.simps)
qed

text \<open>An allocation whose write index leaves no room for the bit fields faults when it has to wrap around.\<close>

lemma wrap_out_of_bounds:
  fixes ksize :: u16 and vsize :: u32
  assumes q: "queue st = \<lparr>buffer = Ptr b 0, entry_count = k, occupied_bytes = s,
      capacity_bytes = c, read_index = 0, write_index = w\<rparr>"
    and b: "block_size (mem st) b = Some c" and w: "w \<le> c" "c < w + bit_fields_size" "c < 2 ^ 32"
    and fits: "total_size (unat ksize) (unat vsize) \<le> c"
  shows "memory_queue_allocate allocs ksize vsize expires out0 st = Inl Bad_access"
proof -
  have "c \<le> add64 (add64 w (total_size (unat ksize) (unat vsize))) header_size"
    using w fits by (simp add: add64_small header_size_def bit_fields_size_def)
  moreover have "load_bit_fields (mem st) (Ptr b w) = Inl Bad_access"
    using b w by (simp add: load_bit_fields_def load_bytes_def)
  ultimately show ?thesis
    using q fits by (simp add: memory_queue_allocate_def wrap_around_def clean_while_skip Let_def)
qed

text \<open>
  An allocation that wraps around while the only entry, at offset 0, is locked: it has marked the end at
  the write index before the locked entry stops it.
\<close>

lemma blocked_wrap:
  fixes ksize :: u16 and vsize :: u32
  assumes q: "queue st = \<lparr>buffer = Ptr b 0, entry_count = 1, occupied_bytes = s, capacity_bytes = c,
      read_index = 0, write_index = w\<rparr>"
    and b: "block_size (mem st) b = Some c" and c: "w + header_size \<le> c" "c < 2 ^ 32" "w = 0 \<or> header_size \<le> w"
    and need: "header_size + unat ksize + unat vsize \<le> c" "c \<le> w + (header_size + unat ksize + unat vsize) + header_size"
    and h: "locks (header_at (mem st) (Ptr b 0)) \<noteq> 0" "\<not> active (header_at (mem st) (Ptr b 0))"
  shows "memory_queue_allocate allocs ksize vsize expires out0 st =
    Inr (st\<lparr>mem := put_header (mem st) (Ptr b w) ((header_at (mem st) (Ptr b w))\<lparr>end_of_buffer := True\<rparr>),
            queue := (queue st)\<lparr>write_index := 0\<rparr>\<rparr>, MEMORY_QUEUE_WRITE_BLOCKED, Ptr b 0)"
proof -
  let ?need = "header_size + unat ksize + unat vsize" and ?p = "Ptr b w"
  let ?m = "put_header (mem st) ?p ((header_at (mem st) ?p)\<lparr>end_of_buffer := True\<rparr>)"
  let ?st = "st\<lparr>mem := ?m, queue := (queue st)\<lparr>write_index := 0\<rparr>\<rparr>"
  have tot: "total_size (unat ksize) (unat vsize) = ?need"
    using need(1) c(2) by (simp add: total_size_def wrap32_small)
  have sum: "add64 (add64 w ?need) header_size = w + ?need + header_size"
    using c need(1) by (simp add: add64_small header_size_def)
  have inb: "in_bounds (mem st) ?p header_size" "in_bounds ?m (Ptr b 0) header_size"
    using b c(1) by simp_all
  have h0: "locks (header_at ?m (Ptr b 0)) \<noteq> 0" "\<not> active (header_at ?m (Ptr b 0))"
    using h c(3) by (auto simp: put_header_entry)
  have wrap: "wrap_around allocs st ?p = Inr (?st, MEMORY_QUEUE_SUCCESS, Ptr b 0)"
    using q by (simp add: wrap_around_def clean_while_skip Let_def load_bit_fields_in_bounds [OF inb(1)]
        store_bit_fields_in_bounds(2) [OF inb(1)])
  have blocked: "remove_entry allocs ?st (Ptr b 0) = Inr (?st, MEMORY_QUEUE_WRITE_BLOCKED)"
    using h0(1) by (simp add: remove_entry_def load_header_in_bounds [OF inb(2)] Let_def)
  have "force_clean allocs ?st = Inr (?st, MEMORY_QUEUE_WRITE_BLOCKED)"
    using q h0(2) blocked by (simp add: force_clean_def Let_def load_bit_fields_in_bounds [OF inb(2)])
  then have "clean_while (must_clean ?need) allocs ?st = Inr (?st, MEMORY_QUEUE_WRITE_BLOCKED)"
    using q by (subst clean_while.simps) (simp add: must_clean_def)
  then show ?thesis
    using q tot sum need wrap by (simp add: memory_queue_allocate_def Let_def)
qed

section \<open>Properties\<close>

text \<open>For the witnesses: a process that has not opened its queue, and a queue with one locked entry.\<close>

definition start_store :: store where
  "start_store = \<lparr>mem = \<lparr>next_block = 0, block_size = Map.empty, bytes = \<lambda>_ _. 0\<rparr>,
     index_ctx = \<lparr>hashmap_of = None\<rparr>,
     queue = \<lparr>buffer = Null, entry_count = 0, occupied_bytes = 0, capacity_bytes = 0,
              read_index = 0, write_index = 0\<rparr>\<rparr>"

definition locked_store :: store where
  "locked_store = \<lparr>mem = \<lparr>next_block = 1, block_size = [0 \<mapsto> 64], bytes = \<lambda>_ i. if i = 14 then 1 else 0\<rparr>,
     index_ctx = \<lparr>hashmap_of = None\<rparr>,
     queue = \<lparr>buffer = Ptr 0 0, entry_count = 1, occupied_bytes = 16, capacity_bytes = 64,
              read_index = 0, write_index = 16\<rparr>\<rparr>"

lemma start_opens:
  "16 \<le> c \<Longrightarrow> \<exists>st. memory_queue_open c True start_store = (st, 0)"
  by (simp add: memory_queue_open_def start_store_def malloc_block_def)

lemma locked_header:
  "header_at (mem locked_store) (Ptr 0 0) =
     \<lparr>active = False, end_of_buffer = False, expiry = 0, value_size = 0, key_size = 0, locks = 1\<rparr>"
  by (simp add: header_at_def locked_store_def header_size_def decode_header_def Let_def upt_rec numeral_2_eq_2)

lemma locked_queue_ok: "queue_ok 0 locked_store \<and> queue_entries 0 locked_store = [0]"
proof (rule queue_okI)
  have "chain (mem locked_store) 0 0 [0] 16" "chain_size (mem locked_store) 0 [0] = 16"
    by (simp_all add: locked_header header_size_def)
  then show "queue_wf 0 locked_store [0]"
    by (simp add: queue_wf_def queue_fields_def queue_layout_def Let_def)
       (simp add: locked_store_def header_size_def)
qed

text \<open>C20. In every queue that is reached from opening one of 16 to \<open>2 ^ 32 - 1\<close> bytes by allocations that
  fit in front of a second header or are refused, lock changes, payload writes and cleanings that do not remove the last entry in front
  of a stale end bit, the counter is the number of entries, the occupied bytes are the sum of their
  sizes and at most the capacity, every entry lies inside the buffer with its key and value, and no two
  entries share a byte.\<close>

theorem queue_always_consistent:
  assumes "queue_reach b st"
  shows "entry_count (queue st) = length (queue_entries b st) \<and>
         occupied_bytes (queue st) = (\<Sum>e\<leftarrow>queue_entries b st. entry_size (header_at (mem st) (Ptr b e))) \<and>
         occupied_bytes (queue st) \<le> capacity_bytes (queue st) \<and>
         (\<forall>e\<in>set (queue_entries b st). in_bounds (mem st) (Ptr b e) (entry_size (header_at (mem st) (Ptr b e)))) \<and>
         (\<forall>e\<in>set (queue_entries b st). \<forall>f\<in>set (queue_entries b st). e \<noteq> f \<longrightarrow>
            disjoint_ranges (Ptr b e) (entry_size (header_at (mem st) (Ptr b e)))
              (Ptr b f) (entry_size (header_at (mem st) (Ptr b f))))"
  using queue_ok_safe [OF queue_reach_ok [OF assms]] unfolding chain_size_def by blast

theorem queue_always_consistent_witness:
  "\<exists>st. memory_queue_open 64 True start_store = (st, 0) \<and> queue_reach 0 st \<and>
     occupied_bytes (queue st) \<le> capacity_bytes (queue st)"
proof -
  obtain st where st: "memory_queue_open 64 True start_store = (st, 0)" using start_opens [of 64] by auto
  then have r: "queue_reach 0 st" by (rule reach_open) (simp_all add: header_size_def start_store_def)
  show ?thesis using st r queue_always_consistent [OF r] by blast
qed

text \<open>C21. An allocation that fits evicts some of the oldest entries, none of them locked, keeps all the
  others byte for byte in their order and appends the new entry at the end; or the next entry to evict
  is locked and it reports \<open>WRITE_BLOCKED\<close> with the out parameter at the write index, which is not the
  locked entry's address. It never faults.\<close>

theorem allocate_is_fifo:
  fixes ksize :: u16 and vsize :: u32
  assumes "queue_ok b st"
    and "header_size + unat ksize + unat vsize + header_size < capacity_bytes (queue st)"
  shows "\<exists>n st' r out.
           memory_queue_allocate allocs ksize vsize expires out0 st = Inr (st', r, out) \<and>
           queue_ok b st' \<and> n \<le> length (queue_entries b st) \<and>
           (\<forall>e\<in>set (take n (queue_entries b st)). locks (header_at (mem st) (Ptr b e)) = 0) \<and>
           same_entries b (mem st) (mem st') (drop n (queue_entries b st)) \<and>
           (r = MEMORY_QUEUE_SUCCESS \<and>
              (\<exists>w. out = Ptr b w \<and> queue_entries b st' = drop n (queue_entries b st) @ [w] \<and>
                   header_at (mem st') out = \<lparr>active = False, end_of_buffer = False,
                     expiry = ucast expires, value_size = vsize, key_size = ksize, locks = 0\<rparr>) \<or>
            r = MEMORY_QUEUE_WRITE_BLOCKED \<and> out = Ptr b (write_index (queue st')) \<and>
              queue_entries b st' = drop n (queue_entries b st) \<and> queue_entries b st' \<noteq> [] \<and>
              locks (header_at (mem st) (Ptr b (hd (queue_entries b st')))) \<noteq> 0)"
  using allocate_ok [OF assms, of allocs expires out0] unfolding evicted_def by blast

theorem allocate_is_fifo_witness:
  "\<exists>st' r out. memory_queue_allocate (True, True) 1 2 0 Null locked_store = Inr (st', r, out) \<and> queue_ok 0 st'"
  using allocate_is_fifo [of 0 locked_store 1 2 "(True, True)" 0 Null] locked_queue_ok
  by (auto simp: header_size_def locked_store_def)

text \<open>C19. While an entry is locked, an allocation that fits in front of a second header neither evicts it
  nor changes a byte of it.\<close>

theorem locked_entry_survives:
  fixes ksize :: u16 and vsize :: u32
  assumes "queue_ok b st"
    and "header_size + unat ksize + unat vsize + header_size < capacity_bytes (queue st)"
    and "e \<in> set (queue_entries b st)" and "locks (header_at (mem st) (Ptr b e)) \<noteq> 0"
  shows "\<exists>st' r out.
           memory_queue_allocate allocs ksize vsize expires out0 st = Inr (st', r, out) \<and>
           e \<in> set (queue_entries b st') \<and>
           raw_bytes (mem st') (Ptr b e) (entry_size (header_at (mem st) (Ptr b e))) =
             raw_bytes (mem st) (Ptr b e) (entry_size (header_at (mem st) (Ptr b e)))"
proof -
  obtain n st' r out where a: "memory_queue_allocate allocs ksize vsize expires out0 st = Inr (st', r, out)"
    "evicted b st (queue_entries b st) n st'"
    "(\<exists>w. queue_entries b st' = drop n (queue_entries b st) @ [w]) \<or>
     queue_entries b st' = drop n (queue_entries b st)"
    using allocate_ok [OF assms(1,2), of allocs expires out0] by blast
  have "e \<in> set (drop n (queue_entries b st))"
    using assms(3,4) a(2) append_take_drop_id [of n "queue_entries b st"]
    unfolding evicted_def by (metis Un_iff set_append)
  then have "e \<in> set (queue_entries b st')" and
    "raw_bytes (mem st') (Ptr b e) (entry_size (header_at (mem st) (Ptr b e))) =
       raw_bytes (mem st) (Ptr b e) (entry_size (header_at (mem st) (Ptr b e)))"
    using a(2,3) by (auto simp: evicted_def same_entries_def)
  then show ?thesis using a(1) by blast
qed

theorem locked_entry_survives_witness:
  "\<exists>st' r out. memory_queue_allocate (True, True) 9 20 0 Null locked_store = Inr (st', r, out) \<and>
     0 \<in> set (queue_entries 0 st')"
  using locked_entry_survives [of 0 locked_store 9 20 0 "(True, True)" 0 Null] locked_queue_ok locked_header
  by (auto simp: header_size_def locked_store_def)

text \<open>C24. Without the bound on the size a locked entry is not safe. On a new queue of less than \<open>2 ^ 32\<close>
  bytes whose first entry is locked, a second entry that fits, but not behind the first one, is blocked
  and leaves both indices at offset 0; an allocation that leaves at most a header of room then sets the
  end bit in the locked entry, before it is blocked as well.\<close>

theorem large_allocation_marks_locked_entry:
  fixes k1 k2 k3 :: u16 and v1 v2 v3 :: u32
  assumes "memory_queue_open c True st0 = (st, 0)" and "c < 2 ^ 32"
    and fit: "header_size + unat k1 + unat v1 + header_size < c" "header_size + unat k2 + unat v2 + header_size < c"
    and second: "c \<le> (header_size + unat k1 + unat v1) + (header_size + unat k2 + unat v2) + header_size"
    and third: "header_size + unat k3 + unat v3 \<le> c" "c \<le> header_size + unat k3 + unat v3 + header_size"
  shows "\<exists>st1 m st2 st3. let e = Ptr (next_block (mem st0)) 0 in
           memory_queue_allocate allocs k1 v1 t1 Null st = Inr (st1, MEMORY_QUEUE_SUCCESS, e) \<and>
           entry_header_acquire_lock (mem st1) e = Inr (m, LOCK_EVENT_NONE) \<and>
           memory_queue_allocate allocs k2 v2 t2 Null (st1\<lparr>mem := m\<rparr>) = Inr (st2, MEMORY_QUEUE_WRITE_BLOCKED, e) \<and>
           memory_queue_allocate allocs k3 v3 t3 Null st2 = Inr (st3, MEMORY_QUEUE_WRITE_BLOCKED, e) \<and>
           locks (header_at (mem st2) e) = 1 \<and> \<not> end_of_buffer (header_at (mem st2) e) \<and>
           locks (header_at (mem st3) e) = 1 \<and> end_of_buffer (header_at (mem st3) e) \<and>
           \<not> queue_ok (next_block (mem st0)) st3"
proof -
  let ?b = "next_block (mem st0)" and ?n1 = "header_size + unat k1 + unat v1"
  let ?h = "\<lparr>active = False, end_of_buffer = False, expiry = ucast t1, value_size = v1, key_size = k1, locks = 0\<rparr>"
  note o = open_fields [OF assms(1)]
  have tot: "total_size (unat k1) (unat v1) = ?n1" using fit(1) assms(2) by (simp add: total_size_def wrap32_small)
  have sum: "add64 (add64 0 ?n1) header_size = ?n1 + header_size" "add64 0 ?n1 = ?n1" "add64 0 1 = 1"
    using fit(1) assms(2) by (simp_all add: add64_small header_size_def)
  have inb: "in_bounds (mem st) (Ptr ?b 0) header_size" using o(2) fit(1) by simp
  define q1 where "q1 = \<lparr>buffer = Ptr ?b 0, entry_count = 1, occupied_bytes = ?n1, capacity_bytes = c,
      read_index = 0, write_index = ?n1\<rparr>"
  define st1 where "st1 = st\<lparr>mem := put_header (mem st) (Ptr ?b 0) ?h, queue := q1\<rparr>"
  have a1: "memory_queue_allocate allocs k1 v1 t1 Null st = Inr (st1, MEMORY_QUEUE_SUCCESS, Ptr ?b 0)"
    using o(1) fit(1) tot sum store_header_in_bounds [OF inb]
    by (simp add: memory_queue_allocate_def clean_while_skip must_clean_def Let_def st1_def q1_def)
  define m where "m = put_header (mem st1) (Ptr ?b 0) (?h\<lparr>locks := 1\<rparr>)"
  have lock: "entry_header_acquire_lock (mem st1) (Ptr ?b 0) = Inr (m, LOCK_EVENT_NONE)"
    using inb by (simp add: acquire_lock_eq st1_def m_def del: in_bounds.simps)
  define m2 where "m2 = put_header m (Ptr ?b ?n1) ((header_at m (Ptr ?b ?n1))\<lparr>end_of_buffer := True\<rparr>)"
  define st2 where "st2 = st1\<lparr>mem := m2, queue := q1\<lparr>write_index := 0\<rparr>\<rparr>"
  have a2: "memory_queue_allocate allocs k2 v2 t2 Null (st1\<lparr>mem := m\<rparr>) = Inr (st2, MEMORY_QUEUE_WRITE_BLOCKED, Ptr ?b 0)"
    using blocked_wrap [of "st1\<lparr>mem := m\<rparr>" ?b ?n1 c ?n1 k2 v2 allocs t2 Null] o(2) fit second assms(2)
    by (simp add: st2_def m2_def st1_def m_def q1_def)
  have h2: "header_at m2 (Ptr ?b 0) = ?h\<lparr>locks := 1\<rparr>"
    by (simp add: m2_def m_def put_header_entry)
  define m3 where "m3 = put_header m2 (Ptr ?b 0) (?h\<lparr>locks := 1, end_of_buffer := True\<rparr>)"
  define st3 where "st3 = st2\<lparr>mem := m3\<rparr>"
  have b2: "block_size m2 ?b = Some c" using o(2) by (simp add: m2_def m_def st1_def)
  have a3: "memory_queue_allocate allocs k3 v3 t3 Null st2 = Inr (st3, MEMORY_QUEUE_WRITE_BLOCKED, Ptr ?b 0)"
    using blocked_wrap [of st2 ?b ?n1 c 0 k3 v3 allocs t3 Null] b2 fit(1) third assms(2) h2
    by (simp add: st3_def m3_def st2_def q1_def)
  have h3: "header_at (mem st3) (Ptr ?b 0) = ?h\<lparr>locks := 1, end_of_buffer := True\<rparr>"
    by (simp add: st3_def m3_def)
  have "\<not> queue_wf ?b st3 es" if "es \<noteq> []" for es
  proof
    assume "queue_wf ?b st3 es"
    then have F: "queue_layout (mem st3) ?b c 0 0 es"
      by (simp add: queue_wf_def queue_fields_def Let_def st3_def st2_def q1_def)
    have no: "\<not> chain (mem st3) ?b 0 xs j" if "xs \<noteq> []" for xs j
      using that h3 by (cases xs) auto
    then show False using F \<open>es \<noteq> []\<close> unfolding queue_layout_def by blast
  qed
  moreover have "queue_entries ?b st3 \<noteq> []" by (simp add: queue_entries_def st3_def st2_def q1_def Let_def)
  ultimately have "\<not> queue_ok ?b st3" by (simp add: queue_ok_def)
  then show ?thesis
    using a1 lock a2 a3 h2 h3 unfolding Let_def
    by (intro exI [of _ st1] exI [of _ m] exI [of _ st2] exI [of _ st3]) (simp add: st2_def)
qed

theorem large_allocation_marks_locked_entry_witness:
  "\<exists>st st1 m st2 st3. memory_queue_open 64 True start_store = (st, 0) \<and>
     memory_queue_allocate (True, True) 8 8 0 Null st = Inr (st1, MEMORY_QUEUE_SUCCESS, Ptr 0 0) \<and>
     entry_header_acquire_lock (mem st1) (Ptr 0 0) = Inr (m, LOCK_EVENT_NONE) \<and>
     memory_queue_allocate (True, True) 4 4 0 Null (st1\<lparr>mem := m\<rparr>) = Inr (st2, MEMORY_QUEUE_WRITE_BLOCKED, Ptr 0 0) \<and>
     memory_queue_allocate (True, True) 4 30 0 Null st2 = Inr (st3, MEMORY_QUEUE_WRITE_BLOCKED, Ptr 0 0) \<and>
     end_of_buffer (header_at (mem st3) (Ptr 0 0))"
proof -
  obtain st where st: "memory_queue_open 64 True start_store = (st, 0)" using start_opens [of 64] by auto
  have "next_block (mem start_store) = 0" by (simp add: start_store_def)
  then show ?thesis
    using large_allocation_marks_locked_entry [OF st, of 8 8 4 4 4 30 "(True, True)" 0 0 0] st
    by (simp add: header_size_def Let_def) blast
qed



text \<open>C22. When no entry is locked, an allocation that fits always succeeds.\<close>

theorem allocate_unlocked_succeeds:
  fixes ksize :: u16 and vsize :: u32
  assumes "queue_ok b st"
    and "header_size + unat ksize + unat vsize + header_size < capacity_bytes (queue st)"
    and "\<forall>e\<in>set (queue_entries b st). locks (header_at (mem st) (Ptr b e)) = 0"
  shows "\<exists>st' out. memory_queue_allocate allocs ksize vsize expires out0 st =
           Inr (st', MEMORY_QUEUE_SUCCESS, out) \<and> queue_entries b st' \<noteq> [] \<and>
           out = Ptr b (last (queue_entries b st'))"
proof -
  obtain n st' r out where a: "memory_queue_allocate allocs ksize vsize expires out0 st = Inr (st', r, out)"
    "(r = MEMORY_QUEUE_SUCCESS \<and> (\<exists>w. out = Ptr b w \<and> queue_entries b st' = drop n (queue_entries b st) @ [w])) \<or>
     (queue_entries b st' = drop n (queue_entries b st) \<and> queue_entries b st' \<noteq> [] \<and>
      locks (header_at (mem st) (Ptr b (hd (queue_entries b st')))) \<noteq> 0)"
    using allocate_ok [OF assms(1,2), of allocs expires out0] by blast
  have "hd xs \<in> set (queue_entries b st)" if "xs = drop n (queue_entries b st)" "xs \<noteq> []" for xs
    using that hd_in_set in_set_dropD by metis
  then show ?thesis using a assms(3) by auto
qed

theorem allocate_unlocked_succeeds_witness:
  "\<exists>st st' out. memory_queue_open 64 True start_store = (st, 0) \<and>
     memory_queue_allocate (True, True) 1 2 0 Null st = Inr (st', MEMORY_QUEUE_SUCCESS, out)"
proof -
  obtain st where st: "memory_queue_open 64 True start_store = (st, 0)" using start_opens [of 64] by auto
  have "queue_ok 0 st" "queue_entries 0 st = []" "capacity_bytes (queue st) = 64"
    using open_wf [OF st] queue_okI [of 0 st "[]"] by (simp_all add: header_size_def start_store_def)
  then show ?thesis
    using allocate_unlocked_succeeds [of 0 st 1 2 "(True, True)" 0 Null] st by (auto simp: header_size_def)
qed

text \<open>C25. The check \<open>total_size > capacity_bytes\<close> admits entries that leave no room for the eight bytes of
  a header's bit fields: on a new queue such an allocation succeeds, and the next one of any admitted
  size writes its end mark outside the buffer.\<close>

theorem allocate_full_capacity_breaks:
  fixes ksize :: u16 and vsize :: u32
  assumes "memory_queue_open c True st0 = (st, 0)" and "c < 2 ^ 32"
    and "header_size + unat ksize + unat vsize \<le> c" and "c < header_size + unat ksize + unat vsize + bit_fields_size"
    and "total_size (unat ksize') (unat vsize') \<le> c"
  shows "\<exists>st' out. memory_queue_allocate allocs ksize vsize expires out0 st = Inr (st', MEMORY_QUEUE_SUCCESS, out) \<and>
           memory_queue_allocate allocs' ksize' vsize' expires' out0' st' = Inl Bad_access"
proof -
  let ?need = "header_size + unat ksize + unat vsize"
  note o = open_fields [OF assms(1)]
  have "total_size (unat ksize) (unat vsize) = ?need"
    using assms(2,3) by (simp add: total_size_def wrap32_small)
  then obtain st' where "memory_queue_allocate allocs ksize vsize expires out0 st =
      Inr (st', MEMORY_QUEUE_SUCCESS, Ptr (next_block (mem st0)) 0)"
    "queue st' = \<lparr>buffer = Ptr (next_block (mem st0)) 0, entry_count = 1, occupied_bytes = ?need,
       capacity_bytes = c, read_index = 0, write_index = ?need\<rparr>"
    "block_size (mem st') = block_size (mem st)"
    using first_allocation_wraps [OF o _ assms(2), of ksize vsize ?need allocs expires out0] assms(3,4)
    by (auto simp: header_size_def bit_fields_size_def)
  then show ?thesis using wrap_out_of_bounds assms(2-5) o(2) by auto
qed

theorem allocate_full_capacity_breaks_witness:
  "\<exists>st st' out. memory_queue_open 64 True start_store = (st, 0) \<and>
     memory_queue_allocate (True, True) 8 33 0 Null st = Inr (st', MEMORY_QUEUE_SUCCESS, out) \<and>
     memory_queue_allocate (True, True) 0 0 0 Null st' = Inl Bad_access"
proof -
  obtain st where st: "memory_queue_open 64 True start_store = (st, 0)" using start_opens [of 64] by auto
  then show ?thesis
    using allocate_full_capacity_breaks [OF st, of 8 33 0 0 "(True, True)" 0 Null "(True, True)" 0 Null]
    by (auto simp: header_size_def bit_fields_size_def total_size_def wrap32_def)
qed

text \<open>C26. The entry size is truncated to 32 bits: on a new queue, sizes whose sum with the header exceeds
  \<open>2 ^ 32\<close> by less than the capacity are accepted, and the value the header announces does not fit the
  buffer.\<close>

theorem allocate_truncates_size:
  fixes ksize :: u16 and vsize :: u32
  assumes "memory_queue_open c True st0 = (st, 0)" and "header_size \<le> c" and "c < 2 ^ 32"
    and "2 ^ 32 \<le> header_size + unat ksize + unat vsize"
    and "header_size + unat ksize + unat vsize - 2 ^ 32 + header_size < c"
  shows "\<exists>st' out. memory_queue_allocate allocs ksize vsize expires out0 st = Inr (st', MEMORY_QUEUE_SUCCESS, out) \<and>
           key_size (header_at (mem st') out) = ksize \<and> value_size (header_at (mem st') out) = vsize \<and>
           \<not> in_bounds (mem st') out (entry_size (header_at (mem st') out))"
proof -
  let ?sum = "header_size + unat ksize + unat vsize" and ?b = "next_block (mem st0)"
  define need where "need = ?sum - 2 ^ 32"
  note o = open_fields [OF assms(1)]
  have "?sum mod 2 ^ 32 = ?sum - 2 ^ 32"
    using assms(4,5,3) by (simp add: le_mod_geq)
  then have total: "total_size (unat ksize) (unat vsize) = need"
    by (simp add: total_size_def wrap32_def need_def)
  have need: "need + header_size < c" using assms(5) by (simp add: need_def)
  have sum: "add64 (add64 0 need) header_size = need + header_size"
    using need assms(3) by (simp add: add64_small)
  have inb: "in_bounds (mem st) (Ptr ?b 0) header_size" using o(2) assms(2) by simp
  have "\<exists>st'. memory_queue_allocate allocs ksize vsize expires out0 st = Inr (st', MEMORY_QUEUE_SUCCESS, Ptr ?b 0) \<and>
      header_at (mem st') (Ptr ?b 0) = \<lparr>active = False, end_of_buffer = False, expiry = ucast expires,
        value_size = vsize, key_size = ksize, locks = 0\<rparr> \<and> block_size (mem st') ?b = Some c"
    using o need sum total inb
    by (simp add: memory_queue_allocate_def clean_while_skip must_clean_def Let_def result_simps
        del: in_bounds.simps)
  then obtain st' where st': "memory_queue_allocate allocs ksize vsize expires out0 st =
      Inr (st', MEMORY_QUEUE_SUCCESS, Ptr ?b 0)"
    "header_at (mem st') (Ptr ?b 0) = \<lparr>active = False, end_of_buffer = False, expiry = ucast expires,
        value_size = vsize, key_size = ksize, locks = 0\<rparr>" "block_size (mem st') ?b = Some c"
    by blast
  have "\<not> in_bounds (mem st') (Ptr ?b 0) ?sum" using st'(3) assms(3,4) by simp
  then show ?thesis using st'(1,2) by (intro exI [of _ st'] exI [of _ "Ptr ?b 0"]) simp
qed

theorem allocate_truncates_size_witness:
  "\<exists>st st' out. memory_queue_open 64 True start_store = (st, 0) \<and>
     memory_queue_allocate (True, True) 8 0xFFFFFFF0 0 Null st = Inr (st', MEMORY_QUEUE_SUCCESS, out) \<and>
     \<not> in_bounds (mem st') out (entry_size (header_at (mem st') out))"
proof -
  obtain st where st: "memory_queue_open 64 True start_store = (st, 0)" using start_opens [of 64] by auto
  then show ?thesis
    using allocate_truncates_size [OF st, of 8 "0xFFFFFFF0" "(True, True)" 0 Null]
    by (auto simp: header_size_def)
qed

text \<open>C27. Removing the last entry with \<open>memory_queue_clean\<close> reads the end bit behind it, where no header has
  been written: if the buffer's initial bytes have it set, the read index goes to 0 although the write
  index does not, and the next entry is not the one the read index denotes.\<close>

theorem clean_reads_stale_end_bit:
  assumes "memory_queue_open c True st0 = (st, 0)" and "64 \<le> c" and "c < 2 ^ 32"
    and "end_of_buffer (header_at (mem st) (Ptr (next_block (mem st0)) 16))"
  shows "\<exists>st1 st2 st3. memory_queue_allocate allocs 0 0 t out0 st = Inr (st1, MEMORY_QUEUE_SUCCESS, Ptr (next_block (mem st0)) 0) \<and>
           memory_queue_clean allocs now st1 = Inr (st2, MEMORY_QUEUE_SUCCESS) \<and>
           entry_count (queue st2) = 0 \<and> read_index (queue st2) = 0 \<and> write_index (queue st2) = 16 \<and>
           memory_queue_allocate allocs 0 0 t out0 st2 = Inr (st3, MEMORY_QUEUE_SUCCESS, Ptr (next_block (mem st0)) 16) \<and>
           entry_count (queue st3) = 1 \<and> read_index (queue st3) = 0"
proof -
  let ?b = "next_block (mem st0)"
  let ?h = "\<lparr>active = False, end_of_buffer = False, expiry = ucast t, value_size = 0, key_size = 0, locks = 0\<rparr>"
  note o = open_fields [OF assms(1)]
  have total: "total_size 0 0 = 16" by (simp add: total_size_def wrap32_def header_size_def)
  have inb: "in_bounds m (Ptr ?b 0) header_size" "in_bounds m (Ptr ?b 16) header_size"
    if "block_size m = block_size (mem st)" for m
    using that o(2) assms(2) by (simp_all add: header_size_def)
  define st1 where "st1 = st\<lparr>mem := put_header (mem st) (Ptr ?b 0) ?h, queue := \<lparr>buffer = Ptr ?b 0,
      entry_count = 1, occupied_bytes = 16, capacity_bytes = c, read_index = 0, write_index = 16\<rparr>\<rparr>"
  have a1: "memory_queue_allocate allocs 0 0 t out0 st = Inr (st1, MEMORY_QUEUE_SUCCESS, Ptr ?b 0)"
    using o assms(2) inb
    by (simp add: memory_queue_allocate_def clean_while_skip must_clean_def Let_def result_simps total
        add64_def header_size_def [symmetric] st1_def del: in_bounds.simps)
      (simp add: header_size_def)
  have stale: "end_of_buffer (header_at (mem st1) (Ptr ?b 16))"
    using assms(4) by (simp add: st1_def put_header_entry header_size_def)
  define st2 where "st2 = st1\<lparr>queue := \<lparr>buffer = Ptr ?b 0, entry_count = 0, occupied_bytes = 0,
      capacity_bytes = c, read_index = 0, write_index = 16\<rparr>\<rparr>"
  have h1: "load_header (mem st1) (Ptr ?b 0) = Inr ?h"
    "load_bit_fields (mem st1) (Ptr ?b 0) = Inr (bit_fields_at (mem st1) (Ptr ?b 0))"
    "load_bit_fields (mem st1) (Ptr ?b 16) = Inr (bit_fields_at (mem st1) (Ptr ?b 16))"
    using inb by (simp_all add: st1_def result_simps del: in_bounds.simps)
  have "\<not> active (header_at (mem st1) (Ptr ?b 0))" by (simp add: st1_def)
  then have "memory_queue_clean allocs now st1 = remove_entry allocs st1 (Ptr ?b 0)"
    using h1(2) by (simp add: memory_queue_clean_def Let_def) (simp add: st1_def)
  also have "\<dots> = Inr (st2, MEMORY_QUEUE_SUCCESS)"
    using h1 stale by (simp add: remove_entry_def total Let_def)
      (simp add: st1_def st2_def sub64_def add64_def)
  finally have cl: "memory_queue_clean allocs now st1 = Inr (st2, MEMORY_QUEUE_SUCCESS)" .
  have "\<exists>st3. memory_queue_allocate allocs 0 0 t out0 st2 = Inr (st3, MEMORY_QUEUE_SUCCESS, Ptr ?b 16) \<and>
      entry_count (queue st3) = 1 \<and> read_index (queue st3) = 0"
    using assms(2) inb
    by (simp add: memory_queue_allocate_def clean_while_skip must_clean_def Let_def result_simps total
        add64_def st2_def st1_def del: in_bounds.simps)
      (simp add: header_size_def)
  then show ?thesis using a1 cl by (auto simp: st2_def)
qed

text \<open>A start state whose fresh memory is not zero.\<close>

definition dirty_store :: store where
  "dirty_store = start_store\<lparr>mem := (mem start_store)\<lparr>bytes := \<lambda>_ _. 2\<rparr>\<rparr>"

theorem clean_reads_stale_end_bit_witness:
  "\<exists>st st1 st2. memory_queue_open 64 True dirty_store = (st, 0) \<and>
     memory_queue_allocate (True, True) 0 0 0 Null st = Inr (st1, MEMORY_QUEUE_SUCCESS, Ptr 0 0) \<and>
     memory_queue_clean (True, True) 0 st1 = Inr (st2, MEMORY_QUEUE_SUCCESS) \<and>
     read_index (queue st2) = 0 \<and> write_index (queue st2) = 16"
proof -
  obtain st where st: "memory_queue_open 64 True dirty_store = (st, 0)"
    by (simp add: memory_queue_open_def dirty_store_def start_store_def malloc_block_def)
  have "bytes (mem st) = (\<lambda>_ _. 2)" using open_wf(6) [OF st] by (simp add: header_size_def dirty_store_def)
  then have "raw_bytes (mem st) (Ptr 0 16) header_size = replicate 16 2"
    by (simp add: header_size_def map_replicate_const)
  moreover have "end_of_buffer (decode_header (replicate 16 2))"
  proof -
    have "take 8 (replicate 16 (2::u8)) = 2 # replicate 7 2" by (simp add: replicate_Suc [symmetric] del: replicate_Suc)
    then have "le_nat (take 8 (replicate 16 2)) = 2 + 256 * le_nat (replicate 7 2)" by (simp only: le_nat.simps) simp
    then have "le_nat (take 8 (replicate 16 2)) div 2 = 1 + 2 * (64 * le_nat (replicate 7 2))" by simp
    then show ?thesis by (simp only: decode_header_def Let_def entry_header.simps) simp
  qed
  ultimately have "end_of_buffer (header_at (mem st) (Ptr 0 16))" by (simp only: header_at_def)
  moreover have "next_block (mem dirty_store) = 0" by (simp add: dirty_store_def start_store_def)
  ultimately show ?thesis
    using clean_reads_stale_end_bit [OF st, of "(True, True)" 0 Null 0] st by auto
qed

end
