(* ===== verification/ConnectionList.thy ===== *)
theory ConnectionList
  imports Prelude
begin

text \<open>
  \<^verbatim>\<open>src/connection_list.c\<close>: the doubly linked list of the connections that are served. Connections
  live in a heap from addresses to records; the list only uses their \<open>previous\<close> and \<open>next\<close> links, so
  its operations are stated for every extension of \<open>connection_links\<close> (the connection of
  \<^verbatim>\<open>src/connection.c\<close> is one). \<open>conn_list\<close> relates the links to a HOL list of addresses;
  \<open>conn_sequence\<close> is the contract that \<^verbatim>\<open>src/cache_server.c\<close> relies on.
\<close>

section \<open>Links\<close>

text \<open>A pointer to a connection; None is NULL.\<close>

type_synonym conn_ref = "nat option"

record connection_links =
  previous :: conn_ref
  "next" :: conn_ref

type_synonym 'a conn_heap = "nat \<Rightarrow> 'a connection_links_scheme option"

definition deref :: "'a conn_heap \<Rightarrow> conn_ref \<Rightarrow> 'a connection_links_scheme result" where
  "deref h c = (case c of None \<Rightarrow> Inl Null_deref
     | Some a \<Rightarrow> (case h a of None \<Rightarrow> Inl Bad_access | Some r \<Rightarrow> Inr r))"

definition update_conn :: "'a conn_heap \<Rightarrow> conn_ref \<Rightarrow>
    ('a connection_links_scheme \<Rightarrow> 'a connection_links_scheme) \<Rightarrow> 'a conn_heap result" where
  "update_conn h c f = bindE (deref h c) (\<lambda>r. Inr (h(the c \<mapsto> f r)))"

definition connection_get_previous :: "'a conn_heap \<Rightarrow> conn_ref \<Rightarrow> conn_ref result" where
  "connection_get_previous h c = bindE (deref h c) (\<lambda>r. Inr (previous r))"

definition connection_set_previous :: "'a conn_heap \<Rightarrow> conn_ref \<Rightarrow> conn_ref \<Rightarrow> 'a conn_heap result" where
  "connection_set_previous h c p = update_conn h c (\<lambda>r. r\<lparr>previous := p\<rparr>)"

definition connection_get_next :: "'a conn_heap \<Rightarrow> conn_ref \<Rightarrow> conn_ref result" where
  "connection_get_next h c = bindE (deref h c) (\<lambda>r. Inr (next r))"

definition connection_set_next :: "'a conn_heap \<Rightarrow> conn_ref \<Rightarrow> conn_ref \<Rightarrow> 'a conn_heap result" where
  "connection_set_next h c n = update_conn h c (\<lambda>r. r\<lparr>next := n\<rparr>)"

lemma deref_Some [simp]: "h a = Some r \<Longrightarrow> deref h (Some a) = Inr r"
  by (simp add: deref_def)

lemma deref_None [simp]: "deref h None = Inl Null_deref"
  by (simp add: deref_def)

lemma links_simps [simp]:
  "h a = Some r \<Longrightarrow> connection_get_previous h (Some a) = Inr (previous r)"
  "h a = Some r \<Longrightarrow> connection_get_next h (Some a) = Inr (next r)"
  "h a = Some r \<Longrightarrow> connection_set_previous h (Some a) p = Inr (h(a \<mapsto> r\<lparr>previous := p\<rparr>))"
  "h a = Some r \<Longrightarrow> connection_set_next h (Some a) p = Inr (h(a \<mapsto> r\<lparr>next := p\<rparr>))"
  by (simp_all add: connection_get_previous_def connection_get_next_def connection_set_previous_def
      connection_set_next_def update_conn_def)

section \<open>The list\<close>

record connection_list_context =
  list_head :: conn_ref
  list_tail :: conn_ref
  list_count :: u16

definition connection_list_open :: "connection_list_context \<times> u8" where
  "connection_list_open = (\<lparr>list_head = None, list_tail = None, list_count = 0\<rparr>, 0)"

text \<open>The loop of \<open>connection_list_close\<close> only walks the list; \<open>fuel\<close> bounds its rounds.\<close>

fun close_loop :: "nat \<Rightarrow> 'a conn_heap \<Rightarrow> conn_ref \<Rightarrow> unit result" where
  "close_loop 0 h current = Inl No_return"
| "close_loop (Suc fuel) h current =
     (if current = None then Inr ()
      else bindE (connection_get_next h current) (\<lambda>n. close_loop fuel h n))"

definition connection_list_close :: "nat \<Rightarrow> 'a conn_heap \<Rightarrow> connection_list_context \<Rightarrow> unit result" where
  "connection_list_close fuel h ctx = close_loop fuel h (list_head ctx)"

definition connection_list_append :: "'a conn_heap \<Rightarrow> connection_list_context \<Rightarrow> conn_ref \<Rightarrow>
    ('a conn_heap \<times> connection_list_context) result" where
  "connection_list_append h ctx connection =
     (let ctx = ctx\<lparr>list_count := list_count ctx + 1\<rparr> in
      if list_head ctx = None then Inr (h, ctx\<lparr>list_head := connection, list_tail := connection\<rparr>)
      else
        bindE (connection_set_previous h connection (list_tail ctx)) (\<lambda>h.
        bindE (connection_set_next h connection None) (\<lambda>h.
        bindE (connection_set_next h (list_tail ctx) connection) (\<lambda>h.
          Inr (h, ctx\<lparr>list_tail := connection\<rparr>)))))"

text \<open>The two conditionals of \<open>connection_list_remove\<close>: the links of the tail side and of the head side.\<close>

definition remove_from_tail_side :: "'a conn_heap \<Rightarrow> connection_list_context \<Rightarrow> conn_ref \<Rightarrow>
    ('a conn_heap \<times> connection_list_context) result" where
  "remove_from_tail_side h ctx connection =
     (if connection = list_tail ctx then
        bindE (connection_get_next h connection) (\<lambda>n.
        bindE (assertE (n = None)) (\<lambda>_.
        bindE (connection_get_previous h connection) (\<lambda>p.
          Inr (h, ctx\<lparr>list_tail := p\<rparr>))))
      else
        bindE (connection_get_next h connection) (\<lambda>n.
        bindE (connection_get_previous h connection) (\<lambda>p.
        bindE (connection_set_previous h n p) (\<lambda>h. Inr (h, ctx)))))"

definition remove_from_head_side :: "'a conn_heap \<Rightarrow> connection_list_context \<Rightarrow> conn_ref \<Rightarrow>
    ('a conn_heap \<times> connection_list_context) result" where
  "remove_from_head_side h ctx connection =
     (if connection = list_head ctx then
        bindE (connection_get_previous h connection) (\<lambda>p.
        bindE (assertE (p = None)) (\<lambda>_.
        bindE (connection_get_next h connection) (\<lambda>n.
          Inr (h, ctx\<lparr>list_head := n\<rparr>))))
      else
        bindE (connection_get_previous h connection) (\<lambda>p.
        bindE (connection_get_next h connection) (\<lambda>n.
        bindE (connection_set_next h p n) (\<lambda>h. Inr (h, ctx)))))"

definition connection_list_remove :: "'a conn_heap \<Rightarrow> connection_list_context \<Rightarrow> conn_ref \<Rightarrow>
    ('a conn_heap \<times> connection_list_context) result" where
  "connection_list_remove h ctx connection =
     bindE (remove_from_tail_side h (ctx\<lparr>list_count := list_count ctx - 1\<rparr>) connection) (\<lambda>(h, ctx).
       remove_from_head_side h ctx connection)"

definition connection_list_get_head :: "connection_list_context \<Rightarrow> conn_ref" where
  "connection_list_get_head ctx = list_head ctx"

definition connection_list_get_tail :: "connection_list_context \<Rightarrow> conn_ref" where
  "connection_list_get_tail ctx = list_tail ctx"

definition connection_list_get_count :: "connection_list_context \<Rightarrow> u16" where
  "connection_list_get_count ctx = list_count ctx"

section \<open>Linked segments\<close>

text \<open>\<open>linked h p xs n\<close>: the connections \<open>xs\<close> are linked both ways, behind \<open>p\<close> and in front of \<open>n\<close>.\<close>

fun linked :: "'a conn_heap \<Rightarrow> conn_ref \<Rightarrow> nat list \<Rightarrow> conn_ref \<Rightarrow> bool" where
  "linked h p [] n = True"
| "linked h p (x # xs) n =
     ((\<exists>r. h x = Some r \<and> previous r = p \<and> next r = (case xs of [] \<Rightarrow> n | y # ys \<Rightarrow> Some y)) \<and>
      linked h (Some x) xs n)"

definition first_of :: "nat list \<Rightarrow> conn_ref" where
  "first_of xs = (case xs of [] \<Rightarrow> None | x # _ \<Rightarrow> Some x)"

definition last_of :: "nat list \<Rightarrow> conn_ref" where
  "last_of xs = (if xs = [] then None else Some (last xs))"

definition conn_list :: "'a conn_heap \<Rightarrow> connection_list_context \<Rightarrow> nat list \<Rightarrow> bool" where
  "conn_list h ctx xs \<longleftrightarrow> distinct xs \<and> linked h None xs None \<and> list_head ctx = first_of xs \<and>
     list_tail ctx = last_of xs \<and> list_count ctx = of_nat (length xs)"

lemma linked_cong: "\<forall>x\<in>set xs. h' x = h x \<Longrightarrow> linked h' p xs n = linked h p xs n"
  by (induction xs arbitrary: p) auto

lemma linked_other [simp]: "x \<notin> set xs \<Longrightarrow> linked (h(x \<mapsto> r)) p xs n = linked h p xs n"
  by (rule linked_cong) auto

lemma linked_append:
  "linked h p (xs @ y # ys) n \<longleftrightarrow> linked h p xs (Some y) \<and>
     linked h (if xs = [] then p else Some (last xs)) (y # ys) n"
proof (induction xs arbitrary: p)
  case (Cons x xs)
  then show ?case by (cases xs) auto
qed simp

lemma linked_member: "linked h p xs n \<Longrightarrow> x \<in> set xs \<Longrightarrow> \<exists>r. h x = Some r"
  by (induction xs arbitrary: p) auto

text \<open>Relinking the end and the start of a segment.\<close>

lemma linked_set_next:
  assumes "linked h p (xs @ [x]) n" and "x \<notin> set xs"
  shows "linked (h(x \<mapsto> (the (h x))\<lparr>next := n'\<rparr>)) p (xs @ [x]) n'"
proof -
  have "linked (h(x \<mapsto> (the (h x))\<lparr>next := n'\<rparr>)) p xs (Some x) = linked h p xs (Some x)"
    using assms(2) by (intro linked_cong) auto
  then show ?thesis using assms(1) by (auto simp: linked_append)
qed

lemma linked_set_previous:
  assumes "linked h p (x # xs) n" and "x \<notin> set xs"
  shows "linked (h(x \<mapsto> (the (h x))\<lparr>previous := p'\<rparr>)) p' (x # xs) n"
proof -
  have "linked (h(x \<mapsto> (the (h x))\<lparr>previous := p'\<rparr>)) (Some x) xs n = linked h (Some x) xs n"
    using assms(2) by (intro linked_cong) auto
  then show ?thesis using assms(1) by auto
qed

lemma first_of_simps [simp]: "first_of [] = None" "first_of (x # xs) = Some x"
  by (simp_all add: first_of_def)

lemma last_of_simps [simp]: "last_of [] = None" "last_of (xs @ [x]) = Some x"
  by (simp_all add: last_of_def)

lemma first_of_append: "xs \<noteq> [] \<Longrightarrow> first_of (xs @ ys) = first_of xs"
  by (cases xs) auto

lemma last_of_append: "ys \<noteq> [] \<Longrightarrow> last_of (xs @ ys) = last_of ys"
  by (simp add: last_of_def)

lemma linked_join:
  "linked h None ys (first_of zs) \<Longrightarrow> linked h (last_of ys) zs None \<Longrightarrow> linked h None (ys @ zs) None"
  by (cases zs) (auto simp: linked_append last_of_def split: if_splits)

lemma linked_middle:
  assumes "linked h None (ys @ c # zs) None"
  shows "\<exists>r. h c = Some r \<and> previous r = last_of ys \<and> next r = first_of zs"
    and "linked h None ys (Some c)" and "linked h (Some c) zs None"
proof -
  have a: "linked h None ys (Some c)" "linked h (last_of ys) (c # zs) None"
    using assms unfolding linked_append last_of_def by auto
  then show "linked h None ys (Some c)" "linked h (Some c) zs None" by simp_all
  show "\<exists>r. h c = Some r \<and> previous r = last_of ys \<and> next r = first_of zs"
    using a(2) by (simp add: first_of_def)
qed

section \<open>Appending and removing\<close>

text \<open>\<open>unlinked h c\<close>: both links of \<open>c\<close> are NULL, as a list of one connection needs them.\<close>

definition unlinked :: "'a conn_heap \<Rightarrow> nat \<Rightarrow> bool" where
  "unlinked h c \<longleftrightarrow> (\<exists>r. h c = Some r \<and> previous r = None \<and> next r = None)"

text \<open>Two heaps with the same connections up to their links.\<close>

definition same_payload :: "'a conn_heap \<Rightarrow> 'a conn_heap \<Rightarrow> bool" where
  "same_payload h h' \<longleftrightarrow> (\<forall>c. map_option connection_links.more (h' c) = map_option connection_links.more (h c))"

lemma same_payload_refl [simp]: "same_payload h h"
  by (simp add: same_payload_def)

lemma same_payload_trans: "same_payload h h' \<Longrightarrow> same_payload h' h'' \<Longrightarrow> same_payload h h''"
  by (simp add: same_payload_def)

lemma same_payload_upd [intro]:
  "h c = Some r \<Longrightarrow> connection_links.more r' = connection_links.more r \<Longrightarrow> same_payload h (h(c \<mapsto> r'))"
  by (simp add: same_payload_def)

lemma append_correct:
  assumes L: "conn_list h ctx xs" and c: "c \<notin> set xs" "h c = Some r"
    and fresh: "xs = [] \<Longrightarrow> unlinked h c"
  shows "\<exists>h' ctx'. connection_list_append h ctx (Some c) = Inr (h', ctx') \<and> conn_list h' ctx' (xs @ [c]) \<and>
           same_payload h h' \<and> (\<forall>a. a \<notin> set (xs @ [c]) \<longrightarrow> h' a = h a)"
proof (cases xs rule: rev_cases)
  case Nil
  then show ?thesis
    using L c fresh by (auto simp: conn_list_def connection_list_append_def Let_def first_of_def
        last_of_def unlinked_def)
next
  case (snoc ys t)
  have lk: "linked h None (ys @ [t]) None" and d: "distinct (ys @ [t])" using L snoc by (simp_all add: conn_list_def)
  obtain rt where rt: "h t = Some rt" using linked_member [OF lk] by auto
  have ne: "t \<noteq> c" "c \<notin> set ys" using c(1) snoc by auto
  define h1 where "h1 = h(c \<mapsto> r\<lparr>previous := Some t, next := None\<rparr>)"
  define h2 where "h2 = h1(t \<mapsto> rt\<lparr>next := Some c\<rparr>)"
  have "linked h1 None (ys @ [t]) None"
    using lk ne by (subst linked_cong [of _ h1 h]) (auto simp: h1_def)
  then have "linked (h1(t \<mapsto> (the (h1 t))\<lparr>next := Some c\<rparr>)) None (ys @ [t]) (Some c)"
    using d by (intro linked_set_next) auto
  then have "linked h2 None (ys @ [t]) (Some c)" using rt ne by (simp add: h2_def h1_def)
  moreover have "h2 c = Some (r\<lparr>previous := Some t, next := None\<rparr>)" using ne by (simp add: h2_def h1_def)
  ultimately have "linked h2 None ((ys @ [t]) @ [c]) None"
    unfolding linked_append by simp
  moreover have "connection_list_append h ctx (Some c) =
      Inr (h2, ctx\<lparr>list_count := list_count ctx + 1, list_tail := Some c\<rparr>)"
    using L snoc c(2) rt ne
    by (simp add: connection_list_append_def conn_list_def first_of_def last_of_def Let_def h2_def h1_def
        split: list.split)
  moreover have "same_payload h h2"
    using c(2) rt ne by (auto simp: same_payload_def h2_def h1_def)
  moreover have "first_of (xs @ [c]) = first_of xs" "last_of (xs @ [c]) = Some c"
    using snoc by (simp_all add: first_of_append del: append_assoc)
  then have "conn_list h2 (ctx\<lparr>list_count := list_count ctx + 1, list_tail := Some c\<rparr>) (xs @ [c])"
    using L c(1) snoc calculation(1) by (simp add: conn_list_def)
  moreover have "\<forall>a. a \<notin> set (xs @ [c]) \<longrightarrow> h2 a = h a" using snoc by (simp add: h2_def h1_def)
  ultimately show ?thesis by blast
qed

lemma tail_side_correct:
  assumes lk: "linked h None (ys @ c # zs) None" and d: "distinct (ys @ c # zs)"
    and t: "list_tail ctx = last_of (c # zs)"
  shows "\<exists>h' ctx'. remove_from_tail_side h ctx (Some c) = Inr (h', ctx') \<and>
       linked h' None ys (Some c) \<and> linked h' (last_of ys) zs None \<and> h' c = h c \<and> same_payload h h' \<and>
       (\<forall>a. a \<notin> set zs \<longrightarrow> h' a = h a) \<and> ctx' = ctx\<lparr>list_tail := last_of (ys @ zs)\<rparr>"
proof (cases zs)
  case Nil
  then show ?thesis
    using t linked_middle(1,2) [OF lk] by (auto simp: remove_from_tail_side_def last_of_def)
next
  case (Cons z zs')
  obtain r where r: "h c = Some r" "previous r = last_of ys" "next r = Some z"
    using linked_middle(1) [OF lk] Cons by auto
  have z: "linked h (Some c) (z # zs') None" using linked_middle(3) [OF lk] Cons by simp
  then obtain rz where rz: "h z = Some rz" by auto
  define h1 where "h1 = h(z \<mapsto> rz\<lparr>previous := last_of ys\<rparr>)"
  have nz: "z \<notin> set zs'" "z \<notin> set ys" "z \<noteq> c" using d Cons by auto
  have "linked h1 (last_of ys) (z # zs') None"
    using linked_set_previous [OF z nz(1), of "last_of ys"] rz by (simp add: h1_def)
  moreover have "linked h1 None ys (Some c)"
    using linked_middle(2) [OF lk] nz(2) by (simp add: h1_def)
  moreover have "ctx\<lparr>list_tail := last_of (ys @ zs)\<rparr> = ctx" and "Some c \<noteq> list_tail ctx"
    using t d Cons by (auto simp: last_of_def)
  then have "remove_from_tail_side h ctx (Some c) = Inr (h1, ctx\<lparr>list_tail := last_of (ys @ zs)\<rparr>)"
    using r rz by (simp add: remove_from_tail_side_def h1_def)
  moreover have "same_payload h h1" using rz by (auto simp: h1_def)
  ultimately show ?thesis using Cons nz by (simp add: h1_def)
qed

lemma head_side_correct:
  assumes r: "h c = Some r" "previous r = last_of ys" "next r = first_of zs"
    and lk: "linked h None ys (Some c)" "linked h (last_of ys) zs None" and d: "distinct (ys @ c # zs)"
    and t: "list_head ctx = first_of (ys @ [c])"
  shows "\<exists>h'. remove_from_head_side h ctx (Some c) = Inr (h', ctx\<lparr>list_head := first_of (ys @ zs)\<rparr>) \<and>
      linked h' None (ys @ zs) None \<and> h' c = h c \<and>
      same_payload h h' \<and> (\<forall>a. a \<notin> set ys \<longrightarrow> h' a = h a)"
proof (cases ys rule: rev_cases)
  case Nil
  then show ?thesis using r t lk by (simp add: remove_from_head_side_def)
next
  case (snoc ys' y)
  have y: "linked h None (ys' @ [y]) (Some c)" using lk(1) snoc by simp
  then obtain ry where ry: "h y = Some ry" using linked_member by fastforce
  define h2 where "h2 = h(y \<mapsto> ry\<lparr>next := first_of zs\<rparr>)"
  have ny: "y \<notin> set ys'" "y \<notin> set zs" "y \<noteq> c" using d snoc by auto
  have "linked h2 None ys (first_of zs)"
    using linked_set_next [OF y ny(1), of "first_of zs"] ry snoc by (simp add: h2_def)
  moreover have "linked h2 (last_of ys) zs None" using lk(2) ny(2) by (simp add: h2_def)
  ultimately have "linked h2 None (ys @ zs) None" by (rule linked_join)
  moreover have "ctx\<lparr>list_head := first_of (ys @ zs)\<rparr> = ctx" and "Some c \<noteq> list_head ctx"
    using t d snoc by (cases ys'; auto simp: first_of_append)+
  then have "remove_from_head_side h ctx (Some c) = Inr (h2, ctx\<lparr>list_head := first_of (ys @ zs)\<rparr>)"
    using r ry snoc by (simp add: remove_from_head_side_def h2_def)
  moreover have "same_payload h h2" using ry by (auto simp: h2_def)
  ultimately show ?thesis using snoc ny by (simp add: h2_def)
qed

lemma remove_correct:
  assumes L: "conn_list h ctx (ys @ c # zs)"
  shows "\<exists>h' ctx'. connection_list_remove h ctx (Some c) = Inr (h', ctx') \<and> conn_list h' ctx' (ys @ zs) \<and>
           same_payload h h' \<and> h' c = h c \<and> (\<forall>a. a \<notin> set (ys @ c # zs) \<longrightarrow> h' a = h a)"
proof -
  define ctx1 where "ctx1 = ctx\<lparr>list_count := list_count ctx - 1\<rparr>"
  have lk: "linked h None (ys @ c # zs) None" and d: "distinct (ys @ c # zs)"
    using L by (simp_all add: conn_list_def)
  have t: "list_tail ctx1 = last_of (c # zs)" and hd: "list_head ctx1 = first_of (ys @ [c])"
    and n: "list_count ctx1 = of_nat (length (ys @ zs))"
    using L by (cases ys; simp add: ctx1_def conn_list_def last_of_def)+
  obtain r where r: "h c = Some r" "previous r = last_of ys" "next r = first_of zs"
    using linked_middle(1) [OF lk] by blast
  obtain h1 ctx2 where s1: "remove_from_tail_side h ctx1 (Some c) = Inr (h1, ctx2)"
    "linked h1 None ys (Some c)" "linked h1 (last_of ys) zs None" "h1 c = h c" "same_payload h h1"
    "\<forall>a. a \<notin> set zs \<longrightarrow> h1 a = h a" "ctx2 = ctx1\<lparr>list_tail := last_of (ys @ zs)\<rparr>"
    using tail_side_correct [OF lk d t] by blast
  have r1: "h1 c = Some r" and hd1: "list_head ctx2 = first_of (ys @ [c])" using r s1(4,7) hd by simp_all
  obtain h2 where s2: "remove_from_head_side h1 ctx2 (Some c) = Inr (h2, ctx2\<lparr>list_head := first_of (ys @ zs)\<rparr>)"
    "linked h2 None (ys @ zs) None" "h2 c = h1 c" "same_payload h1 h2" "\<forall>a. a \<notin> set ys \<longrightarrow> h2 a = h1 a"
    using head_side_correct [OF r1 r(2,3) s1(2,3) d hd1] by blast
  have "connection_list_remove h ctx (Some c) = Inr (h2, ctx2\<lparr>list_head := first_of (ys @ zs)\<rparr>)"
    using s1(1) s2(1) by (simp add: connection_list_remove_def ctx1_def)
  moreover have "conn_list h2 (ctx2\<lparr>list_head := first_of (ys @ zs)\<rparr>) (ys @ zs)"
    using s2(2) d s1(7) n by (simp add: conn_list_def)
  moreover have "same_payload h h2" using s1(5) s2(4) by (rule same_payload_trans)
  ultimately show ?thesis using s1(4,6) s2(3,5) by auto
qed

section \<open>The contract of the list\<close>

text \<open>
  What the server relies on: appending puts a connection at the end, removing takes it out and
  leaves it fit to be appended again. A connection that is not fit has stale links (see
  \<open>append_keeps_stale_links\<close>).
\<close>

locale conn_sequence =
  fixes rep :: "'s \<Rightarrow> 'c list \<Rightarrow> bool"
    and ready :: "'s \<Rightarrow> 'c list \<Rightarrow> 'c \<Rightarrow> bool"
    and push :: "'s \<Rightarrow> 'c \<Rightarrow> 's result"
    and take_out :: "'s \<Rightarrow> 'c \<Rightarrow> 's result"
  assumes rep_distinct: "rep s xs \<Longrightarrow> distinct xs"
    and push_law: "rep s xs \<Longrightarrow> ready s xs c \<Longrightarrow> \<exists>s'. push s c = Inr s' \<and> rep s' (xs @ [c])"
    and take_out_law: "rep s (ys @ c # zs) \<Longrightarrow>
          \<exists>s'. take_out s c = Inr s' \<and> rep s' (ys @ zs) \<and> ready s' (ys @ zs) c"
begin

definition rotate_out :: "'s \<Rightarrow> 'c \<Rightarrow> 's result" where
  "rotate_out s c = bindE (take_out s c) (\<lambda>s. push s c)"

lemma take_out_member:
  "rep s xs \<Longrightarrow> c \<in> set xs \<Longrightarrow> \<exists>s'. take_out s c = Inr s' \<and> rep s' (remove1 c xs) \<and> ready s' (remove1 c xs) c"
  using rep_distinct take_out_law by (metis remove1_split)

lemma rotate_out_member:
  "rep s xs \<Longrightarrow> c \<in> set xs \<Longrightarrow> \<exists>s'. rotate_out s c = Inr s' \<and> rep s' (remove1 c xs @ [c])"
  using take_out_member [of s xs c] push_law by (fastforce simp: rotate_out_def)

text \<open>Serving the head and moving it to the end, as often as there are connections, is fair.\<close>

fun serve_all :: "'c list \<Rightarrow> 's \<Rightarrow> 's result" where
  "serve_all [] s = Inr s"
| "serve_all (c # cs) s = bindE (rotate_out s c) (serve_all cs)"

lemma serve_round: "rep s (xs @ ys) \<Longrightarrow> \<exists>s'. serve_all xs s = Inr s' \<and> rep s' (ys @ xs)"
proof (induction xs arbitrary: s ys)
  case (Cons x xs)
  have "x \<notin> set xs \<union> set ys" using rep_distinct [OF Cons.prems] by auto
  then obtain s1 where "rotate_out s x = Inr s1" "rep s1 (xs @ (ys @ [x]))"
    using rotate_out_member [OF Cons.prems, of x] by auto
  with Cons.IH [of s1 "ys @ [x]"] show ?case by auto
qed simp

end

type_synonym 'a list_state = "'a conn_heap \<times> connection_list_context"

definition push_conn :: "'a list_state \<Rightarrow> nat \<Rightarrow> 'a list_state result" where
  "push_conn s c = connection_list_append (fst s) (snd s) (Some c)"

definition take_out_conn :: "'a list_state \<Rightarrow> nat \<Rightarrow> 'a list_state result" where
  "take_out_conn s c = connection_list_remove (fst s) (snd s) (Some c)"

definition appendable :: "'a list_state \<Rightarrow> nat list \<Rightarrow> nat \<Rightarrow> bool" where
  "appendable s xs c \<longleftrightarrow> c \<notin> set xs \<and> fst s c \<noteq> None \<and> (xs = [] \<longrightarrow> unlinked (fst s) c)"

lemma remove_leaves_appendable:
  assumes "conn_list h ctx (ys @ c # zs)" "h' c = h c"
  shows "appendable (h', ctx') (ys @ zs) c"
  using assms linked_middle(1) [of h ys c zs]
  by (auto simp: appendable_def conn_list_def unlinked_def)

interpretation served: conn_sequence "\<lambda>s xs. conn_list (fst s) (snd s) xs" appendable push_conn take_out_conn
proof unfold_locales
  fix s :: "'a list_state" and xs ys zs c
  show "conn_list (fst s) (snd s) xs \<Longrightarrow> distinct xs" by (simp add: conn_list_def)
  show "conn_list (fst s) (snd s) xs \<Longrightarrow> appendable s xs c \<Longrightarrow>
      \<exists>s'. push_conn s c = Inr s' \<and> conn_list (fst s') (snd s') (xs @ [c])"
    using append_correct [of "fst s" "snd s" xs c] by (fastforce simp: appendable_def push_conn_def)
  assume L: "conn_list (fst s) (snd s) (ys @ c # zs)"
  show "\<exists>s'. take_out_conn s c = Inr s' \<and> conn_list (fst s') (snd s') (ys @ zs) \<and> appendable s' (ys @ zs) c"
    using remove_correct [OF L] remove_leaves_appendable [OF L] by (fastforce simp: take_out_conn_def)
qed

section \<open>Runs of the list\<close>

text \<open>
  What the server does with the list: accept a new connection (its links are NULL), move a served
  one to the end, drop a disconnected one.
\<close>

datatype list_op = Accept nat | Rotate nat | Drop nat

fun apply_op :: "'a connection_links_scheme \<Rightarrow> list_op \<Rightarrow> 'a list_state \<Rightarrow> 'a list_state result" where
  "apply_op r (Accept c) s = push_conn ((fst s)(c \<mapsto> r\<lparr>previous := None, next := None\<rparr>), snd s) c"
| "apply_op r (Rotate c) s = bindE (take_out_conn s c) (\<lambda>s. push_conn s c)"
| "apply_op r (Drop c) s = bindE (take_out_conn s c) (\<lambda>s. Inr ((fst s)(c := None), snd s))"

fun apply_ops :: "'a connection_links_scheme \<Rightarrow> list_op list \<Rightarrow> 'a list_state \<Rightarrow> 'a list_state result" where
  "apply_ops r [] s = Inr s"
| "apply_ops r (x # xs) s = bindE (apply_op r x s) (apply_ops r xs)"

fun spec_op :: "list_op \<Rightarrow> nat list \<Rightarrow> nat list option" where
  "spec_op (Accept c) xs = (if c \<in> set xs then None else Some (xs @ [c]))"
| "spec_op (Rotate c) xs = (if c \<in> set xs then Some (remove1 c xs @ [c]) else None)"
| "spec_op (Drop c) xs = (if c \<in> set xs then Some (remove1 c xs) else None)"

fun spec_ops :: "list_op list \<Rightarrow> nat list \<Rightarrow> nat list option" where
  "spec_ops [] xs = Some xs"
| "spec_ops (x # ys) xs = Option.bind (spec_op x xs) (spec_ops ys)"

lemma conn_list_cong: "conn_list h ctx xs \<Longrightarrow> \<forall>x\<in>set xs. h' x = h x \<Longrightarrow> conn_list h' ctx xs"
  using linked_cong [of xs h' h] by (simp add: conn_list_def)

lemma apply_op_spec:
  assumes "conn_list (fst s) (snd s) xs" and "spec_op x xs = Some ys"
  shows "\<exists>s'. apply_op r x s = Inr s' \<and> conn_list (fst s') (snd s') ys"
proof (cases x)
  case (Accept c)
  let ?s = "((fst s)(c \<mapsto> r\<lparr>previous := None, next := None\<rparr>), snd s)"
  have "c \<notin> set xs" "ys = xs @ [c]" using assms(2) Accept by (auto split: if_splits)
  moreover from this have "conn_list (fst ?s) (snd ?s) xs" "appendable ?s xs c"
    using conn_list_cong [OF assms(1), of "fst ?s"] by (auto simp: appendable_def unlinked_def)
  ultimately show ?thesis using served.push_law [of ?s xs c] Accept by simp
next
  case (Rotate c)
  then show ?thesis
    using assms served.rotate_out_member [of s xs c] by (auto simp: served.rotate_out_def split: if_splits)
next
  case (Drop c)
  then have "c \<in> set xs" "ys = remove1 c xs" using assms(2) by (auto split: if_splits)
  moreover from this obtain s' where "take_out_conn s c = Inr s'" "conn_list (fst s') (snd s') ys"
    using served.take_out_member [OF assms(1)] by blast
  moreover have "distinct xs" using assms(1) by (simp add: conn_list_def)
  ultimately show ?thesis
    using Drop conn_list_cong [of "fst s'" "snd s'" ys "(fst s')(c := None)"] by auto
qed

lemma apply_ops_spec:
  "conn_list (fst s) (snd s) xs \<Longrightarrow> spec_ops ops xs = Some ys \<Longrightarrow>
   \<exists>s'. apply_ops r ops s = Inr s' \<and> conn_list (fst s') (snd s') ys"
proof (induction ops arbitrary: s xs)
  case (Cons x ops)
  then obtain zs where "spec_op x xs = Some zs" "spec_ops ops zs = Some ys"
    by (auto simp: bind_eq_Some_conv)
  with Cons apply_op_spec [of s xs x zs r] show ?case by fastforce
qed simp

lemma conn_list_open: "conn_list Map.empty (fst connection_list_open) []"
  by (simp add: conn_list_def connection_list_open_def)

lemma close_loop_returns:
  "linked h p xs None \<Longrightarrow> close_loop fuel h (first_of xs) = (if length xs < fuel then Inr () else Inl No_return)"
proof (induction xs arbitrary: p fuel)
  case Nil
  then show ?case by (cases fuel) simp_all
next
  case (Cons x xs)
  then show ?case using Cons.IH [of "Some x"] by (cases fuel) (auto simp: first_of_def)
qed

section \<open>Properties\<close>

text \<open>C28. Whatever connections are accepted, moved to the end and dropped from a new list, the links
  between the connections denote the list of an ordinary sequence with the same operations: no
  operation faults, \<open>head\<close> and \<open>tail\<close> are its ends and the counter is its length modulo 65536.\<close>

theorem connection_list_refines_sequence:
  assumes "spec_ops ops [] = Some xs"
  shows "\<exists>h ctx. apply_ops r ops (Map.empty, fst connection_list_open) = Inr (h, ctx) \<and>
     conn_list h ctx xs \<and> connection_list_get_head ctx = first_of xs \<and>
     connection_list_get_tail ctx = last_of xs \<and> connection_list_get_count ctx = of_nat (length xs)"
proof -
  have "conn_list (fst (Map.empty, fst connection_list_open)) (snd (Map.empty, fst connection_list_open)) []"
    using conn_list_open by simp
  then obtain s where "apply_ops r ops (Map.empty, fst connection_list_open) = Inr s"
    "conn_list (fst s) (snd s) xs"
    using apply_ops_spec [OF _ assms] by blast
  then show ?thesis
    by (cases s) (auto simp: conn_list_def connection_list_get_head_def connection_list_get_tail_def
        connection_list_get_count_def)
qed

theorem connection_list_refines_sequence_witness:
  "\<exists>h ctx. apply_ops \<lparr>previous = None, next = None\<rparr> [Accept 1, Accept 2, Accept 3, Rotate 2, Drop 1, Rotate 3]
     (Map.empty, fst connection_list_open) = Inr (h, ctx) \<and> conn_list h ctx [2, 3] \<and>
     connection_list_get_head ctx = Some 2 \<and> connection_list_get_tail ctx = Some 3 \<and>
     connection_list_get_count ctx = 2"
  using connection_list_refines_sequence [of "[Accept 1, Accept 2, Accept 3, Rotate 2, Drop 1, Rotate 3]"
      "[2, 3]" "\<lparr>previous = None, next = None\<rparr>"]
  by (simp add: last_of_def)

text \<open>The loop of \<open>connection_list_close\<close> returns on every well-formed list, after one round for
  each connection and one for the end.\<close>

theorem connection_list_close_returns:
  assumes "conn_list h ctx xs"
  shows "connection_list_close fuel h ctx = (if length xs < fuel then Inr () else Inl No_return)"
  using assms close_loop_returns [of h None xs fuel] by (simp add: connection_list_close_def conn_list_def)

definition two_connections :: "unit conn_heap" where
  "two_connections = [4 \<mapsto> \<lparr>previous = None, next = Some 7\<rparr>, 7 \<mapsto> \<lparr>previous = Some 4, next = None\<rparr>]"

lemma two_connections_list:
  "conn_list two_connections \<lparr>list_head = Some 4, list_tail = Some 7, list_count = 2\<rparr> [4, 7]"
  by (simp add: conn_list_def two_connections_def last_of_def)

theorem connection_list_close_returns_witness:
  "connection_list_close 3 two_connections \<lparr>list_head = Some 4, list_tail = Some 7, list_count = 2\<rparr> = Inr ()"
  using connection_list_close_returns [OF two_connections_list, of 3] by simp

text \<open>Serving every connection once in the order of the list and moving it to the end gives every
  connection its turn and leaves the list in the same order: the rotation starves nobody.\<close>

theorem serving_round_is_fair:
  assumes "conn_list (fst s) (snd s) xs"
  shows "\<exists>s'. apply_ops r (map Rotate xs) s = Inr s' \<and> conn_list (fst s') (snd s') xs"
proof -
  have "apply_ops r (map Rotate ys) t = served.serve_all ys t" for ys t
    by (induction ys arbitrary: t) (auto simp: served.rotate_out_def intro: bindE_cong)
  then show ?thesis using served.serve_round [of s xs "[]"] assms by simp
qed

theorem serving_round_is_fair_witness:
  "\<exists>s'. apply_ops \<lparr>previous = None, next = None\<rparr> (map Rotate [4, 7])
      (two_connections, \<lparr>list_head = Some 4, list_tail = Some 7, list_count = 2\<rparr>) = Inr s' \<and>
    conn_list (fst s') (snd s') [4, 7]"
  using serving_round_is_fair [of "(two_connections, \<lparr>list_head = Some 4, list_tail = Some 7, list_count = 2\<rparr>)" "[4, 7]"]
    two_connections_list by simp

text \<open>\<open>connection_list_append\<close> does not write the links of a connection that becomes the only one:
  a connection with a stale \<open>next\<close> link is then followed by it, and removing the connection again
  fails the assertion.\<close>

theorem append_keeps_stale_links:
  assumes "list_head ctx = None" and "h c = Some r" and "next r = Some d"
  shows "\<exists>ctx'. connection_list_append h ctx (Some c) = Inr (h, ctx') \<and>
     connection_get_next h (connection_list_get_head ctx') = Inr (Some d) \<and>
     connection_list_remove h ctx' (Some c) = Inl Assert_failed"
  using assms
  by (simp add: connection_list_append_def connection_list_get_head_def Let_def connection_list_remove_def
      remove_from_tail_side_def)

theorem append_keeps_stale_links_witness:
  "\<exists>ctx'. connection_list_append two_connections (fst connection_list_open) (Some 4) = Inr (two_connections, ctx') \<and>
     connection_get_next two_connections (connection_list_get_head ctx') = Inr (Some 7) \<and>
     connection_list_remove two_connections ctx' (Some 4) = Inl Assert_failed"
  using append_keeps_stale_links [of "fst connection_list_open" two_connections 4 "\<lparr>previous = None, next = Some 7\<rparr>" 7]
  by (simp add: connection_list_open_def two_connections_def)

end
