(* ===== verification/CacheProtocol.thy ===== *)
theory CacheProtocol
  imports EntryHeader
begin

text \<open>
  \<^verbatim>\<open>src/cache_protocol.h\<close>: the request and response types, the flags and the packed structs that
  go over the wire, with their byte layout (little-endian, no padding). The program reads a struct by
  overlaying it on received bytes, which the decoding functions do; it has no encoder. The encoding
  functions are the specification of a client that lays out its structs in the same way; every struct
  is an instance of \<open>wire_codec\<close> with them. The two unions of \<^verbatim>\<open>src/connection.c\<close> that receive and send them are kept as
  their bytes there, and read through these codecs.
\<close>

section \<open>Types and flags\<close>

definition CACHE_PROTOCOL_VERSION :: u16 where
  "CACHE_PROTOCOL_VERSION = 1"

datatype request_type =
    REQUEST_NONE
  | REQUEST_GET
  | REQUEST_PUT
  | REQUEST_DELETE
  | REQUEST_PING

datatype response_type =
    RESPONSE_NONE
  | RESPONSE_OK
  | RESPONSE_VALUE
  | RESPONSE_PONG
  | RESPONSE_KEY_OVERSIZED
  | RESPONSE_NOT_FOUND
  | RESPONSE_OUT_OF_MEMORY
  | RESPONSE_UNKNOWN_REQUEST
  | RESPONSE_UNSUPPORTED_VERSION
  | RESPONSE_VALUE_OVERSIZED

text \<open>The numbers of the enumerations; a byte that is none of them has no type.\<close>

fun request_code :: "request_type \<Rightarrow> u8" where
  "request_code REQUEST_NONE = 0"
| "request_code REQUEST_GET = 1"
| "request_code REQUEST_PUT = 2"
| "request_code REQUEST_DELETE = 3"
| "request_code REQUEST_PING = 4"

definition request_type_of :: "u8 \<Rightarrow> request_type option" where
  "request_type_of b =
     (if b = 0 then Some REQUEST_NONE else if b = 1 then Some REQUEST_GET
      else if b = 2 then Some REQUEST_PUT else if b = 3 then Some REQUEST_DELETE
      else if b = 4 then Some REQUEST_PING else None)"

fun response_code :: "response_type \<Rightarrow> u8" where
  "response_code RESPONSE_NONE = 0"
| "response_code RESPONSE_OK = 1"
| "response_code RESPONSE_VALUE = 2"
| "response_code RESPONSE_PONG = 3"
| "response_code RESPONSE_KEY_OVERSIZED = 4"
| "response_code RESPONSE_NOT_FOUND = 5"
| "response_code RESPONSE_OUT_OF_MEMORY = 6"
| "response_code RESPONSE_UNKNOWN_REQUEST = 7"
| "response_code RESPONSE_UNSUPPORTED_VERSION = 8"
| "response_code RESPONSE_VALUE_OVERSIZED = 9"

definition response_type_of :: "u8 \<Rightarrow> response_type option" where
  "response_type_of b =
     (if b = 0 then Some RESPONSE_NONE else if b = 1 then Some RESPONSE_OK
      else if b = 2 then Some RESPONSE_VALUE else if b = 3 then Some RESPONSE_PONG
      else if b = 4 then Some RESPONSE_KEY_OVERSIZED else if b = 5 then Some RESPONSE_NOT_FOUND
      else if b = 6 then Some RESPONSE_OUT_OF_MEMORY else if b = 7 then Some RESPONSE_UNKNOWN_REQUEST
      else if b = 8 then Some RESPONSE_UNSUPPORTED_VERSION
      else if b = 9 then Some RESPONSE_VALUE_OVERSIZED else None)"

definition REQUEST_FLAG_KEEP_ALIVE :: u8 where
  "REQUEST_FLAG_KEEP_ALIVE = push_bit 0 1"

lemma request_type_of_code [simp]: "request_type_of (request_code t) = Some t"
  by (cases t) (simp_all add: request_type_of_def)

lemma response_type_of_code [simp]: "response_type_of (response_code t) = Some t"
  by (cases t) (simp_all add: response_type_of_def)

lemma request_type_of_Some: "request_type_of b = Some t \<longleftrightarrow> b = request_code t"
  by (cases t) (auto simp: request_type_of_def split: if_splits)

lemma response_type_of_Some: "response_type_of b = Some t \<longleftrightarrow> b = response_code t"
  by (cases t) (auto simp: response_type_of_def split: if_splits)

section \<open>Packed structs\<close>

record request_header =
  req_version :: u16
  req_flags :: u8
  req_type :: u8

record response_header =
  resp_type :: u8

record key_arguments =
  arg_key_size :: u16

record key_value_arguments =
  kv_key_size :: u16
  kv_value_size :: u32

record value_arguments =
  arg_value_size :: u32

text \<open>\<open>aggregate_response_header_t\<close> of \<^verbatim>\<open>src/connection.c\<close>: a response header and a value size.\<close>

record aggregate_response =
  agg_header :: response_header
  agg_argument :: value_arguments

definition request_header_size :: nat where "request_header_size = 4"

definition response_header_size :: nat where "response_header_size = 1"

definition key_arguments_size :: nat where "key_arguments_size = 2"

definition key_value_arguments_size :: nat where "key_value_arguments_size = 6"

definition value_arguments_size :: nat where "value_arguments_size = 4"

definition aggregate_response_size :: nat where "aggregate_response_size = 5"

lemmas wire_sizes [layout_simps] = request_header_size_def response_header_size_def
  key_arguments_size_def key_value_arguments_size_def value_arguments_size_def
  aggregate_response_size_def

text \<open>A little-endian integer of as many bytes as the word type has.\<close>

definition word_bytes :: "'a::len word \<Rightarrow> u8 list" where
  "word_bytes w = le_bytes (LENGTH('a) div 8) (unat w)"

definition bytes_word :: "u8 list \<Rightarrow> 'a::len word" where
  "bytes_word bs = of_nat (le_nat bs)"

definition encode_request_header :: "request_header \<Rightarrow> u8 list" where
  "encode_request_header r = word_bytes (req_version r) @ [req_flags r, req_type r]"

definition decode_request_header :: "u8 list \<Rightarrow> request_header" where
  "decode_request_header bs =
     \<lparr>req_version = bytes_word (take 2 bs), req_flags = bs ! 2, req_type = bs ! 3\<rparr>"

definition encode_response_header :: "response_header \<Rightarrow> u8 list" where
  "encode_response_header r = [resp_type r]"

definition decode_response_header :: "u8 list \<Rightarrow> response_header" where
  "decode_response_header bs = \<lparr>resp_type = bs ! 0\<rparr>"

definition encode_key_arguments :: "key_arguments \<Rightarrow> u8 list" where
  "encode_key_arguments r = word_bytes (arg_key_size r)"

definition decode_key_arguments :: "u8 list \<Rightarrow> key_arguments" where
  "decode_key_arguments bs = \<lparr>arg_key_size = bytes_word (take 2 bs)\<rparr>"

definition encode_key_value_arguments :: "key_value_arguments \<Rightarrow> u8 list" where
  "encode_key_value_arguments r = word_bytes (kv_key_size r) @ word_bytes (kv_value_size r)"

definition decode_key_value_arguments :: "u8 list \<Rightarrow> key_value_arguments" where
  "decode_key_value_arguments bs =
     \<lparr>kv_key_size = bytes_word (take 2 bs), kv_value_size = bytes_word (take 4 (drop 2 bs))\<rparr>"

definition encode_value_arguments :: "value_arguments \<Rightarrow> u8 list" where
  "encode_value_arguments r = word_bytes (arg_value_size r)"

definition decode_value_arguments :: "u8 list \<Rightarrow> value_arguments" where
  "decode_value_arguments bs = \<lparr>arg_value_size = bytes_word (take 4 bs)\<rparr>"

definition encode_aggregate_response :: "aggregate_response \<Rightarrow> u8 list" where
  "encode_aggregate_response r = encode_response_header (agg_header r) @ encode_value_arguments (agg_argument r)"

definition decode_aggregate_response :: "u8 list \<Rightarrow> aggregate_response" where
  "decode_aggregate_response bs =
     \<lparr>agg_header = decode_response_header (take 1 bs), agg_argument = decode_value_arguments (drop 1 bs)\<rparr>"

section \<open>The structs are codecs\<close>

lemma length_word_bytes [simp]: "length (word_bytes (w :: 'a::len word)) = LENGTH('a) div 8"
  by (simp add: word_bytes_def)

lemma bytes_word_bytes: "8 dvd LENGTH('a) \<Longrightarrow> bytes_word (word_bytes (w :: 'a::len word)) = w"
  using unat_less_256_power [where 'a = 'a and n = "LENGTH('a) div 8" and w = w]
  by (simp add: bytes_word_def word_bytes_def)

lemma word_bytes_word:
  "8 * length bs = LENGTH('a) \<Longrightarrow> word_bytes (bytes_word bs :: 'a::len word) = bs"
  by (auto simp: word_bytes_def bytes_word_def unat_of_le_nat le_bytes_le_nat dest: sym)

lemma word_bytes_u16: "bytes_word (word_bytes (w :: u16)) = w"
  by (rule bytes_word_bytes) simp

lemma word_bytes_u32: "bytes_word (word_bytes (w :: u32)) = w"
  by (rule bytes_word_bytes) simp

lemma length2: "length bs = 2 \<longleftrightarrow> (\<exists>a b. bs = [a, b])"
  by (auto simp: length_Suc_conv numeral_2_eq_2)

lemma length4: "length bs = 4 \<longleftrightarrow> (\<exists>a b c d. bs = [a, b, c, d])"
  by (auto simp: length_Suc_conv numeral_eq_Suc)

interpretation request_wire: wire_codec encode_request_header decode_request_header request_header_size
proof unfold_locales
  fix x and bs :: "u8 list"
  show "length (encode_request_header x) = request_header_size"
    by (simp add: encode_request_header_def wire_sizes)
  show "decode_request_header (encode_request_header x) = x"
    by (simp add: encode_request_header_def decode_request_header_def word_bytes_u16 nth_append)
  assume "length bs = request_header_size"
  then obtain a b c d where "bs = [a, b, c, d]" by (auto simp: wire_sizes length4)
  then show "encode_request_header (decode_request_header bs) = bs"
    by (simp add: encode_request_header_def decode_request_header_def word_bytes_word)
qed

interpretation response_wire: wire_codec encode_response_header decode_response_header response_header_size
proof unfold_locales
  fix bs :: "u8 list"
  assume "length bs = response_header_size"
  then obtain a where "bs = [a]" by (auto simp: wire_sizes length_Suc_conv)
  then show "encode_response_header (decode_response_header bs) = bs"
    by (simp add: encode_response_header_def decode_response_header_def)
qed (simp_all add: encode_response_header_def decode_response_header_def wire_sizes)

interpretation key_wire: wire_codec encode_key_arguments decode_key_arguments key_arguments_size
  by unfold_locales (simp_all add: encode_key_arguments_def decode_key_arguments_def wire_sizes
      word_bytes_u16 word_bytes_word)

interpretation value_wire: wire_codec encode_value_arguments decode_value_arguments value_arguments_size
  by unfold_locales (simp_all add: encode_value_arguments_def decode_value_arguments_def wire_sizes
      word_bytes_u32 word_bytes_word)

interpretation key_value_wire: wire_codec encode_key_value_arguments decode_key_value_arguments
    key_value_arguments_size
proof unfold_locales
  fix bs :: "u8 list"
  assume len: "length bs = key_value_arguments_size"
  then have "take 2 bs @ take 4 (drop 2 bs) = bs"
    using append_take_drop_id [of 2 bs] by (simp add: wire_sizes)
  with len show "encode_key_value_arguments (decode_key_value_arguments bs) = bs"
    by (simp add: encode_key_value_arguments_def decode_key_value_arguments_def wire_sizes word_bytes_word)
qed (simp_all add: encode_key_value_arguments_def decode_key_value_arguments_def wire_sizes
      word_bytes_u16 word_bytes_u32)

interpretation aggregate_wire: wire_codec encode_aggregate_response decode_aggregate_response
    aggregate_response_size
proof unfold_locales
  fix x and bs :: "u8 list"
  show "length (encode_aggregate_response x) = aggregate_response_size"
    using response_wire.length_enc [of "agg_header x"] value_wire.length_enc [of "agg_argument x"]
    by (simp add: encode_aggregate_response_def wire_sizes)
  show "decode_aggregate_response (encode_aggregate_response x) = x"
    using response_wire.length_enc [of "agg_header x"] response_wire.dec_enc value_wire.dec_enc
    by (simp add: encode_aggregate_response_def decode_aggregate_response_def wire_sizes)
  assume "length bs = aggregate_response_size"
  then show "encode_aggregate_response (decode_aggregate_response bs) = bs"
    using response_wire.enc_dec [of "take 1 bs"] value_wire.enc_dec [of "drop 1 bs"]
    by (simp add: encode_aggregate_response_def decode_aggregate_response_def wire_sizes)
qed

end
