(* ===== verification/Configuration.thy ===== *)
theory Configuration
  imports Prelude
begin

text \<open>
  \<^verbatim>\<open>src/configuration.c\<close>: the command line options. A value of the array \<^verbatim>\<open>context.values\<close> is the
  memory its pointer leads to: eight little-endian bytes of an \<^verbatim>\<open>int64_t\<close>, or the bytes of a string
  with its terminating zero. \<^verbatim>\<open>atoll\<close> is the one of glibc, which saturates. An argument is a list of
  bytes without a zero, as every C string. \<^verbatim>\<open>exit(1)\<close> is the fault \<open>Panic\<close>.
\<close>

section \<open>Options\<close>

datatype configuration_type =
    ACCEPT_PERIOD_MICROS
  | CONNECTION_ACTIVE_LIMIT
  | CONNECTION_BACKLOG_LIMIT
  | CONNECTION_TIMEOUT_MICROS
  | ENTRY_CAPACITY_BYTES
  | ENTRY_EXPIRY_MICROS
  | IP_ADDRESS
  | PORT

datatype data_type = DATA_INT64 | DATA_STRING

datatype parse_state = AWAITING_KEY | AWAITING_VALUE

text \<open>The options in the order of the enumeration; an option's number is its array index.\<close>

definition configuration_types :: "configuration_type list" where
  "configuration_types =
     [ACCEPT_PERIOD_MICROS, CONNECTION_ACTIVE_LIMIT, CONNECTION_BACKLOG_LIMIT, CONNECTION_TIMEOUT_MICROS,
      ENTRY_CAPACITY_BYTES, ENTRY_EXPIRY_MICROS, IP_ADDRESS, PORT]"

definition NUM_CONFIGURATION_TYPE :: nat where
  "NUM_CONFIGURATION_TYPE = length configuration_types"

fun type_index :: "configuration_type \<Rightarrow> nat" where
  "type_index ACCEPT_PERIOD_MICROS = 0"
| "type_index CONNECTION_ACTIVE_LIMIT = 1"
| "type_index CONNECTION_BACKLOG_LIMIT = 2"
| "type_index CONNECTION_TIMEOUT_MICROS = 3"
| "type_index ENTRY_CAPACITY_BYTES = 4"
| "type_index ENTRY_EXPIRY_MICROS = 5"
| "type_index IP_ADDRESS = 6"
| "type_index PORT = 7"

lemma type_index_inject: "type_index s = type_index t \<longleftrightarrow> s = t"
  by (cases s; cases t) simp_all

text \<open>The options are ordered as the integers of the enumeration.\<close>

instantiation configuration_type :: linorder
begin

definition less_eq_configuration_type :: "configuration_type \<Rightarrow> configuration_type \<Rightarrow> bool" where
  "less_eq_configuration_type s t \<longleftrightarrow> type_index s \<le> type_index t"

definition less_configuration_type :: "configuration_type \<Rightarrow> configuration_type \<Rightarrow> bool" where
  "less_configuration_type s t \<longleftrightarrow> type_index s < type_index t"

instance
  by standard (auto simp: less_eq_configuration_type_def less_configuration_type_def type_index_inject)

end

definition data_types :: "data_type list" where
  "data_types = [DATA_INT64, DATA_INT64, DATA_INT64, DATA_INT64, DATA_INT64, DATA_INT64, DATA_STRING, DATA_INT64]"

section \<open>Values\<close>

type_synonym value_bytes = "u8 list"

definition int64_bytes :: "int \<Rightarrow> value_bytes" where
  "int64_bytes v = le_bytes 8 (unat (word_of_int v :: u64))"

definition string_bytes :: "string \<Rightarrow> value_bytes" where
  "string_bytes s = map (\<lambda>c. of_nat (of_char c)) s @ [0]"

definition default_values :: "value_bytes list" where
  "default_values =
     [int64_bytes 1000, int64_bytes 16, int64_bytes 32, int64_bytes 15000, int64_bytes (1024 * 1024),
      int64_bytes 3600000, string_bytes ''127.0.0.1'', int64_bytes 8888]"

type_synonym configuration_context = "value_bytes option list"

text \<open>\<^verbatim>\<open>memset(context.values, 0, ...)\<close>\<close>

definition cleared_context :: configuration_context where
  "cleared_context = replicate NUM_CONFIGURATION_TYPE None"

section \<open>Parsing\<close>

definition parse_key :: "string \<Rightarrow> configuration_type result" where
  "parse_key input =
     (if input = ''--accept-period-micros'' then Inr ACCEPT_PERIOD_MICROS
      else if input = ''--active-connection-limit'' then Inr CONNECTION_ACTIVE_LIMIT
      else if input = ''--connection-backlog-limit'' then Inr CONNECTION_BACKLOG_LIMIT
      else if input = ''--connection-timeout-micros'' then Inr CONNECTION_TIMEOUT_MICROS
      else if input = ''--entry-capacity-bytes'' then Inr ENTRY_CAPACITY_BYTES
      else if input = ''--entry-expiry-micros'' then Inr ENTRY_EXPIRY_MICROS
      else if input = ''--ip-address'' then Inr IP_ADDRESS
      else if input = ''--port'' then Inr PORT
      else Inl Panic)"

text \<open>\<^verbatim>\<open>atoll\<close>: white space, an optional sign, decimal digits up to the first other character.\<close>

definition is_space :: "char \<Rightarrow> bool" where
  "is_space c \<longleftrightarrow> (let n = of_char c :: nat in n = 32 \<or> 9 \<le> n \<and> n \<le> 13)"

fun digits_value :: "string \<Rightarrow> nat \<Rightarrow> nat" where
  "digits_value [] acc = acc"
| "digits_value (c # cs) acc =
     (let n = of_char c :: nat in
      if 48 \<le> n \<and> n \<le> 57 then digits_value cs (10 * acc + (n - 48)) else acc)"

definition saturate64 :: "int \<Rightarrow> int" where
  "saturate64 v = max (- (2 ^ 63)) (min (2 ^ 63 - 1) v)"

definition atoll :: "string \<Rightarrow> int" where
  "atoll s =
     (case dropWhile is_space s of
        [] \<Rightarrow> 0
      | c # cs \<Rightarrow>
          saturate64 (if c = CHR ''-'' then - int (digits_value cs 0)
                      else if c = CHR ''+'' then int (digits_value cs 0)
                      else int (digits_value (c # cs) 0)))"

text \<open>
  \<open>parse_value\<close>; \<open>ok\<close> tells whether its \<^verbatim>\<open>malloc\<close> succeeds, which the code does not check. A former
  value of the option is freed first. The size of a string is a \<^verbatim>\<open>uint32_t\<close>.
\<close>

definition parse_value :: "bool \<Rightarrow> configuration_context \<Rightarrow> string \<Rightarrow> configuration_type \<Rightarrow>
    configuration_context result" where
  "parse_value ok ctx input t =
     (case data_types ! type_index t of
        DATA_INT64 \<Rightarrow>
          if \<not> ok then Inl Null_deref else Inr (ctx[type_index t := Some (int64_bytes (atoll input))])
      | DATA_STRING \<Rightarrow>
          if \<not> ok then Inl Null_deref
          else if wrap32 (length input + 1) < length input + 1 then Inl Bad_access
          else Inr (ctx[type_index t := Some (string_bytes input)]))"

text \<open>The loop over \<^verbatim>\<open>argv[1] ... argv[argc - 1]\<close>; \<open>t\<close> is the variable \<^verbatim>\<open>type\<close>, None before it is set.\<close>

fun parse_loop :: "(nat \<Rightarrow> bool) \<Rightarrow> nat \<Rightarrow> parse_state \<Rightarrow> configuration_type option \<Rightarrow> configuration_context \<Rightarrow>
    string list \<Rightarrow> configuration_context result" where
  "parse_loop ok i st t ctx [] = Inr ctx"
| "parse_loop ok i AWAITING_KEY t ctx (arg # args) =
     bindE (parse_key arg) (\<lambda>t. parse_loop ok (Suc i) AWAITING_VALUE (Some t) ctx args)"
| "parse_loop ok i AWAITING_VALUE t ctx (arg # args) =
     (case t of
        None \<Rightarrow> Inl Bad_access
      | Some t' \<Rightarrow> bindE (parse_value (ok i) ctx arg t') (\<lambda>ctx.
                     parse_loop ok (Suc i) AWAITING_KEY t ctx args))"

text \<open>The loop that points every unset option to its default.\<close>

definition fill_defaults :: "configuration_context \<Rightarrow> configuration_context" where
  "fill_defaults ctx = map (\<lambda>i. case ctx ! i of None \<Rightarrow> Some (default_values ! i) | Some v \<Rightarrow> Some v)
     [0..<NUM_CONFIGURATION_TYPE]"

definition configuration_parse :: "(nat \<Rightarrow> bool) \<Rightarrow> string list \<Rightarrow> configuration_context result" where
  "configuration_parse ok argv =
     bindE (parse_loop ok 1 AWAITING_KEY None cleared_context (tl argv)) (\<lambda>ctx. Inr (fill_defaults ctx))"

text \<open>Reading a value: a NULL pointer faults, and so does reading eight bytes of a shorter string.\<close>

definition configuration_get_int :: "configuration_context \<Rightarrow> configuration_type \<Rightarrow> int result" where
  "configuration_get_int ctx t =
     (case ctx ! type_index t of
        None \<Rightarrow> Inl Null_deref
      | Some bs \<Rightarrow> if length bs < 8 then Inl Bad_access
                    else Inr (sint (of_nat (le_nat (take 8 bs)) :: u64)))"

definition configuration_get_string :: "configuration_context \<Rightarrow> configuration_type \<Rightarrow> value_bytes option" where
  "configuration_get_string ctx t = ctx ! type_index t"

section \<open>Lemmas\<close>

lemma type_index_less: "type_index t < NUM_CONFIGURATION_TYPE"
  by (cases t) (simp_all add: NUM_CONFIGURATION_TYPE_def configuration_types_def)

lemma types_complete: "t \<in> set configuration_types"
  by (cases t) (simp_all add: configuration_types_def)

lemma types_sorted: "sorted_wrt (<) configuration_types"
  by (simp add: configuration_types_def less_configuration_type_def)

lemma types_nth: "configuration_types ! type_index t = t"
  by (cases t) (simp_all add: configuration_types_def)

lemma data_types_nth: "data_types ! type_index t = (if t = IP_ADDRESS then DATA_STRING else DATA_INT64)"
  by (cases t) (simp_all add: data_types_def)

lemma int64_bytes_read:
  assumes "- (2 ^ 63) \<le> v" and "v < 2 ^ 63"
  shows "length (int64_bytes v) = 8" "sint (of_nat (le_nat (take 8 (int64_bytes v))) :: u64) = v"
proof -
  show "length (int64_bytes v) = 8" by (simp add: int64_bytes_def)
  have "le_nat (take 8 (int64_bytes v)) = unat (word_of_int v :: u64)"
    using unsigned_less [of "word_of_int v :: u64", where ?'a = nat]
    by (simp add: int64_bytes_def)
  then show "sint (of_nat (le_nat (take 8 (int64_bytes v))) :: u64) = v"
    using assms by (simp add: signed_of_int signed_take_bit_int_eq_self)
qed

lemma saturate64_range: "- (2 ^ 63) \<le> saturate64 v" "saturate64 v < 2 ^ 63"
  by (simp_all add: saturate64_def)

lemma atoll_range: "- (2 ^ 63) \<le> atoll s" "atoll s < 2 ^ 63"
  using saturate64_range by (simp_all add: atoll_def split: list.split)

lemma fill_defaults_nth:
  "i < NUM_CONFIGURATION_TYPE \<Longrightarrow>
   fill_defaults ctx ! i = Some (case ctx ! i of None \<Rightarrow> default_values ! i | Some v \<Rightarrow> v)"
  by (auto simp: fill_defaults_def split: option.split)


text \<open>The options as they are written on the command line.\<close>

fun option_name :: "configuration_type \<Rightarrow> string" where
  "option_name ACCEPT_PERIOD_MICROS = ''--accept-period-micros''"
| "option_name CONNECTION_ACTIVE_LIMIT = ''--active-connection-limit''"
| "option_name CONNECTION_BACKLOG_LIMIT = ''--connection-backlog-limit''"
| "option_name CONNECTION_TIMEOUT_MICROS = ''--connection-timeout-micros''"
| "option_name ENTRY_CAPACITY_BYTES = ''--entry-capacity-bytes''"
| "option_name ENTRY_EXPIRY_MICROS = ''--entry-expiry-micros''"
| "option_name IP_ADDRESS = ''--ip-address''"
| "option_name PORT = ''--port''"

lemma parse_key_option_name [simp]: "parse_key (option_name t) = Inr t"
  by (cases t) (simp_all add: parse_key_def)

lemma parse_key_unknown: "k \<notin> range option_name \<Longrightarrow> parse_key k = Inl Panic"
  unfolding parse_key_def
  using rangeI [of option_name ACCEPT_PERIOD_MICROS] rangeI [of option_name CONNECTION_ACTIVE_LIMIT]
    rangeI [of option_name CONNECTION_BACKLOG_LIMIT] rangeI [of option_name CONNECTION_TIMEOUT_MICROS]
    rangeI [of option_name ENTRY_CAPACITY_BYTES] rangeI [of option_name ENTRY_EXPIRY_MICROS]
    rangeI [of option_name IP_ADDRESS] rangeI [of option_name PORT]
  by (simp split: if_splits) metis

type_synonym setting = "configuration_type \<times> string"

definition setting_args :: "setting list \<Rightarrow> string list" where
  "setting_args ss = concat (map (\<lambda>(t, v). [option_name t, v]) ss)"

text \<open>What an option's text means: a number, or for the address the string itself.\<close>

definition setting_value :: "configuration_type \<Rightarrow> string \<Rightarrow> value_bytes" where
  "setting_value t v = (if t = IP_ADDRESS then string_bytes v else int64_bytes (atoll v))"

definition setting_ok :: "setting \<Rightarrow> bool" where
  "setting_ok s \<longleftrightarrow> length (snd s) + 1 < 2 ^ 32"

lemma parse_value_ok:
  "setting_ok (t, v) \<Longrightarrow> parse_value True ctx v t = Inr (ctx[type_index t := Some (setting_value t v)])"
  by (simp add: parse_value_def data_types_nth setting_value_def setting_ok_def wrap32_small)

definition put_setting :: "configuration_context \<Rightarrow> setting \<Rightarrow> configuration_context" where
  "put_setting ctx s = ctx[type_index (fst s) := Some (setting_value (fst s) (snd s))]"

lemma parse_loop_settings:
  assumes "\<forall>i. ok i" and "\<forall>s\<in>set ss. setting_ok s"
  shows "\<exists>j t'. parse_loop ok i AWAITING_KEY t ctx (setting_args ss @ rest) =
      parse_loop ok j AWAITING_KEY t' (foldl put_setting ctx ss) rest"
  using assms(2)
proof (induction ss arbitrary: i t ctx)
  case Nil
  then show ?case by (auto simp: setting_args_def)
next
  case (Cons s ss)
  obtain u v where s: "s = (u, v)" by (cases s)
  have "parse_loop ok i AWAITING_KEY t ctx (setting_args (s # ss) @ rest) =
      parse_loop ok (Suc (Suc i)) AWAITING_KEY (Some u) (put_setting ctx s) (setting_args ss @ rest)"
    using Cons.prems assms(1) by (simp add: s setting_args_def parse_value_ok put_setting_def)
  with Cons show ?case by simp
qed

lemma foldl_put_setting:
  "length ctx = NUM_CONFIGURATION_TYPE \<Longrightarrow> length (foldl put_setting ctx ss) = NUM_CONFIGURATION_TYPE \<and>
   foldl put_setting ctx ss ! type_index t =
     (case map_of (rev ss) t of None \<Rightarrow> ctx ! type_index t | Some v \<Rightarrow> Some (setting_value t v))"
proof (induction ss rule: rev_induct)
  case (snoc s ss)
  then show ?case
    using type_index_less [of t] by (cases s) (auto simp: put_setting_def type_index_inject nth_list_update)
qed simp

lemma cleared_context_simps [simp]:
  "length cleared_context = NUM_CONFIGURATION_TYPE" "cleared_context ! type_index t = None"
  using type_index_less by (simp_all add: cleared_context_def)

section \<open>Well-typed contexts\<close>

definition value_typed :: "configuration_type \<Rightarrow> value_bytes \<Rightarrow> bool" where
  "value_typed t bs \<longleftrightarrow> (if t = IP_ADDRESS then \<exists>s. bs = string_bytes s
     else \<exists>v. - (2 ^ 63) \<le> v \<and> v < 2 ^ 63 \<and> bs = int64_bytes v)"

definition context_typed :: "configuration_context \<Rightarrow> bool" where
  "context_typed ctx \<longleftrightarrow> length ctx = NUM_CONFIGURATION_TYPE \<and>
     (\<forall>t bs. ctx ! type_index t = Some bs \<longrightarrow> value_typed t bs)"

lemma setting_value_typed: "value_typed t (setting_value t v)"
  using atoll_range [of v] by (auto simp: value_typed_def setting_value_def)

lemma default_typed: "value_typed t (default_values ! type_index t)"
proof (cases "t = IP_ADDRESS")
  case True
  then show ?thesis by (auto simp: value_typed_def default_values_def)
next
  case False
  have "\<exists>v\<in>{1000, 16, 32, 15000, 1024 * 1024, 3600000, 8888}. default_values ! type_index t = int64_bytes v"
    using False by (cases t) (simp_all add: default_values_def)
  then obtain v where "v \<in> {1000, 16, 32, 15000, 1024 * 1024, 3600000, 8888}"
    "default_values ! type_index t = int64_bytes v" by blast
  then show ?thesis using False by (auto simp: value_typed_def intro!: exI [of _ v])
qed

lemma parse_value_typed:
  "parse_value ok ctx v t = Inr ctx' \<Longrightarrow> context_typed ctx \<Longrightarrow> context_typed ctx'"
proof -
  assume p: "parse_value ok ctx v t = Inr ctx'" and c: "context_typed ctx"
  then have "ctx' = ctx[type_index t := Some (setting_value t v)]"
    by (auto simp: parse_value_def data_types_nth setting_value_def split: if_splits)
  then show ?thesis
    using c type_index_less [of t] setting_value_typed
    by (auto simp: context_typed_def nth_list_update type_index_inject split: if_splits)
qed

lemma parse_loop_typed:
  "parse_loop ok i st t ctx args = Inr ctx' \<Longrightarrow> context_typed ctx \<Longrightarrow> context_typed ctx'"
  by (induction ok i st t ctx args rule: parse_loop.induct)
    (auto elim!: bindE_InrE split: option.splits dest: parse_value_typed)

lemma context_typed_cleared: "context_typed cleared_context"
  by (simp add: context_typed_def)

section \<open>Numbers as text\<close>

fun decimal :: "nat \<Rightarrow> string" where
  "decimal n = (if n < 10 then [char_of (48 + n)] else decimal (n div 10) @ [char_of (48 + n mod 10)])"

declare decimal.simps [simp del]

lemma of_char_digit: "d < 10 \<Longrightarrow> of_char (char_of (48 + d) :: char) = (48 + d :: nat)"
  by simp

lemma digits_value_decimal:
  "digits_value (decimal n @ s) 0 = digits_value s n"
proof (induction n arbitrary: s rule: decimal.induct)
  case (1 n)
  show ?case
  proof (cases "n < 10")
    case True
    then show ?thesis by (simp add: decimal.simps)
  next
    case False
    then have "digits_value (decimal n @ s) 0 = digits_value (char_of (48 + n mod 10) # s) (n div 10)"
      using 1 [OF False, of "char_of (48 + n mod 10) # s"] by (subst decimal.simps) simp
    moreover have "n mod 10 \<le> 9" using mod_less_divisor [of 10 n] by linarith
    ultimately show ?thesis by simp
  qed
qed

lemma decimal_first:
  "\<exists>d cs. d < (10 :: nat) \<and> decimal n = char_of (48 + d) # cs"
proof (induction n rule: decimal.induct)
  case (1 n)
  show ?case
  proof (cases "n < 10")
    case True
    then show ?thesis by (auto simp: decimal.simps)
  next
    case False
    with 1 show ?thesis by (subst decimal.simps) auto
  qed
qed

lemma atoll_decimal: "n < 2 ^ 63 \<Longrightarrow> atoll (decimal n) = int n"
proof -
  assume n: "n < 2 ^ 63"
  obtain d :: nat and cs where d: "d < 10" "decimal n = char_of (48 + d) # cs" using decimal_first by blast
  have sp: "\<not> is_space (char_of (48 + d))" using d(1) of_char_digit by (simp add: is_space_def)
  have "(of_char (char_of (48 + d) :: char) :: nat) \<noteq> of_char (CHR ''-'')"
    "(of_char (char_of (48 + d) :: char) :: nat) \<noteq> of_char (CHR ''+'')"
    unfolding of_char_digit [OF d(1)] by simp_all
  then have "char_of (48 + d) \<noteq> CHR ''-''" "char_of (48 + d) \<noteq> CHR ''+''" by metis+
  then have "atoll (decimal n) = saturate64 (int (digits_value (decimal n @ []) 0))"
    using sp by (simp add: atoll_def d(2))
  then show ?thesis using n by (simp only: digits_value_decimal) (simp add: saturate64_def)
qed


section \<open>Properties\<close>

text \<open>C29. Options given on the command line in any order and number are read back as configured: the
  last value given for an option counts, an option that is not given has its default, and a last
  option without a value is ignored.\<close>

theorem configuration_parse_last_wins:
  assumes "\<forall>i. ok i" and "\<forall>s\<in>set ss. setting_ok s" and "dangling = [] \<or> (\<exists>u. dangling = [option_name u])"
  shows "\<exists>ctx. configuration_parse ok (program # setting_args ss @ dangling) = Inr ctx \<and>
    (\<forall>t. ctx ! type_index t = Some (case map_of (rev ss) t of
            None \<Rightarrow> default_values ! type_index t | Some v \<Rightarrow> setting_value t v))"
proof -
  let ?ctx = "foldl put_setting cleared_context ss"
  obtain j u where "parse_loop ok 1 AWAITING_KEY None cleared_context (setting_args ss @ dangling) =
      parse_loop ok j AWAITING_KEY u ?ctx dangling"
    using parse_loop_settings [OF assms(1,2)] by metis
  moreover have "parse_loop ok j AWAITING_KEY u ?ctx dangling = Inr ?ctx" using assms(3) by auto
  ultimately have "configuration_parse ok (program # setting_args ss @ dangling) = Inr (fill_defaults ?ctx)"
    by (simp add: configuration_parse_def)
  then show ?thesis
    using foldl_put_setting [of cleared_context ss]
    by (auto simp: fill_defaults_nth type_index_less split: option.splits)
qed

theorem configuration_parse_last_wins_witness:
  "\<exists>ctx. configuration_parse (\<lambda>i. True) [''cache'', ''--port'', ''80'', ''--port'', ''9000'', ''--ip-address''] = Inr ctx \<and>
    ctx ! type_index PORT = Some (setting_value PORT ''9000'') \<and>
    ctx ! type_index IP_ADDRESS = Some (string_bytes ''127.0.0.1'')"
proof -
  have "[option_name IP_ADDRESS] = [] \<or> (\<exists>u. [option_name IP_ADDRESS] = [option_name u])" by blast
  from configuration_parse_last_wins [of "\<lambda>i. True" "[(PORT, ''80''), (PORT, ''9000'')]", OF _ _ this, of "''cache''"]
  obtain ctx where c: "configuration_parse (\<lambda>i. True)
      [''cache'', ''--port'', ''80'', ''--port'', ''9000'', ''--ip-address''] = Inr ctx"
    and v: "\<forall>t. ctx ! type_index t = Some (case map_of (rev [(PORT, ''80''), (PORT, ''9000'')]) t of
            None \<Rightarrow> default_values ! type_index t | Some v \<Rightarrow> setting_value t v)"
    by (auto simp: setting_ok_def setting_args_def)
  show ?thesis
    using c v [rule_format, of PORT] v [rule_format, of IP_ADDRESS] by (simp add: default_values_def)
qed

text \<open>C30. Every number from 0 to 2^63 - 1 written in decimal as the value of a numeric option is the number
  the program reads for that option.\<close>

theorem configured_number_roundtrip:
  assumes "n < 2 ^ 63" and "t \<noteq> IP_ADDRESS"
  shows "bindE (configuration_parse (\<lambda>i. True) [program, option_name t, decimal n])
     (\<lambda>ctx. configuration_get_int ctx t) = Inr (int n)"
proof -
  have "parse_value True cleared_context (decimal n) t =
      Inr (cleared_context[type_index t := Some (int64_bytes (int n))])"
    using assms by (simp add: parse_value_def data_types_nth atoll_decimal)
  then show ?thesis
    using assms int64_bytes_read [of "int n"] type_index_less [of t]
    by (simp add: configuration_parse_def configuration_get_int_def fill_defaults_nth)
qed

theorem configured_number_roundtrip_witness:
  "bindE (configuration_parse (\<lambda>i. True) [''cache'', option_name PORT, decimal 8080])
     (\<lambda>ctx. configuration_get_int ctx PORT) = Inr 8080"
  using configured_number_roundtrip [of 8080 PORT "''cache''"] by simp

text \<open>C31. The array of untyped pointers is used with the right type: whatever arguments were parsed,
  every numeric option reads as a signed 64-bit number and the address as a zero-terminated string,
  without a NULL dereference or a read beyond a value.\<close>

theorem configuration_values_typed:
  assumes "configuration_parse ok argv = Inr ctx"
  shows "(\<forall>t. t \<noteq> IP_ADDRESS \<longrightarrow>
            (\<exists>v. configuration_get_int ctx t = Inr v \<and> - (2 ^ 63) \<le> v \<and> v < 2 ^ 63)) \<and>
         (\<exists>s. configuration_get_string ctx IP_ADDRESS = Some (string_bytes s))"
proof -
  obtain c where c: "parse_loop ok 1 AWAITING_KEY None cleared_context (tl argv) = Inr c"
    and ctx: "ctx = fill_defaults c"
    using assms by (auto simp: configuration_parse_def)
  have T: "context_typed c" using parse_loop_typed [OF c context_typed_cleared] .
  have v: "\<exists>bs. ctx ! type_index t = Some bs \<and> value_typed t bs" for t
    using T default_typed [of t] type_index_less [of t]
    by (auto simp: ctx fill_defaults_nth context_typed_def split: option.splits)
  have "\<exists>v. configuration_get_int ctx t = Inr v \<and> - (2 ^ 63) \<le> v \<and> v < 2 ^ 63" if "t \<noteq> IP_ADDRESS" for t
    using v [of t] that int64_bytes_read by (auto simp: value_typed_def configuration_get_int_def)
  then show ?thesis using v [of IP_ADDRESS] by (auto simp: value_typed_def configuration_get_string_def)
qed

theorem configuration_values_typed_witness:
  "\<exists>ctx v. configuration_parse (\<lambda>i. True) [''cache'', ''--port'', ''x''] = Inr ctx \<and>
     configuration_get_int ctx PORT = Inr v"
proof -
  have "\<exists>ctx. configuration_parse (\<lambda>i. True) [''cache'', ''--port'', ''x''] = Inr ctx"
    by (simp add: configuration_parse_def parse_key_def parse_value_def data_types_nth)
  then show ?thesis using configuration_values_typed by (metis configuration_type.distinct(55))
qed

text \<open>An argument that is no option in the place of an option ends the program with \<^verbatim>\<open>exit(1)\<close>, whatever
  valid settings come before it and whatever comes after it.\<close>

theorem configuration_parse_rejects_unknown:
  assumes "\<forall>i. ok i" and "\<forall>s\<in>set ss. setting_ok s" and "k \<notin> range option_name"
  shows "configuration_parse ok (program # setting_args ss @ k # rest) = Inl Panic"
proof -
  obtain j u where "parse_loop ok 1 AWAITING_KEY None cleared_context (setting_args ss @ k # rest) =
      parse_loop ok j AWAITING_KEY u (foldl put_setting cleared_context ss) (k # rest)"
    using parse_loop_settings [OF assms(1,2)] by metis
  then show ?thesis using parse_key_unknown [OF assms(3)] by (simp add: configuration_parse_def)
qed

theorem configuration_parse_rejects_unknown_witness:
  "configuration_parse (\<lambda>i. True) [''cache'', ''--port'', ''80'', ''-v'', ''1''] = Inl Panic"
proof -
  have "''-v'' \<notin> range option_name"
  proof
    assume "''-v'' \<in> range option_name"
    then obtain t where "option_name t = ''-v''" by auto
    then show False by (cases t) simp_all
  qed
  then show ?thesis
    using configuration_parse_rejects_unknown [of "\<lambda>i. True" "[(PORT, ''80'')]" "''-v''" "''cache''" "[''1'']"]
    by (simp add: setting_ok_def setting_args_def)
qed

end
