(* ===== verification/Connection.thy ===== *)
theory Connection
  imports MemoryQueue ConnectionList CacheProtocol Configuration
begin

text \<open>
  \<^verbatim>\<open>src/connection.c\<close>: one client connection as a state machine. \<open>connection_proc\<close> transfers what the
  socket gives or takes, and when the current part of the message is complete, runs the handler of
  the state. The two unions are kept as their bytes and read through the codecs of \<open>CacheProtocol\<close>;
  \<^verbatim>\<open>void *buffer\<close> leads into one of the unions or into C memory. Sockets, \<^verbatim>\<open>malloc\<close>, \<^verbatim>\<open>fcntl\<close> and
  the clock are parameters (\<open>env\<close>); the bytes given to \<^verbatim>\<open>send\<close> are recorded per descriptor.
\<close>

section \<open>State\<close>

datatype connection_state =
    RECEIVING_HEADER
  | RECEIVING_ARGUMENTS
  | AWAITING_WRITE_UNBLOCK
  | RECEIVING_BODY
  | AWAITING_READ_UNBLOCK
  | SENDING_HEADER
  | SENDING_BODY
  | AWAITING_FINISH

datatype connection_result =
    RESULT_SUCCESS
  | RESULT_NO_TRANSFER
  | RESULT_NEW_REQUEST
  | RESULT_DISCONNECT
  | RESULT_READ_BLOCKED
  | RESULT_WRITE_BLOCKED

definition FLAG_NONE :: u32 where "FLAG_NONE = 0"

definition FLAG_KEEP_ALIVE :: u32 where "FLAG_KEEP_ALIVE = push_bit 0 1"

definition FLAG_ALLOCATED_BUFFER :: u32 where "FLAG_ALLOCATED_BUFFER = push_bit 1 1"

definition FLAG_LOCK_ACQUIRED :: u32 where "FLAG_LOCK_ACQUIRED = push_bit 2 1"

text \<open>Where \<^verbatim>\<open>connection->buffer\<close> leads: \<^verbatim>\<open>&connection->header\<close>, \<^verbatim>\<open>&connection->arguments\<close> or C memory.\<close>

datatype buffer_ref = Header_union | Arguments_union | In_memory ptr

record connection = connection_links +
  conn_buffer :: buffer_ref
  conn_entry :: ptr
  remaining_bytes :: u32
  buffer_index :: u32
  file_descriptor :: int
  conn_state :: connection_state
  header_union :: "u8 list"
  arguments_union :: "u8 list"
  lock_release_event :: entry_header_lock_event
  conn_flags :: u32

text \<open>The heap of connections, as \<open>ConnectionList\<close> and the server see it.\<close>

type_synonym connections = "nat \<Rightarrow> connection option"

definition request_of :: "connection \<Rightarrow> request_header" where
  "request_of c = decode_request_header (take request_header_size (header_union c))"

definition response_of :: "connection \<Rightarrow> aggregate_response" where
  "response_of c = decode_aggregate_response (header_union c)"

definition key_arguments_of :: "connection \<Rightarrow> key_arguments" where
  "key_arguments_of c = decode_key_arguments (take key_arguments_size (arguments_union c))"

definition key_value_arguments_of :: "connection \<Rightarrow> key_value_arguments" where
  "key_value_arguments_of c = decode_key_value_arguments (arguments_union c)"

section \<open>Environment\<close>

text \<open>
  What a system call gives. \<open>env_recv fd n\<close> is asked for at most \<open>n\<close> bytes; \<open>Done []\<close> is the return
  value 0. \<open>env_send fd bs\<close> says how many of the bytes were taken. \<^verbatim>\<open>EWOULDBLOCK\<close> and \<^verbatim>\<open>EAGAIN\<close> are
  \<open>Would_block\<close>, every other \<^verbatim>\<open>errno\<close> is \<open>Io_error\<close>.
\<close>

datatype 'a io = Done 'a | Would_block | Io_error

record env =
  env_recv :: "int \<Rightarrow> nat \<Rightarrow> u8 list io"
  env_send :: "int \<Rightarrow> u8 list \<Rightarrow> nat io"
  env_malloc :: bool
  env_map_allocs :: "bool \<times> bool"
  env_time :: "int \<times> int"
  env_options :: configuration_context

text \<open>The documented behaviour of \<^verbatim>\<open>recv\<close> and \<^verbatim>\<open>send\<close>: never more than was asked for.\<close>

definition env_ok :: "env \<Rightarrow> bool" where
  "env_ok e \<longleftrightarrow> (\<forall>fd n bs. env_recv e fd n = Done bs \<longrightarrow> length bs \<le> n) \<and>
     (\<forall>fd bs n. env_send e fd bs = Done n \<longrightarrow> n \<le> length bs)"

text \<open>\<^verbatim>\<open>src/time_util.c\<close> on what \<^verbatim>\<open>gettimeofday\<close> gives.\<close>

definition time_get_timestamp :: "int \<times> int \<Rightarrow> u64" where
  "time_get_timestamp tv = of_int (fst tv) * 1000000 + of_int (snd tv)"

record world =
  w_store :: store
  w_sent :: "int \<Rightarrow> u8 list"

definition w_mem :: "world \<Rightarrow> memory" where
  "w_mem w = mem (w_store w)"

definition set_mem :: "world \<Rightarrow> memory \<Rightarrow> world" where
  "set_mem w m = w\<lparr>w_store := (w_store w)\<lparr>mem := m\<rparr>\<rparr>"

definition record_sent :: "world \<Rightarrow> int \<Rightarrow> u8 list \<Rightarrow> world" where
  "record_sent w fd bs = w\<lparr>w_sent := (w_sent w)(fd := w_sent w fd @ bs)\<rparr>"

text \<open>A handler works on its connection and the world; procedures return \<open>RESULT_SUCCESS\<close>.\<close>

type_synonym handler_result = "(connection \<times> world \<times> connection_result) result"

section \<open>The buffer of a transfer\<close>

definition overwrite :: "'a list \<Rightarrow> nat \<Rightarrow> 'a list \<Rightarrow> 'a list result" where
  "overwrite xs i ys =
     (if i + length ys \<le> length xs then Inr (take i xs @ ys @ drop (i + length ys) xs) else Inl Bad_access)"

definition slice :: "'a list \<Rightarrow> nat \<Rightarrow> nat \<Rightarrow> 'a list result" where
  "slice xs i n = (if i + n \<le> length xs then Inr (take n (drop i xs)) else Inl Bad_access)"

text \<open>What \<^verbatim>\<open>recv\<close> writes and \<^verbatim>\<open>send\<close> reads at \<^verbatim>\<open>connection->buffer + connection->buffer_index\<close>.\<close>

definition buffer_store :: "connection \<Rightarrow> world \<Rightarrow> u8 list \<Rightarrow> (connection \<times> world) result" where
  "buffer_store c w bs =
     (let i = unat (buffer_index c) in
      case conn_buffer c of
        Header_union \<Rightarrow> bindE (overwrite (header_union c) i bs) (\<lambda>h. Inr (c\<lparr>header_union := h\<rparr>, w))
      | Arguments_union \<Rightarrow> bindE (overwrite (arguments_union c) i bs) (\<lambda>a. Inr (c\<lparr>arguments_union := a\<rparr>, w))
      | In_memory p \<Rightarrow> bindE (store_bytes (w_mem w) (ptr_add p i) bs) (\<lambda>m. Inr (c, set_mem w m)))"

definition buffer_load :: "connection \<Rightarrow> world \<Rightarrow> nat \<Rightarrow> u8 list result" where
  "buffer_load c w n =
     (let i = unat (buffer_index c) in
      case conn_buffer c of
        Header_union \<Rightarrow> slice (header_union c) i n
      | Arguments_union \<Rightarrow> slice (arguments_union c) i n
      | In_memory p \<Rightarrow> load_bytes (w_mem w) (ptr_add p i) n)"

section \<open>Requests\<close>

definition init_request :: "connection \<Rightarrow> connection" where
  "init_request c = c\<lparr>conn_buffer := Header_union, remaining_bytes := of_nat request_header_size,
     buffer_index := 0, conn_state := RECEIVING_HEADER, conn_entry := Null, conn_flags := FLAG_NONE,
     lock_release_event := LOCK_EVENT_NONE\<rparr>"

text \<open>
  \<open>connection_init\<close>: \<open>ok\<close> tells whether \<^verbatim>\<open>malloc\<close> succeeds, \<open>getfl\<close> and \<open>setfl\<close> are the results of the
  two calls of \<^verbatim>\<open>fcntl\<close>, \<open>junk\<close> is what the allocated memory holds. None is the result NULL.
\<close>

definition connection_init :: "bool \<Rightarrow> int \<Rightarrow> int \<Rightarrow> connection \<Rightarrow> int \<Rightarrow> connection option" where
  "connection_init ok getfl setfl junk fd =
     (if \<not> ok then None
      else if getfl = -1 then None
      else if setfl = -1 then None
      else Some (init_request (junk\<lparr>previous := None, next := None, file_descriptor := fd\<rparr>)))"

definition send_header :: "connection \<Rightarrow> response_type \<Rightarrow> connection" where
  "send_header c t = c\<lparr>header_union := (header_union c)[0 := response_code t],
     conn_buffer := Header_union, remaining_bytes := of_nat response_header_size, buffer_index := 0,
     conn_state := SENDING_HEADER\<rparr>"

definition has_flag :: "connection \<Rightarrow> u32 \<Rightarrow> bool" where
  "has_flag c f \<longleftrightarrow> conn_flags c AND f \<noteq> 0"

definition set_flag :: "u32 \<Rightarrow> connection \<Rightarrow> connection" where
  "set_flag f c = c\<lparr>conn_flags := conn_flags c OR f\<rparr>"

definition clear_flag :: "u32 \<Rightarrow> connection \<Rightarrow> connection" where
  "clear_flag f c = c\<lparr>conn_flags := conn_flags c AND NOT f\<rparr>"

definition finish_request :: "connection \<Rightarrow> connection \<times> connection_result" where
  "finish_request c =
     (if has_flag c FLAG_KEEP_ALIVE then (init_request c, RESULT_NEW_REQUEST) else (c, RESULT_DISCONNECT))"

text \<open>\<open>connection->header.response.argument.value_size = n\<close>\<close>

definition set_response_value_size :: "u32 \<Rightarrow> connection \<Rightarrow> connection" where
  "set_response_value_size n c = c\<lparr>header_union := take 1 (header_union c) @ word_bytes n\<rparr>"

definition attempt_memory_read :: "connection \<Rightarrow> world \<Rightarrow> handler_result" where
  "attempt_memory_read c w =
     (if conn_entry c = Null then Inr (send_header c RESPONSE_NOT_FOUND, w, RESULT_SUCCESS)
      else
        bindE (entry_header_acquire_lock (w_mem w) (conn_entry c)) (\<lambda>(m, event).
          let w = set_mem w m in
          if event = LOCK_EVENT_BLOCKED
          then Inr (c\<lparr>conn_state := AWAITING_READ_UNBLOCK\<rparr>, w, RESULT_READ_BLOCKED)
          else
            let c = send_header (set_flag FLAG_LOCK_ACQUIRED c) RESPONSE_VALUE in
            bindE (load_header (w_mem w) (conn_entry c)) (\<lambda>h.
              Inr ((set_response_value_size (value_size h) c)
                     \<lparr>remaining_bytes := of_nat aggregate_response_size\<rparr>, w, RESULT_SUCCESS))))"

definition attempt_memory_write :: "env \<Rightarrow> connection \<Rightarrow> world \<Rightarrow> handler_result" where
  "attempt_memory_write e c w =
     (let a = key_value_arguments_of c in
      bindE (configuration_get_int (env_options e) ENTRY_EXPIRY_MICROS) (\<lambda>micros.
      bindE (memory_queue_allocate (env_map_allocs e) (kv_key_size a) (kv_value_size a)
               (time_get_timestamp (env_time e) + of_int micros) (conn_entry c) (w_store w)) (\<lambda>(st, result, p).
        let c = c\<lparr>conn_entry := p\<rparr>; w = w\<lparr>w_store := st\<rparr> in
        if result = MEMORY_QUEUE_OUT_OF_MEMORY
        then Inr (send_header c RESPONSE_OUT_OF_MEMORY, w, RESULT_SUCCESS)
        else if result = MEMORY_QUEUE_WRITE_BLOCKED
        then Inr (c\<lparr>conn_state := AWAITING_WRITE_UNBLOCK\<rparr>, w, RESULT_WRITE_BLOCKED)
        else Inr (c\<lparr>remaining_bytes := ucast (kv_key_size a) + kv_value_size a, buffer_index := 0,
                    conn_buffer := In_memory (ptr_add (conn_entry c) header_size),
                    conn_state := RECEIVING_BODY\<rparr>, w, RESULT_SUCCESS))))"

section \<open>Events\<close>

text \<open>Wait for \<open>n\<close> bytes of arguments.\<close>

definition receive_arguments :: "nat \<Rightarrow> connection \<Rightarrow> connection" where
  "receive_arguments n c = c\<lparr>conn_buffer := Arguments_union, remaining_bytes := of_nat n,
     buffer_index := 0, conn_state := RECEIVING_ARGUMENTS\<rparr>"

definition event_received_header :: "connection \<Rightarrow> connection" where
  "event_received_header c =
     (let r = request_of c in
      if req_version r \<noteq> CACHE_PROTOCOL_VERSION then send_header c RESPONSE_UNSUPPORTED_VERSION
      else
        let c = (if req_flags r AND REQUEST_FLAG_KEEP_ALIVE \<noteq> 0 then set_flag FLAG_KEEP_ALIVE c else c) in
        case request_type_of (req_type r) of
          Some REQUEST_PING \<Rightarrow> send_header c RESPONSE_PONG
        | Some REQUEST_GET \<Rightarrow> receive_arguments key_arguments_size c
        | Some REQUEST_DELETE \<Rightarrow> receive_arguments key_arguments_size c
        | Some REQUEST_PUT \<Rightarrow> receive_arguments key_value_arguments_size c
        | _ \<Rightarrow> send_header c RESPONSE_UNKNOWN_REQUEST)"

text \<open>The branch of \<open>event_received_arguments\<close> for GET and DELETE: memory for the key to look up.\<close>

definition allocate_key :: "env \<Rightarrow> connection \<Rightarrow> world \<Rightarrow> handler_result" where
  "allocate_key e c w =
     (let n = arg_key_size (key_arguments_of c);
          (m, p) = malloc_block (w_mem w) (header_size + unat n) (env_malloc e);
          c = c\<lparr>conn_entry := p\<rparr>; w = set_mem w m in
      if p = Null then Inr (send_header c RESPONSE_OUT_OF_MEMORY, w, RESULT_SUCCESS)
      else
        bindE (load_header (w_mem w) p) (\<lambda>h.
        bindE (store_header (w_mem w) p (h\<lparr>key_size := n\<rparr>)) (\<lambda>m.
          Inr ((set_flag FLAG_ALLOCATED_BUFFER c)
                 \<lparr>conn_buffer := In_memory (ptr_add p header_size), remaining_bytes := ucast n,
                  buffer_index := 0, conn_state := RECEIVING_BODY\<rparr>, set_mem w m, RESULT_SUCCESS))))"

definition event_received_arguments :: "env \<Rightarrow> connection \<Rightarrow> world \<Rightarrow> handler_result" where
  "event_received_arguments e c w =
     (case request_type_of (req_type (request_of c)) of
        Some REQUEST_GET \<Rightarrow> allocate_key e c w
      | Some REQUEST_DELETE \<Rightarrow> allocate_key e c w
      | Some REQUEST_PUT \<Rightarrow> attempt_memory_write e c w
      | _ \<Rightarrow> Inl Assert_failed)"

definition event_received_body :: "env \<Rightarrow> connection \<Rightarrow> world \<Rightarrow> handler_result" where
  "event_received_body e c w =
     (let st = w_store w in
      case request_type_of (req_type (request_of c)) of
        Some REQUEST_GET \<Rightarrow>
          bindE (entry_hash_map_get (mem st) (index_ctx st) (conn_entry c)) (\<lambda>found.
          bindE (free_block (mem st) (conn_entry c)) (\<lambda>m.
            attempt_memory_read ((clear_flag FLAG_ALLOCATED_BUFFER c)\<lparr>conn_entry := found\<rparr>) (set_mem w m)))
      | Some REQUEST_DELETE \<Rightarrow>
          bindE (entry_hash_map_delete (env_map_allocs e) (mem st) (index_ctx st) (conn_entry c)) (\<lambda>(m, ctx).
          bindE (free_block m (conn_entry c)) (\<lambda>m.
            Inr (send_header c RESPONSE_OK,
                 w\<lparr>w_store := st\<lparr>mem := m, index_ctx := ctx\<rparr>\<rparr>, RESULT_SUCCESS)))
      | Some REQUEST_PUT \<Rightarrow>
          bindE (entry_hash_map_put (env_map_allocs e) (mem st) (index_ctx st) (conn_entry c)) (\<lambda>(m, ctx, result).
          bindE (entry_hash_map_get m ctx (conn_entry c)) (\<lambda>_.
            Inr (send_header c (if result \<noteq> 0 then RESPONSE_OUT_OF_MEMORY else RESPONSE_OK),
                 w\<lparr>w_store := st\<lparr>mem := m, index_ctx := ctx\<rparr>\<rparr>, RESULT_SUCCESS)))
      | _ \<Rightarrow> Inl Assert_failed)"

definition ends_connection :: "response_type \<Rightarrow> bool" where
  "ends_connection t \<longleftrightarrow> t \<in> {RESPONSE_KEY_OVERSIZED, RESPONSE_OUT_OF_MEMORY, RESPONSE_UNKNOWN_REQUEST,
     RESPONSE_UNSUPPORTED_VERSION, RESPONSE_VALUE_OVERSIZED}"

definition event_sent_header :: "connection \<Rightarrow> world \<Rightarrow> handler_result" where
  "event_sent_header c w =
     (case response_type_of (resp_type (agg_header (response_of c))) of
        None \<Rightarrow> Inl Assert_failed
      | Some t \<Rightarrow>
          if t = RESPONSE_NONE then Inl Assert_failed
          else if t = RESPONSE_VALUE then
            bindE (load_header (w_mem w) (conn_entry c)) (\<lambda>h.
              Inr (c\<lparr>conn_buffer := In_memory (ptr_add (conn_entry c) (header_size + unat (key_size h))),
                     remaining_bytes := value_size h, buffer_index := 0, conn_state := SENDING_BODY\<rparr>,
                   w, RESULT_SUCCESS))
          else
            let (c, result) = finish_request (if ends_connection t then clear_flag FLAG_KEEP_ALIVE c else c)
            in Inr (c, w, result))"

definition event_sent_body :: "connection \<Rightarrow> world \<Rightarrow> handler_result" where
  "event_sent_body c w =
     (if response_type_of (resp_type (agg_header (response_of c))) = Some RESPONSE_VALUE then
        bindE (entry_header_release_lock (w_mem w) (conn_entry c)) (\<lambda>(m, event).
          let (c, result) = finish_request (clear_flag FLAG_LOCK_ACQUIRED (c\<lparr>lock_release_event := event\<rparr>))
          in Inr (c, set_mem w m, result))
      else Inl Assert_failed)"

section \<open>Transfers\<close>

definition receiving :: "connection_state \<Rightarrow> bool" where
  "receiving s \<longleftrightarrow> s = RECEIVING_HEADER \<or> s = RECEIVING_ARGUMENTS \<or> s = RECEIVING_BODY"

definition sending :: "connection_state \<Rightarrow> bool" where
  "sending s \<longleftrightarrow> s = SENDING_HEADER \<or> s = SENDING_BODY"

text \<open>The call of \<^verbatim>\<open>recv\<close> or \<^verbatim>\<open>send\<close> and the number of bytes it transferred.\<close>

definition socket_call :: "env \<Rightarrow> connection \<Rightarrow> world \<Rightarrow> (connection \<times> world \<times> nat io) result" where
  "socket_call e c w =
     (let n = unat (remaining_bytes c) in
      if receiving (conn_state c) then
        (case env_recv e (file_descriptor c) n of
           Done bs \<Rightarrow> bindE (buffer_store c w bs) (\<lambda>(c, w). Inr (c, w, Done (length bs)))
         | Would_block \<Rightarrow> Inr (c, w, Would_block)
         | Io_error \<Rightarrow> Inr (c, w, Io_error))
      else if sending (conn_state c) then
        bindE (buffer_load c w n) (\<lambda>bs.
          case env_send e (file_descriptor c) bs of
            Done k \<Rightarrow> Inr (c, record_sent w (file_descriptor c) (take k bs), Done k)
          | Would_block \<Rightarrow> Inr (c, w, Would_block)
          | Io_error \<Rightarrow> Inr (c, w, Io_error))
      else Inl Assert_failed)"

text \<open>\<^verbatim>\<open>free(connection->buffer)\<close>: neither union of the connection is the start of a heap block.\<close>

definition free_buffer :: "connection \<Rightarrow> world \<Rightarrow> world result" where
  "free_buffer c w = (case conn_buffer c of
     In_memory p \<Rightarrow> bindE (free_block (w_mem w) p) (\<lambda>m. Inr (set_mem w m))
   | _ \<Rightarrow> Inl Bad_free)"

definition socket_failure :: "connection \<Rightarrow> world \<Rightarrow> handler_result" where
  "socket_failure c w =
     bindE (if has_flag c FLAG_ALLOCATED_BUFFER then free_buffer c w else Inr w) (\<lambda>w.
       if has_flag c FLAG_LOCK_ACQUIRED then
         bindE (entry_header_release_lock (w_mem w) (conn_entry c)) (\<lambda>(m, event).
           Inr (c\<lparr>lock_release_event := event\<rparr>, set_mem w m, RESULT_DISCONNECT))
       else Inr (c, w, RESULT_DISCONNECT))"

definition connection_transfer :: "env \<Rightarrow> connection \<Rightarrow> world \<Rightarrow> handler_result" where
  "connection_transfer e c w =
     bindE (socket_call e c w) (\<lambda>(c, w, outcome).
       case outcome of
         Io_error \<Rightarrow> socket_failure c w
       | Would_block \<Rightarrow> Inr (c, w, RESULT_NO_TRANSFER)
       | Done n \<Rightarrow>
           if n = 0 then Inr (c, w, RESULT_NO_TRANSFER)
           else Inr (c\<lparr>remaining_bytes := remaining_bytes c - of_nat n,
                       buffer_index := buffer_index c + of_nat n\<rparr>, w, RESULT_SUCCESS))"

text \<open>The \<^verbatim>\<open>switch\<close> of \<open>connection_proc\<close>.\<close>

definition dispatch :: "env \<Rightarrow> connection \<Rightarrow> world \<Rightarrow> handler_result" where
  "dispatch e c w =
     (case conn_state c of
        RECEIVING_HEADER \<Rightarrow> Inr (event_received_header c, w, RESULT_SUCCESS)
      | RECEIVING_ARGUMENTS \<Rightarrow> event_received_arguments e c w
      | RECEIVING_BODY \<Rightarrow> event_received_body e c w
      | SENDING_HEADER \<Rightarrow> event_sent_header c w
      | SENDING_BODY \<Rightarrow> event_sent_body c w
      | _ \<Rightarrow> Inl Assert_failed)"

definition connection_proc :: "env \<Rightarrow> connection \<Rightarrow> world \<Rightarrow> handler_result" where
  "connection_proc e c w =
     bindE (connection_transfer e c w) (\<lambda>(c, w, result).
       if result \<noteq> RESULT_SUCCESS then Inr (c, w, result)
       else if remaining_bytes c \<noteq> 0 then Inr (c, w, RESULT_SUCCESS)
       else dispatch e c w)"

section \<open>Unblocking and closing\<close>

definition connection_unblock_read :: "connection \<Rightarrow> world \<Rightarrow> handler_result" where
  "connection_unblock_read c w =
     bindE (assertE (conn_state c = AWAITING_READ_UNBLOCK)) (\<lambda>_.
     bindE (load_bit_fields (w_mem w) (conn_entry c)) (\<lambda>f.
     bindE (if active f then Inr (conn_entry c)
            else entry_hash_map_get (w_mem w) (index_ctx (w_store w)) (conn_entry c)) (\<lambda>p.
       attempt_memory_read (c\<lparr>conn_entry := p\<rparr>) w)))"

definition connection_unblock_write :: "env \<Rightarrow> connection \<Rightarrow> world \<Rightarrow> handler_result" where
  "connection_unblock_write e c w =
     bindE (assertE (conn_state c = AWAITING_WRITE_UNBLOCK)) (\<lambda>_. attempt_memory_write e c w)"

text \<open>\<open>connection_close\<close>: the descriptor that is closed, if any.\<close>

definition connection_close :: "connection \<Rightarrow> int option" where
  "connection_close c = (if file_descriptor c > 0 then Some (file_descriptor c) else None)"

definition connection_get_entry_header :: "connections \<Rightarrow> conn_ref \<Rightarrow> ptr result" where
  "connection_get_entry_header h c = bindE (deref h c) (\<lambda>r. Inr (conn_entry r))"

definition connection_get_lock_release_event :: "connections \<Rightarrow> conn_ref \<Rightarrow> entry_header_lock_event result" where
  "connection_get_lock_release_event h c = bindE (deref h c) (\<lambda>r. Inr (lock_release_event r))"

text \<open>\<open>connection_deinit\<close>: the connection is no longer in the heap.\<close>

definition connection_deinit :: "connections \<Rightarrow> conn_ref \<Rightarrow> connections result" where
  "connection_deinit h c = bindE (deref h c) (\<lambda>_. Inr (h(the c := None)))"

end
