(* ===== verification/ConnectionSession.thy ===== *)
theory ConnectionSession
  imports Connection
begin

text \<open>
  Runs of one connection. \<open>serve\<close> gives the connection its turns until a turn ends the request;
  \<open>delivers\<close> and \<open>accepts\<close> say that the socket gives or takes a message in some pieces with any
  number of empty turns between them. \<open>receive_all\<close> and \<open>send_all\<close> show that the pieces do not
  matter: a part of a message is handled as if it had come at once.
\<close>

section \<open>Turns\<close>

type_synonym run_result = "(connection \<times> world \<times> connection_result \<times> env list) result"

fun serve :: "env list \<Rightarrow> connection \<Rightarrow> world \<Rightarrow> run_result" where
  "serve [] c w = Inr (c, w, RESULT_SUCCESS, [])"
| "serve (e # es) c w =
     bindE (connection_proc e c w) (\<lambda>(c, w, r).
       if r = RESULT_SUCCESS \<or> r = RESULT_NO_TRANSFER then serve es c w else Inr (c, w, r, es))"

definition continue :: "env list \<Rightarrow> handler_result \<Rightarrow> run_result" where
  "continue es res =
     bindE res (\<lambda>(c, w, r).
       if r = RESULT_SUCCESS \<or> r = RESULT_NO_TRANSFER then serve es c w else Inr (c, w, r, es))"

lemma serve_Cons: "serve (e # es) c w = continue es (connection_proc e c w)"
  by (simp add: continue_def)

declare serve.simps(2) [simp del]

lemma continue_simps [simp]:
  "continue es (Inr (c, w, RESULT_SUCCESS)) = serve es c w"
  "continue es (Inr (c, w, RESULT_NO_TRANSFER)) = serve es c w"
  "continue es (Inr (c, w, RESULT_NEW_REQUEST)) = Inr (c, w, RESULT_NEW_REQUEST, es)"
  "continue es (Inr (c, w, RESULT_DISCONNECT)) = Inr (c, w, RESULT_DISCONNECT, es)"
  "continue es (Inl f) = Inl f"
  by (simp_all add: continue_def)

text \<open>The socket gives the bytes of a message to a reader that asks for all that is missing.\<close>

inductive delivers :: "int \<Rightarrow> env list \<Rightarrow> u8 list \<Rightarrow> bool" for fd where
  last_piece: "env_recv e fd (length data) = Done data \<Longrightarrow> data \<noteq> [] \<Longrightarrow> delivers fd [e] data"
| piece: "env_recv e fd (length (xs @ ys)) = Done xs \<Longrightarrow> xs \<noteq> [] \<Longrightarrow> delivers fd es ys \<Longrightarrow>
    delivers fd (e # es) (xs @ ys)"
| idle_turn: "env_recv e fd (length data) = Would_block \<Longrightarrow> delivers fd es data \<Longrightarrow> delivers fd (e # es) data"

text \<open>The socket takes the bytes of a message from a writer that offers all that is left.\<close>

inductive accepts :: "int \<Rightarrow> env list \<Rightarrow> u8 list \<Rightarrow> bool" for fd where
  last_piece: "env_send e fd data = Done (length data) \<Longrightarrow> data \<noteq> [] \<Longrightarrow> accepts fd [e] data"
| piece: "env_send e fd (xs @ ys) = Done (length xs) \<Longrightarrow> xs \<noteq> [] \<Longrightarrow> accepts fd es ys \<Longrightarrow>
    accepts fd (e # es) (xs @ ys)"
| idle_turn: "env_send e fd data = Would_block \<Longrightarrow> accepts fd es data \<Longrightarrow> accepts fd (e # es) data"

lemma delivers_nonempty: "delivers fd es data \<Longrightarrow> data \<noteq> [] \<and> es \<noteq> []"
  by (induction rule: delivers.induct) auto

lemma accepts_nonempty: "accepts fd es data \<Longrightarrow> data \<noteq> [] \<and> es \<noteq> []"
  by (induction rule: accepts.induct) auto

section \<open>Transfers in pieces\<close>

definition advance :: "nat \<Rightarrow> connection \<Rightarrow> connection" where
  "advance n c = c\<lparr>remaining_bytes := remaining_bytes c - of_nat n, buffer_index := buffer_index c + of_nat n\<rparr>"

lemma advance_fields [simp]:
  "conn_state (advance n c) = conn_state c" "file_descriptor (advance n c) = file_descriptor c"
  "conn_buffer (advance n c) = conn_buffer c" "header_union (advance n c) = header_union c"
  "arguments_union (advance n c) = arguments_union c" "conn_entry (advance n c) = conn_entry c"
  "conn_flags (advance n c) = conn_flags c" "lock_release_event (advance n c) = lock_release_event c"
  by (simp_all add: advance_def)

lemma advance_advance: "advance n (advance k c) = advance (k + n) c"
  by (simp add: advance_def algebra_simps)

lemma unat_minus_of_nat:
  "unat (x :: u32) = n + k \<Longrightarrow> unat (x - of_nat n) = k"
proof -
  assume x: "unat x = n + k"
  have "x = of_nat (unat x)" by simp
  then have "x = of_nat n + of_nat k" unfolding x by simp
  moreover have "k < 2 ^ 32" using x unsigned_less [of x, where ?'a = nat] by simp
  ultimately show ?thesis by (simp add: unat_of_nat)
qed

lemma unat_plus_of_nat: "unat (x :: u32) + n < 2 ^ 32 \<Longrightarrow> unat (x + of_nat n) = unat x + n"
  by (simp add: unat_word_ariths unat_of_nat)

lemma overwrite_append:
  "overwrite xs i (ys @ zs) = bindE (overwrite xs i ys) (\<lambda>us. overwrite us (i + length ys) zs)"
  by (auto simp: overwrite_def ac_simps)

lemma write_raw_append: "write_raw m p (xs @ ys) = write_raw (write_raw m p xs) (ptr_add p (length xs)) ys"
proof (cases p)
  case (Ptr b i)
  have "(\<lambda>x. if i \<le> x \<and> x < i + length (xs @ ys) then (xs @ ys) ! (x - i) else bytes m b x) =
    (\<lambda>x. if i + length xs \<le> x \<and> x < i + length xs + length ys then ys ! (x - (i + length xs))
         else if i \<le> x \<and> x < i + length xs then xs ! (x - i) else bytes m b x)"
    by (auto simp: fun_eq_iff nth_append)
  then show ?thesis using Ptr by (simp cong: if_cong)
qed simp

lemma write_raw_Nil: "write_raw m p [] = m"
  using write_raw_same [of m p 0] by (cases p) simp_all

lemma store_bytes_append:
  "store_bytes m p (xs @ ys) = bindE (store_bytes m p xs) (\<lambda>m. store_bytes m (ptr_add p (length xs)) ys)"
  by (cases p) (auto simp: store_bytes_def write_raw_append split: option.splits)

lemma set_mem_simps [simp]:
  "w_mem (set_mem w m) = m" "set_mem (set_mem w m) m' = set_mem w m'" "w_sent (set_mem w m) = w_sent w"
  "w_mem (record_sent w fd bs) = w_mem w" "w_store (record_sent w fd bs) = w_store w"
  "set_mem w (w_mem w) = w"
  by (simp_all add: w_mem_def set_mem_def record_sent_def)

lemma record_sent_twice: "record_sent (record_sent w fd xs) fd ys = record_sent w fd (xs @ ys)"
  by (simp add: record_sent_def)

text \<open>Storing changes nothing of a connection but its unions.\<close>

lemma buffer_store_frame:
  assumes "buffer_store c w bs = Inr (c', w')"
  obtains h a where "c' = c\<lparr>header_union := h, arguments_union := a\<rparr>" and "w' = set_mem w (w_mem w')"
proof -
  have "c' = c\<lparr>header_union := header_union c', arguments_union := arguments_union c'\<rparr>"
    using assms by (cases "conn_buffer c") (auto simp: buffer_store_def Let_def elim!: bindE_InrE)
  moreover have "w' = set_mem w (w_mem w')"
    using assms by (cases "conn_buffer c") (auto simp: buffer_store_def Let_def elim!: bindE_InrE)
  ultimately show ?thesis using that by blast
qed

lemma buffer_store_append:
  assumes idx: "unat (buffer_index c) + length xs < 2 ^ 32"
    and st: "buffer_store c w (xs @ ys) = Inr (c', w')"
  shows "\<exists>c1 w1. buffer_store c w xs = Inr (c1, w1) \<and>
    buffer_store (advance (length xs) c1) w1 ys = Inr (advance (length xs) c', w')"
proof -
  have i: "unat (buffer_index c + of_nat (length xs)) = unat (buffer_index c) + length xs"
    using unat_plus_of_nat [OF idx] .
  show ?thesis
    using st i
    by (cases "conn_buffer c")
      (auto simp: buffer_store_def Let_def overwrite_append store_bytes_append advance_def elim!: bindE_InrE)
qed

lemma receive_step:
  assumes "receiving (conn_state c)" and "unat (remaining_bytes c) = length xs + k" and "xs \<noteq> []"
    and "env_recv e (file_descriptor c) (length xs + k) = Done xs"
    and "buffer_store c w xs = Inr (c1, w1)"
  shows "connection_proc e c w =
    (if k = 0 then dispatch e (advance (length xs) c1) w1 else Inr (advance (length xs) c1, w1, RESULT_SUCCESS))"
proof -
  obtain h a where c1: "c1 = c\<lparr>header_union := h, arguments_union := a\<rparr>"
    using buffer_store_frame [OF assms(5)] by metis
  have "connection_transfer e c w = Inr (advance (length xs) c1, w1, RESULT_SUCCESS)"
    using assms by (simp add: connection_transfer_def socket_call_def advance_def Let_def)
  moreover have "(remaining_bytes (advance (length xs) c1) = 0) = (k = 0)"
    using unat_minus_of_nat [OF assms(2)] by (simp add: c1 advance_def flip: unat_eq_0)
  ultimately show ?thesis by (simp add: connection_proc_def)
qed

lemma receive_all:
  assumes "delivers fd es data" and "file_descriptor c = fd"
    and "receiving (conn_state c)" and "unat (remaining_bytes c) = length data"
    and "unat (buffer_index c) + length data < 2 ^ 32"
    and "buffer_store c w data = Inr (c', w')"
  shows "serve (es @ rest) c w = continue rest (dispatch (last es) (advance (length data) c') w')"
  using assms
proof (induction es data arbitrary: c w c' w' rule: delivers.induct)
  case (last_piece e data c w c' w')
  then show ?case using receive_step [of c data 0 e w c' w'] by (simp add: serve_Cons)
next
  case (piece e xs ys es c w c' w')
  have ys: "ys \<noteq> []" "es \<noteq> []" using delivers_nonempty [OF piece.hyps(3)] by auto
  obtain c1 w1 where s: "buffer_store c w xs = Inr (c1, w1)"
    "buffer_store (advance (length xs) c1) w1 ys = Inr (advance (length xs) c', w')"
    using buffer_store_append [OF _ piece.prems(5)] piece.prems(4) by auto
  obtain h a where c1: "c1 = c\<lparr>header_union := h, arguments_union := a\<rparr>"
    using buffer_store_frame [OF s(1)] by metis
  have "connection_proc e c w = Inr (advance (length xs) c1, w1, RESULT_SUCCESS)"
    using receive_step [of c xs "length ys" e w c1 w1] piece.prems piece.hyps(1,2) s(1) ys by simp
  moreover have "serve (es @ rest) (advance (length xs) c1) w1 =
      continue rest (dispatch (last es) (advance (length ys) (advance (length xs) c')) w')"
  proof (rule piece.IH)
    show "unat (remaining_bytes (advance (length xs) c1)) = length ys"
      using unat_minus_of_nat [of "remaining_bytes c" "length xs" "length ys"] piece.prems(3)
      by (simp add: c1 advance_def)
    show "unat (buffer_index (advance (length xs) c1)) + length ys < 2 ^ 32"
      using piece.prems(4) by (simp add: c1 advance_def unat_plus_of_nat)
  qed (use piece.prems(1,2) c1 s(2) in simp_all)
  ultimately show ?case using ys by (simp add: serve_Cons advance_advance)
next
  case (idle_turn e data es c w c' w')
  have "connection_proc e c w = Inr (c, w, RESULT_NO_TRANSFER)"
    using idle_turn by (simp add: connection_proc_def connection_transfer_def socket_call_def Let_def)
  then show ?case using idle_turn delivers_nonempty [OF idle_turn.hyps(2)] by (simp add: serve_Cons)
qed

lemma slice_append:
  assumes "slice xs i (length (ys @ zs)) = Inr (ys @ zs)"
  shows "slice xs (i + length ys) (length zs) = Inr zs"
  using assms by (auto simp: slice_def split: if_splits)
    (metis add.commute append_eq_conv_conj drop_drop drop_take diff_add_inverse)

lemma load_bytes_append:
  assumes "load_bytes m p (length (ys @ zs)) = Inr (ys @ zs)"
  shows "load_bytes m (ptr_add p (length ys)) (length zs) = Inr zs"
proof -
  have b: "in_bounds m p (length ys + length zs)" "raw_bytes m p (length ys + length zs) = ys @ zs"
    using assms by (auto simp: load_bytes_def split: if_splits)
  have p: "p \<noteq> Null" using b(1) by simp
  have "raw_bytes m (ptr_add p (length ys)) (length zs) = zs"
    using b(2) raw_bytes_append [OF p, of m "length ys" "length zs"] p by simp
  then show ?thesis using in_bounds_add [OF b(1), of "length ys" "length zs"] by (simp add: load_in_bounds)
qed

lemma buffer_load_append:
  assumes idx: "unat (buffer_index c) + length xs < 2 ^ 32"
    and ld: "buffer_load c w (length (xs @ ys)) = Inr (xs @ ys)" and same: "w_mem w' = w_mem w"
  shows "buffer_load (advance (length xs) c) w' (length ys) = Inr ys"
proof -
  have i: "unat (buffer_index c + of_nat (length xs)) = unat (buffer_index c) + length xs"
    using unat_plus_of_nat [OF idx] .
  show ?thesis
  proof (cases "conn_buffer c")
    case (In_memory p)
    then show ?thesis
      using ld i load_bytes_append [of "w_mem w" "ptr_add p (unat (buffer_index c))" xs ys] same
      by (simp add: buffer_load_def advance_def)
  qed (use ld i slice_append [of _ _ xs ys] in \<open>simp_all add: buffer_load_def advance_def\<close>)
qed

lemma send_step:
  assumes "sending (conn_state c)" and "unat (remaining_bytes c) = length (xs @ ys)" and "xs \<noteq> []"
    and "env_send e (file_descriptor c) (xs @ ys) = Done (length xs)"
    and "buffer_load c w (length (xs @ ys)) = Inr (xs @ ys)"
  shows "connection_proc e c w =
    (let w' = record_sent w (file_descriptor c) xs in
     if ys = [] then dispatch e (advance (length xs) c) w' else Inr (advance (length xs) c, w', RESULT_SUCCESS))"
proof -
  have "\<not> receiving (conn_state c)" using assms(1) by (auto simp: sending_def receiving_def)
  then have "connection_transfer e c w =
      Inr (advance (length xs) c, record_sent w (file_descriptor c) xs, RESULT_SUCCESS)"
    using assms by (simp add: connection_transfer_def socket_call_def advance_def Let_def)
  moreover have "(remaining_bytes (advance (length xs) c) = 0) = (ys = [])"
    using unat_minus_of_nat [of "remaining_bytes c" "length xs" "length ys"] assms(2)
    by (simp add: advance_def flip: unat_eq_0)
  ultimately show ?thesis by (simp add: connection_proc_def)
qed

lemma send_all:
  assumes "accepts fd es data" and "file_descriptor c = fd"
    and "sending (conn_state c)" and "unat (remaining_bytes c) = length data"
    and "unat (buffer_index c) + length data < 2 ^ 32"
    and "buffer_load c w (length data) = Inr data"
  shows "serve (es @ rest) c w =
    continue rest (dispatch (last es) (advance (length data) c) (record_sent w fd data))"
  using assms
proof (induction es data arbitrary: c w rule: accepts.induct)
  case (last_piece e data c w)
  then show ?case using send_step [of c data "[]" e w] by (simp add: serve_Cons)
next
  case (piece e xs ys es c w)
  have ys: "ys \<noteq> []" "es \<noteq> []" using accepts_nonempty [OF piece.hyps(3)] by auto
  let ?w = "record_sent w fd xs"
  have "connection_proc e c w = Inr (advance (length xs) c, ?w, RESULT_SUCCESS)"
    using send_step [of c xs ys e w] piece.prems piece.hyps(1,2) ys by (simp add: Let_def)
  moreover have "serve (es @ rest) (advance (length xs) c) ?w =
      continue rest (dispatch (last es) (advance (length ys) (advance (length xs) c))
        (record_sent ?w fd ys))"
  proof (rule piece.IH)
    show "unat (remaining_bytes (advance (length xs) c)) = length ys"
      using unat_minus_of_nat [of "remaining_bytes c" "length xs" "length ys"] piece.prems(3)
      by (simp add: advance_def)
    show "unat (buffer_index (advance (length xs) c)) + length ys < 2 ^ 32"
      using piece.prems(4) by (simp add: advance_def unat_plus_of_nat)
    show "buffer_load (advance (length xs) c) ?w (length ys) = Inr ys"
      using buffer_load_append [OF _ piece.prems(5)] piece.prems(4) by simp
  qed (use piece.prems(1,2) in simp_all)
  ultimately show ?case using ys by (simp add: serve_Cons advance_advance record_sent_twice)
next
  case (idle_turn e data es c w)
  have "\<not> receiving (conn_state c)" using idle_turn.prems(2) by (auto simp: sending_def receiving_def)
  then have "connection_proc e c w = Inr (c, w, RESULT_NO_TRANSFER)"
    using idle_turn by (simp add: connection_proc_def connection_transfer_def socket_call_def Let_def)
  then show ?case using idle_turn accepts_nonempty [OF idle_turn.hyps(2)] by (simp add: serve_Cons)
qed


section \<open>Headers\<close>

text \<open>A connection that waits for the first byte of a request, as \<open>init_request\<close> leaves it.\<close>

definition idle :: "connection \<Rightarrow> bool" where
  "idle c \<longleftrightarrow> conn_state c = RECEIVING_HEADER \<and> conn_buffer c = Header_union \<and> remaining_bytes c = 4 \<and>
     buffer_index c = 0 \<and> conn_flags c = FLAG_NONE \<and> lock_release_event c = LOCK_EVENT_NONE \<and>
     length (header_union c) = aggregate_response_size \<and> length (arguments_union c) = key_value_arguments_size"

lemma init_request_idle:
  "length (header_union c) = aggregate_response_size \<Longrightarrow> length (arguments_union c) = key_value_arguments_size \<Longrightarrow>
   idle (init_request c)"
  by (simp add: idle_def init_request_def wire_sizes)

text \<open>The connection after the four bytes of a request header have arrived.\<close>

definition header_arrived :: "connection \<Rightarrow> request_header \<Rightarrow> connection" where
  "header_arrived c r = advance 4 (c\<lparr>header_union := encode_request_header r @ drop 4 (header_union c)\<rparr>)"

lemma length_encoded_request [simp]: "length (encode_request_header r) = 4"
  using request_wire.length_enc [of r] by (simp add: wire_sizes)

lemma encoded_request_nonempty [simp]: "encode_request_header r \<noteq> []"
  using length_encoded_request [of r] by (metis list.size(3) zero_neq_numeral)

lemma header_arrived_fields [simp]:
  "request_of (header_arrived c r) = r" "file_descriptor (header_arrived c r) = file_descriptor c"
  "arguments_union (header_arrived c r) = arguments_union c" "conn_flags (header_arrived c r) = conn_flags c"
  "lock_release_event (header_arrived c r) = lock_release_event c"
  "header_union (header_arrived c r) = encode_request_header r @ drop 4 (header_union c)"
  using request_wire.dec_enc by (simp_all add: header_arrived_def request_of_def wire_sizes advance_def)

lemma receive_header:
  assumes "idle c" and "file_descriptor c = fd" and "delivers fd es (encode_request_header r)"
  shows "serve (es @ rest) c w = serve rest (event_received_header (header_arrived c r)) w"
proof -
  have "buffer_store c w (encode_request_header r) =
      Inr (c\<lparr>header_union := encode_request_header r @ drop 4 (header_union c)\<rparr>, w)"
    using assms(1) by (simp add: buffer_store_def overwrite_def idle_def wire_sizes)
  from receive_all [OF assms(3,2) _ _ _ this, of rest] show ?thesis
    using assms(1) by (simp add: idle_def receiving_def dispatch_def header_arrived_def [symmetric])
      (simp add: dispatch_def header_arrived_def)
qed

text \<open>A response that is one byte and ends the request.\<close>

lemma send_header_fields [simp]:
  "conn_state (send_header c t) = SENDING_HEADER" "remaining_bytes (send_header c t) = 1"
  "buffer_index (send_header c t) = 0" "file_descriptor (send_header c t) = file_descriptor c"
  "conn_buffer (send_header c t) = Header_union" "conn_flags (send_header c t) = conn_flags c"
  "header_union (send_header c t) = (header_union c)[0 := response_code t]"
  "arguments_union (send_header c t) = arguments_union c" "conn_entry (send_header c t) = conn_entry c"
  "lock_release_event (send_header c t) = lock_release_event c"
  by (simp_all add: send_header_def wire_sizes)

lemma response_type_sent:
  "header_union c \<noteq> [] \<Longrightarrow> header_union c ! 0 = response_code t \<Longrightarrow>
   resp_type (agg_header (response_of c)) = response_code t"
  by (cases "header_union c")
    (simp_all add: response_of_def decode_aggregate_response_def decode_response_header_def)

lemma send_response:
  assumes "file_descriptor c = fd" and "header_union c \<noteq> []" and "accepts fd es [response_code t]"
    and "t \<noteq> RESPONSE_NONE" and "t \<noteq> RESPONSE_VALUE"
  shows "serve (es @ rest) (send_header c t) w =
    (let c' = advance 1 (send_header c t);
         (c'', result) = finish_request (if ends_connection t then clear_flag FLAG_KEEP_ALIVE c' else c')
     in Inr (c'', record_sent w fd [response_code t], result, rest))"
proof -
  have ld: "buffer_load (send_header c t) w (length [response_code t]) = Inr [response_code t]"
    using assms(2) by (cases "header_union c") (simp_all add: buffer_load_def slice_def)
  have ty: "resp_type (agg_header (response_of (advance 1 (send_header c t)))) = response_code t"
    using assms(2) by (intro response_type_sent) simp_all
  from send_all [OF assms(3) _ _ _ _ ld, of rest] show ?thesis
    using assms(1,4,5) ty
    by (simp add: sending_def dispatch_def event_sent_header_def finish_request_def Let_def
        split: prod.split if_splits)
qed

text \<open>The flags are single bits, so they do not disturb each other.\<close>

lemmas flag_defs = FLAG_NONE_def FLAG_KEEP_ALIVE_def FLAG_ALLOCATED_BUFFER_def FLAG_LOCK_ACQUIRED_def

lemma has_flag_bit:
  "has_flag c FLAG_KEEP_ALIVE = bit (conn_flags c) 0"
  "has_flag c FLAG_ALLOCATED_BUFFER = bit (conn_flags c) 1"
  "has_flag c FLAG_LOCK_ACQUIRED = bit (conn_flags c) 2"
proof -
  have *: "has_flag c (push_bit n 1) = bit (conn_flags c) n" for n
    using and_exp_eq_0_iff_not_bit [of "conn_flags c" n] by (simp add: has_flag_def push_bit_eq_mult)
  show "has_flag c FLAG_KEEP_ALIVE = bit (conn_flags c) 0"
    "has_flag c FLAG_ALLOCATED_BUFFER = bit (conn_flags c) 1"
    "has_flag c FLAG_LOCK_ACQUIRED = bit (conn_flags c) 2"
    unfolding flag_defs by (rule *)+
qed

lemma flag_bits [simp]:
  "bit (conn_flags (set_flag FLAG_KEEP_ALIVE c)) n = (bit (conn_flags c) n \<or> n = 0)"
  "bit (conn_flags (set_flag FLAG_ALLOCATED_BUFFER c)) n = (bit (conn_flags c) n \<or> n = 1)"
  "bit (conn_flags (set_flag FLAG_LOCK_ACQUIRED c)) n = (bit (conn_flags c) n \<or> n = 2)"
  "bit (conn_flags (clear_flag FLAG_KEEP_ALIVE c)) n = (bit (conn_flags c) n \<and> n \<noteq> 0)"
  "bit (conn_flags (clear_flag FLAG_ALLOCATED_BUFFER c)) n = (bit (conn_flags c) n \<and> n \<noteq> 1)"
  "bit (conn_flags (clear_flag FLAG_LOCK_ACQUIRED c)) n = (bit (conn_flags c) n \<and> n \<noteq> 2)"
proof -
  have set: "bit (conn_flags (set_flag (push_bit k 1) c)) n = (bit (conn_flags c) n \<or> n = k \<and> k < 32)" for k
    by (auto simp: set_flag_def bit_or_iff bit_exp_iff)
  have clear: "bit (conn_flags (clear_flag (push_bit k 1) c)) n = (bit (conn_flags c) n \<and> n \<noteq> k)" for k
    using bit_imp_le_length [of "conn_flags c" n]
    by (auto simp: clear_flag_def bit_and_iff bit_not_iff bit_exp_iff)
  show
    "bit (conn_flags (set_flag FLAG_KEEP_ALIVE c)) n = (bit (conn_flags c) n \<or> n = 0)"
    "bit (conn_flags (set_flag FLAG_ALLOCATED_BUFFER c)) n = (bit (conn_flags c) n \<or> n = 1)"
    "bit (conn_flags (set_flag FLAG_LOCK_ACQUIRED c)) n = (bit (conn_flags c) n \<or> n = 2)"
    "bit (conn_flags (clear_flag FLAG_KEEP_ALIVE c)) n = (bit (conn_flags c) n \<and> n \<noteq> 0)"
    "bit (conn_flags (clear_flag FLAG_ALLOCATED_BUFFER c)) n = (bit (conn_flags c) n \<and> n \<noteq> 1)"
    "bit (conn_flags (clear_flag FLAG_LOCK_ACQUIRED c)) n = (bit (conn_flags c) n \<and> n \<noteq> 2)"
    using set [of 0] set [of 1] set [of 2] clear [of 0] clear [of 1] clear [of 2]
    unfolding flag_defs by simp_all
qed

lemma flag_fields [simp]:
  "conn_state (set_flag f c) = conn_state c" "conn_state (clear_flag f c) = conn_state c"
  "file_descriptor (set_flag f c) = file_descriptor c" "file_descriptor (clear_flag f c) = file_descriptor c"
  "header_union (set_flag f c) = header_union c" "header_union (clear_flag f c) = header_union c"
  "arguments_union (set_flag f c) = arguments_union c" "arguments_union (clear_flag f c) = arguments_union c"
  "conn_entry (set_flag f c) = conn_entry c" "conn_entry (clear_flag f c) = conn_entry c"
  "lock_release_event (set_flag f c) = lock_release_event c"
  "lock_release_event (clear_flag f c) = lock_release_event c"
  "conn_buffer (set_flag f c) = conn_buffer c" "conn_buffer (clear_flag f c) = conn_buffer c"
  "remaining_bytes (set_flag f c) = remaining_bytes c" "remaining_bytes (clear_flag f c) = remaining_bytes c"
  "buffer_index (set_flag f c) = buffer_index c" "buffer_index (clear_flag f c) = buffer_index c"
  by (simp_all add: set_flag_def clear_flag_def)

lemma request_of_flags [simp]:
  "request_of (set_flag f c) = request_of c" "request_of (clear_flag f c) = request_of c"
  "request_of (advance n c) = request_of c"
  by (simp_all add: request_of_def)

lemma flags_none [simp]: "\<not> bit FLAG_NONE n"
  by (simp add: FLAG_NONE_def)

section \<open>Properties\<close>

text \<open>What a request without arguments is answered, and whether the connection stays open.\<close>

definition wants_keep_alive :: "request_header \<Rightarrow> bool" where
  "wants_keep_alive r \<longleftrightarrow> req_flags r AND REQUEST_FLAG_KEEP_ALIVE \<noteq> 0"

definition simple_response :: "request_header \<Rightarrow> response_type" where
  "simple_response r =
     (if req_version r \<noteq> CACHE_PROTOCOL_VERSION then RESPONSE_UNSUPPORTED_VERSION
      else if req_type r = request_code REQUEST_PING then RESPONSE_PONG else RESPONSE_UNKNOWN_REQUEST)"

definition is_simple :: "request_header \<Rightarrow> bool" where
  "is_simple r \<longleftrightarrow> req_version r \<noteq> CACHE_PROTOCOL_VERSION \<or>
     request_type_of (req_type r) \<notin> {Some REQUEST_GET, Some REQUEST_PUT, Some REQUEST_DELETE}"

lemma simple_request_dispatch:
  assumes "is_simple r" and "request_of c = r"
  shows "event_received_header c =
    send_header (if req_version r = CACHE_PROTOCOL_VERSION \<and> wants_keep_alive r
                 then set_flag FLAG_KEEP_ALIVE c else c) (simple_response r)"
  using assms request_type_of_Some [of "req_type r" REQUEST_PING]
  by (auto simp: event_received_header_def simple_response_def is_simple_def wants_keep_alive_def Let_def
      split: option.splits request_type.splits)

text \<open>C35. A request without arguments is answered with one byte, in whatever pieces the header arrives and
  the byte leaves: PONG for a ping, UNSUPPORTED_VERSION for another version, UNKNOWN_REQUEST for a type
  the server does not know. Only a ping can keep the connection, which is then ready for the next
  request; after an error it is closed whatever the client asked for.\<close>

theorem simple_requests_answered:
  assumes "idle c" and "file_descriptor c = fd" and "is_simple r"
    and "delivers fd es (encode_request_header r)" and "accepts fd es' [response_code (simple_response r)]"
  shows "\<exists>c'. serve (es @ es' @ rest) c w =
      Inr (c', record_sent w fd [response_code (simple_response r)],
           if simple_response r = RESPONSE_PONG \<and> wants_keep_alive r then RESULT_NEW_REQUEST else RESULT_DISCONNECT,
           rest) \<and>
    (simple_response r = RESPONSE_PONG \<and> wants_keep_alive r \<longrightarrow> idle c')"
proof -
  let ?c = "if req_version r = CACHE_PROTOCOL_VERSION \<and> wants_keep_alive r
            then set_flag FLAG_KEEP_ALIVE (header_arrived c r) else header_arrived c r"
  have "serve (es @ es' @ rest) c w = serve (es' @ rest) (send_header ?c (simple_response r)) w"
    using receive_header [OF assms(1,2,4)] simple_request_dispatch [OF assms(3), of "header_arrived c r"] by simp
  moreover have "header_union ?c \<noteq> []" "file_descriptor ?c = fd"
    using assms(2) by auto
  moreover have "simple_response r \<noteq> RESPONSE_NONE" "simple_response r \<noteq> RESPONSE_VALUE"
    by (simp_all add: simple_response_def)
  ultimately show ?thesis
    using send_response [of ?c fd es' "simple_response r" rest w] assms(1,5)
    by (auto simp: Let_def finish_request_def has_flag_bit idle_def simple_response_def ends_connection_def
        init_request_def wire_sizes)
qed

definition sample_request :: "u8 \<Rightarrow> request_type \<Rightarrow> request_header" where
  "sample_request flags t = \<lparr>req_version = CACHE_PROTOCOL_VERSION, req_flags = flags, req_type = request_code t\<rparr>"

text \<open>A socket that gives and takes everything at once, and a connection on it.\<close>

definition sample_env :: "u8 list \<Rightarrow> env" where
  "sample_env input = \<lparr>env_recv = (\<lambda>fd n. Done (take n input)), env_send = (\<lambda>fd bs. Done (length bs)),
     env_malloc = True, env_map_allocs = (True, True), env_time = (0, 0),
     env_options = fill_defaults cleared_context\<rparr>"

definition sample_connection :: connection where
  "sample_connection = init_request \<lparr>previous = None, next = None, conn_buffer = Header_union, conn_entry = Null,
     remaining_bytes = 0, buffer_index = 0, file_descriptor = 5, conn_state = RECEIVING_HEADER,
     header_union = replicate 5 0, arguments_union = replicate 6 0, lock_release_event = LOCK_EVENT_NONE,
     conn_flags = 0\<rparr>"

lemma sample_connection_idle: "idle sample_connection" "file_descriptor sample_connection = 5"
  by (simp_all add: sample_connection_def init_request_idle wire_sizes) (simp add: init_request_def)

lemma sample_delivers: "data \<noteq> [] \<Longrightarrow> delivers fd [sample_env data] data"
  by (rule delivers.last_piece) (simp_all add: sample_env_def)

lemma sample_accepts: "data \<noteq> [] \<Longrightarrow> accepts fd [sample_env input] data"
  by (rule accepts.last_piece) (simp_all add: sample_env_def)

theorem simple_requests_answered_witness:
  "\<forall>w. \<exists>c'. serve [sample_env (encode_request_header (sample_request 1 REQUEST_PING)), sample_env []] sample_connection w =
      Inr (c', record_sent w 5 [3], RESULT_NEW_REQUEST, []) \<and> idle c'"
proof
  fix w
  let ?r = "sample_request 1 REQUEST_PING"
  note simple_requests_answered [OF sample_connection_idle, of ?r "[sample_env (encode_request_header ?r)]"
      "[sample_env []]" "[]" w, OF _ sample_delivers [OF encoded_request_nonempty] sample_accepts]
  moreover have "is_simple ?r" "simple_response ?r = RESPONSE_PONG" "wants_keep_alive ?r"
    by (simp_all add: sample_request_def is_simple_def request_type_of_def simple_response_def
        wants_keep_alive_def REQUEST_FLAG_KEEP_ALIVE_def)
  ultimately show "\<exists>c'. serve [sample_env (encode_request_header (sample_request 1 REQUEST_PING)), sample_env []] sample_connection w =
      Inr (c', record_sent w 5 [3], RESULT_NEW_REQUEST, []) \<and> idle c'" by simp
qed

text \<open>The memory for a key, and the connection that receives it.\<close>

lemma malloc_ok:
  "malloc_block m n True = (m\<lparr>next_block := Suc (next_block m), block_size := (block_size m)(next_block m \<mapsto> n)\<rparr>,
     Ptr (next_block m) 0)"
  by (simp add: malloc_block_def)

definition key_block :: "world \<Rightarrow> u16 \<Rightarrow> memory" where
  "key_block w n =
     (let m = (w_mem w)\<lparr>next_block := Suc (next_block (w_mem w)),
                       block_size := (block_size (w_mem w))(next_block (w_mem w) \<mapsto> header_size + unat n)\<rparr>;
          p = Ptr (next_block (w_mem w)) 0
      in put_header m p ((header_at m p)\<lparr>key_size := n\<rparr>))"

lemma allocate_key_ok:
  assumes "env_malloc e" and "n = arg_key_size (key_arguments_of c)"
  shows "allocate_key e c w =
    Inr (set_flag FLAG_ALLOCATED_BUFFER c\<lparr>conn_entry := Ptr (next_block (w_mem w)) 0,
           conn_buffer := In_memory (Ptr (next_block (w_mem w)) header_size), remaining_bytes := ucast n,
           buffer_index := 0, conn_state := RECEIVING_BODY\<rparr>, set_mem w (key_block w n), RESULT_SUCCESS)"
  using assms
  by (simp add: allocate_key_def malloc_ok Let_def load_header_in_bounds store_header_in_bounds key_block_def
      set_flag_def)

lemma key_block_bounds:
  "in_bounds (key_block w n) (Ptr (next_block (w_mem w)) 0) (header_size + unat n)"
  by (simp add: key_block_def Let_def)

text \<open>C36. A socket error while a key is received frees a pointer that is not the start of a block: the
  buffer of the connection is the key behind the header of the block that was allocated for it. The
  server is brought down by a client that resets its connection in the middle of a key.\<close>

theorem key_reception_failure_frees_interior:
  assumes "env_malloc e"
  shows "\<exists>c' w'. allocate_key e c w = Inr (c', w', RESULT_SUCCESS) \<and> conn_state c' = RECEIVING_BODY \<and>
    (\<forall>e'. env_recv e' (file_descriptor c') (unat (remaining_bytes c')) = Io_error \<longrightarrow>
       connection_proc e' c' w' = Inl Bad_free)"
  using allocate_key_ok [OF assms refl, of c w]
  by (auto simp: connection_proc_def connection_transfer_def socket_call_def receiving_def socket_failure_def
      has_flag_bit free_buffer_def Let_def header_size_def)

theorem key_reception_failure_frees_interior_witness:
  "\<forall>w. \<exists>c' w'. allocate_key (sample_env []) sample_connection w = Inr (c', w', RESULT_SUCCESS) \<and>
     connection_proc ((sample_env [])\<lparr>env_recv := \<lambda>fd n. Io_error\<rparr>) c' w' = Inl Bad_free"
proof
  fix w
  have "env_malloc (sample_env [])" by (simp add: sample_env_def)
  then obtain c' w' where "allocate_key (sample_env []) sample_connection w = Inr (c', w', RESULT_SUCCESS)"
    and fail: "\<forall>e'. env_recv e' (file_descriptor c') (unat (remaining_bytes c')) = Io_error \<longrightarrow>
        connection_proc e' c' w' = Inl Bad_free"
    using key_reception_failure_frees_interior [of "sample_env []" sample_connection w] by blast
  then show "\<exists>c' w'. allocate_key (sample_env []) sample_connection w = Inr (c', w', RESULT_SUCCESS) \<and>
     connection_proc ((sample_env [])\<lparr>env_recv := \<lambda>fd n. Io_error\<rparr>) c' w' = Inl Bad_free"
    using fail [rule_format, of "(sample_env [])\<lparr>env_recv := \<lambda>fd n. Io_error\<rparr>"] by simp
qed

text \<open>Waiting for an empty key: the part of zero bytes asks \<^verbatim>\<open>recv\<close> for nothing, the answer 0 counts as no
  transfer, and only a transfer is followed by the handler of the state.\<close>

lemma empty_key_waits:
  assumes "env_malloc e" and "arg_key_size (key_arguments_of c) = 0"
  shows "\<exists>c' w'. allocate_key e c w = Inr (c', w', RESULT_SUCCESS) \<and> w_sent w' = w_sent w \<and>
    conn_state c' = RECEIVING_BODY \<and> file_descriptor c' = file_descriptor c \<and>
    (\<forall>es. (\<forall>e\<in>set es. env_ok e \<and> env_recv e (file_descriptor c') 0 \<noteq> Io_error) \<longrightarrow>
       serve es c' w' = Inr (c', w', RESULT_SUCCESS, []))"
proof -
  obtain c' w' where ak: "allocate_key e c w = Inr (c', w', RESULT_SUCCESS)" "conn_state c' = RECEIVING_BODY"
    "remaining_bytes c' = 0" "buffer_index c' = 0"
    "conn_buffer c' = In_memory (Ptr (next_block (w_mem w)) header_size)" "w' = set_mem w (key_block w 0)"
    "file_descriptor c' = file_descriptor c"
    using allocate_key_ok [OF assms(1), of 0 c w] assms(2) by auto
  have "in_bounds (w_mem w') (Ptr (next_block (w_mem w)) header_size) 0"
    using in_bounds_add [OF key_block_bounds [of w 0], of header_size 0] ak(6) by (simp del: in_bounds.simps)
  then have store: "buffer_store c' w' [] = Inr (c', w')"
    using ak(4,5) by (simp add: buffer_store_def store_bytes_def write_raw_Nil del: in_bounds.simps)
  have "connection_proc e c' w' = Inr (c', w', RESULT_NO_TRANSFER)"
    if "env_ok e" "env_recv e (file_descriptor c') 0 \<noteq> Io_error" for e
  proof (cases "env_recv e (file_descriptor c') 0")
    case (Done bs)
    then have "bs = []" using that(1) by (auto simp: env_ok_def)
    then show ?thesis
      using Done store ak(2,3)
      by (simp add: connection_proc_def connection_transfer_def socket_call_def receiving_def)
  qed (use that ak(2,3) in \<open>simp_all add: connection_proc_def connection_transfer_def socket_call_def receiving_def\<close>)
  then have "(\<forall>e\<in>set es. env_ok e \<and> env_recv e (file_descriptor c') 0 \<noteq> Io_error) \<Longrightarrow>
      serve es c' w' = Inr (c', w', RESULT_SUCCESS, [])" for es
    by (induction es) (simp_all add: serve_Cons)
  then show ?thesis using ak(1,2,6,7) by simp
qed

text \<open>C40. The event of releasing the last read lock is lost on a connection that is kept alive: finishing
  the request resets it, so the server does not look for writers waiting for the entry. On a
  connection that is closed the same release reports \<open>WRITES_UNBLOCKED\<close>.\<close>

theorem keep_alive_loses_lock_event:
  assumes "in_bounds (w_mem w) (conn_entry c) header_size" and "locks (header_at (w_mem w) (conn_entry c)) = 1"
    and "header_union c \<noteq> []" and "header_union c ! 0 = response_code RESPONSE_VALUE"
    and "has_flag c FLAG_KEEP_ALIVE"
  shows "\<exists>c' c'' w'. event_sent_body c w = Inr (c', w', RESULT_NEW_REQUEST) \<and>
     locks (header_at (w_mem w') (conn_entry c)) = 0 \<and> lock_release_event c' = LOCK_EVENT_NONE \<and>
     event_sent_body (clear_flag FLAG_KEEP_ALIVE c) w = Inr (c'', w', RESULT_DISCONNECT) \<and>
     lock_release_event c'' = LOCK_EVENT_WRITES_UNBLOCKED"
proof -
  have "response_type_of (resp_type (agg_header (response_of x))) = Some RESPONSE_VALUE"
    if "header_union x = header_union c" for x
    using that assms(3,4) response_type_sent [of x RESPONSE_VALUE] response_type_of_code [of RESPONSE_VALUE]
    by simp
  then have "response_type_of (resp_type (agg_header (response_of c))) = Some RESPONSE_VALUE"
    "response_type_of (resp_type (agg_header (response_of (clear_flag FLAG_KEEP_ALIVE c)))) = Some RESPONSE_VALUE"
    by simp_all
  moreover have "conn_entry c \<noteq> Null" using assms(1) by simp
  moreover have "bit (conn_flags c) 0" using assms(5) by (simp add: has_flag_bit)
  moreover have "has_flag (clear_flag FLAG_LOCK_ACQUIRED (x\<lparr>lock_release_event := ev\<rparr>)) FLAG_KEEP_ALIVE =
      bit (conn_flags x) 0" for x :: connection and ev
    using flag_bits(6) [of "x\<lparr>lock_release_event := ev\<rparr>" 0] by (simp add: has_flag_bit)
  ultimately show ?thesis
    using assms(1,2)
    by (simp add: event_sent_body_def release_lock_eq finish_request_def init_request_def)
qed

theorem keep_alive_loses_lock_event_witness:
  "\<exists>c' w'. event_sent_body
      (sample_connection\<lparr>header_union := [2, 0, 0, 0, 0], conn_entry := Ptr 0 0, conn_flags := 1\<rparr>)
      \<lparr>w_store = \<lparr>mem = put_header \<lparr>next_block = 1, block_size = [0 \<mapsto> 16], bytes = \<lambda>_ _. 0\<rparr> (Ptr 0 0)
           \<lparr>active = False, end_of_buffer = False, expiry = 0, value_size = 0, key_size = 0, locks = 1\<rparr>,
         index_ctx = \<lparr>hashmap_of = None\<rparr>,
         queue = \<lparr>buffer = Ptr 0 0, entry_count = 1, occupied_bytes = 16, capacity_bytes = 16,
                  read_index = 0, write_index = 16\<rparr>\<rparr>,
       w_sent = \<lambda>_. []\<rparr> = Inr (c', w', RESULT_NEW_REQUEST) \<and> lock_release_event c' = LOCK_EVENT_NONE"
  (is "\<exists>c' w'. event_sent_body ?c ?w = _ \<and> _")
proof -
  have "in_bounds (w_mem ?w) (conn_entry ?c) header_size" by (simp add: w_mem_def header_size_def)
  moreover have "locks (header_at (w_mem ?w) (conn_entry ?c)) = 1" by (simp add: w_mem_def)
  moreover have "header_union ?c \<noteq> []" "header_union ?c ! 0 = response_code RESPONSE_VALUE"
    "has_flag ?c FLAG_KEEP_ALIVE"
    by (simp_all add: has_flag_bit)
  ultimately show ?thesis using keep_alive_loses_lock_event [of ?w ?c] by blast
qed

end
