(* ===== verification/CacheContents.thy ===== *)
theory CacheContents
  imports ConnectionSession MemoryQueueProperties
begin

text \<open>
  The cache as a finite map. \<open>contents\<close> reads from the index and the entry buffer which value every key
  has; \<open>world_ok\<close> is the consistency of both: the buffer holds the entries \<open>es\<close>, and every item of the
  index is one of them. The lemmas say which changes of memory keep the contents: changes of other
  blocks, and changes inside an entry that is not in the index.
\<close>

section \<open>The abstraction\<close>

definition entry_value :: "memory \<Rightarrow> ptr \<Rightarrow> u8 list" where
  "entry_value m p =
     raw_bytes m (ptr_add p (header_size + unat (key_size (header_at m p)))) (unat (value_size (header_at m p)))"

definition index_of :: "world \<Rightarrow> index_state" where
  "index_of w = (w_mem w, index_ctx (w_store w))"

definition contents :: "world \<Rightarrow> u8 list \<Rightarrow> u8 list option" where
  "contents w k = map_option (entry_value (w_mem w)) (index_map (index_of w) k)"

definition world_ok :: "u8 list set \<Rightarrow> nat \<Rightarrow> world \<Rightarrow> nat list \<Rightarrow> bool" where
  "world_ok K b w es \<longleftrightarrow> memory_wf (w_mem w) \<and> queue_wf b (w_store w) es \<and> index_wf K (index_of w) \<and>
     ran (index_map (index_of w)) \<subseteq> Ptr b ` set es"

lemma index_of_simps [simp]:
  "fst (index_of w) = w_mem w" "snd (index_of w) = index_ctx (w_store w)"
  "index_of (record_sent w fd bs) = index_of w"
  "index_of (set_mem w m) = (m, index_ctx (w_store w))"
  by (simp_all add: index_of_def set_mem_def w_mem_def record_sent_def)

lemma new_store_simps [simp]:
  "w_mem (w\<lparr>w_store := st\<rparr>) = mem st" "index_of (w\<lparr>w_store := st\<rparr>) = (mem st, index_ctx st)"
  by (simp_all add: w_mem_def index_of_def)

lemma w_store_simps [simp]:
  "w_store (set_mem w m) = (w_store w)\<lparr>mem := m\<rparr>" "mem (w_store w) = w_mem w"
  by (simp_all add: set_mem_def w_mem_def)

lemma w_sent_record [simp]: "w_sent (record_sent w fd bs) = (w_sent w)(fd := w_sent w fd @ bs)"
  by (simp add: record_sent_def)

lemma contents_sent [simp]:
  "contents (record_sent w fd bs) = contents w" "world_ok K b (record_sent w fd bs) es = world_ok K b w es"
  by (simp_all add: contents_def world_ok_def fun_eq_iff)

lemma world_okD:
  assumes "world_ok K b w es"
  shows "memory_wf (w_mem w)" "queue_fields b (w_store w) es" "index_wf K (index_of w)"
    "index_map (index_of w) k = Some p \<Longrightarrow> \<exists>e\<in>set es. p = Ptr b e"
    "block_size (w_mem w) b = Some (capacity_bytes (queue (w_store w)))"
  using assms queue_fieldsD(2) [of b "w_store w" es]
  by (auto simp: world_ok_def queue_wf_def ran_def)

lemma world_entry:
  assumes "world_ok K b w es" and "e \<in> set es"
  shows "in_bounds (w_mem w) (Ptr b e) (entry_size (header_at (w_mem w) (Ptr b e)))"
    "in_bounds (w_mem w) (Ptr b e) header_size" "\<not> active (header_at (w_mem w) (Ptr b e))"
  using entry_in_bounds [OF world_okD(2) [OF assms(1)] assms(2)] by simp_all

section \<open>Changes that keep the index\<close>

lemma index_frame:
  assumes I: "index_wf K (m, c)"
    and same: "\<forall>p\<in>ran (index_map (m, c)). entry_readable m' p \<and> entry_key m' p = entry_key m p"
  shows "index_wf K (m', c)" and "index_map (m', c) = index_map (m, c)"
proof -
  obtain hm where hm: "hashmap_of c = Some hm"
    "hashmap_wf (entry_ok m K) (\<lambda>p. key_hash (entry_key m p)) (entry_key m) 0 0 hm"
    "index_map (m, c) = hashmap_map (entry_key m) hm"
    using index_wfD [OF I] by auto
  have ok: "entry_ok m K p" if "p \<in> ran (index_map (m, c))" for p
    using index_items(1) [OF I] that by (auto simp: ran_def)
  have "\<forall>p\<in>ran (hashmap_map (entry_key m) hm). entry_ok m' K p \<and>
      key_hash (entry_key m' p) = key_hash (entry_key m p) \<and> entry_key m' p = entry_key m p"
    using same ok by (auto simp: entry_ok_def hm(3))
  note cong = hashmap_wf_cong [OF hm(2) this]
  show map: "index_map (m', c) = index_map (m, c)"
    using cong(2) hm(1,3) by (simp add: index_map_def)
  have "entry_apart m' p q" if "p \<in> ran (index_map (m, c))" "q \<in> ran (index_map (m, c))" for p q
    using I that same by (auto simp: index_wf_def entry_apart_def)
  then show "index_wf K (m', c)" using cong(1) hm(1) map by (simp add: index_wf_def)
qed

text \<open>Memory that agrees with \<open>m\<close> on a range of bytes with an entry has the same entry there.\<close>

lemma same_range:
  assumes "in_bounds m p (entry_size (header_at m p))" and "in_bounds m' p (entry_size (header_at m p))"
    and "raw_bytes m' p (entry_size (header_at m p)) = raw_bytes m p (entry_size (header_at m p))"
  shows "header_at m' p = header_at m p" and "entry_readable m' p" and "entry_key m' p = entry_key m p"
    and "entry_value m' p = entry_value m p"
proof -
  let ?h = "header_at m p"
  have p: "p \<noteq> Null" using assms(1) by simp
  have split: "raw_bytes x p (entry_size ?h) = raw_bytes x p header_size @
      raw_bytes x (key_ptr p) (unat (key_size ?h)) @
      raw_bytes x (ptr_add p (header_size + unat (key_size ?h))) (unat (value_size ?h))" for x
    using raw_bytes_append [of p x "header_size + unat (key_size ?h)" "unat (value_size ?h)"]
      raw_bytes_append [of p x header_size "unat (key_size ?h)"] p
    by (simp add: key_ptr_def)
  have np: "key_ptr p \<noteq> Null" using p by (cases p) (simp_all add: key_ptr_def)
  have parts: "raw_bytes m' p header_size = raw_bytes m p header_size"
    "raw_bytes m' (key_ptr p) (unat (key_size ?h)) = raw_bytes m (key_ptr p) (unat (key_size ?h))"
    "raw_bytes m' (ptr_add p (header_size + unat (key_size ?h))) (unat (value_size ?h)) =
     raw_bytes m (ptr_add p (header_size + unat (key_size ?h))) (unat (value_size ?h))"
    using assms(3) p np by (simp_all only: split append_eq_append_conv length_raw_bytes simp_thms)
  show h: "header_at m' p = ?h" by (simp add: header_at_def parts(1))
  show "entry_readable m' p"
    unfolding entry_readable_def h by (rule in_bounds_mono [OF assms(2)]) simp
  show "entry_key m' p = entry_key m p" by (simp add: entry_key_def h parts(2))
  show "entry_value m' p = entry_value m p" by (simp add: entry_value_def h parts(3))
qed

text \<open>Only the keys and values of the entries in the index matter for the contents.\<close>

definition same_item :: "memory \<Rightarrow> memory \<Rightarrow> ptr \<Rightarrow> bool" where
  "same_item m m' p \<longleftrightarrow> entry_readable m' p \<and> entry_key m' p = entry_key m p \<and> entry_value m' p = entry_value m p"

lemma world_frame_items:
  assumes W: "world_ok K b w es" and same: "\<forall>p\<in>ran (index_map (index_of w)). same_item (w_mem w) m' p"
    and wf: "memory_wf m'"
    and st: "mem st = m'" "index_ctx st = index_ctx (w_store w)" "queue_wf b st es'" and sub: "set es \<subseteq> set es'"
  shows "world_ok K b (w\<lparr>w_store := st\<rparr>) es'" and "contents (w\<lparr>w_store := st\<rparr>) = contents w"
    and "index_map (index_of (w\<lparr>w_store := st\<rparr>)) = index_map (index_of w)"
proof -
  let ?w = "w\<lparr>w_store := st\<rparr>"
  have new: "w_mem ?w = m'" "index_of ?w = (m', index_ctx (w_store w))"
    using st by simp_all
  have I: "index_wf K (w_mem w, index_ctx (w_store w))" using W by (simp add: world_ok_def index_of_def)
  have *: "\<forall>p\<in>ran (index_map (w_mem w, index_ctx (w_store w))). entry_readable m' p \<and> entry_key m' p = entry_key (w_mem w) p"
    using same by (simp add: index_of_def same_item_def)
  show map: "index_map (index_of ?w) = index_map (index_of w)"
    using index_frame(2) [OF I *] st by (simp add: index_of_def)
  show "world_ok K b ?w es'"
    using W order_trans [OF _ image_mono [OF sub, of "Ptr b"]] st(3) wf index_frame(1) [OF I *] map new st(1)
    by (simp add: world_ok_def)
  show "contents ?w = contents w"
  proof
    fix k
    show "contents ?w k = contents w k"
      using same map new(1) by (cases "index_map (index_of w) k") (auto simp: contents_def ran_def same_item_def)
  qed
qed

lemma same_entries_item:
  assumes W: "world_ok K b w es" and e: "e \<in> set es" and sz: "block_size m' b = block_size (w_mem w) b"
    and same: "same_entries b (w_mem w) m' [e]"
  shows "same_item (w_mem w) m' (Ptr b e)"
proof -
  have b: "in_bounds (w_mem w) (Ptr b e) (entry_size (header_at (w_mem w) (Ptr b e)))"
    using world_entry(1) [OF W e] .
  moreover have "in_bounds m' (Ptr b e) (entry_size (header_at (w_mem w) (Ptr b e)))" using b sz by simp
  moreover have "raw_bytes m' (Ptr b e) (entry_size (header_at (w_mem w) (Ptr b e))) =
      raw_bytes (w_mem w) (Ptr b e) (entry_size (header_at (w_mem w) (Ptr b e)))"
    using same by (simp add: same_entries_def)
  ultimately show ?thesis using same_range unfolding same_item_def by blast
qed

lemma world_frame:
  assumes W: "world_ok K b w es" and sz: "block_size m' b = block_size (w_mem w) b"
    and same: "same_entries b (w_mem w) m' es" and wf: "memory_wf m'"
    and st: "mem st = m'" "index_ctx st = index_ctx (w_store w)" "queue_wf b st es'" and sub: "set es \<subseteq> set es'"
  shows "world_ok K b (w\<lparr>w_store := st\<rparr>) es'" and "contents (w\<lparr>w_store := st\<rparr>) = contents w"
    and "index_map (index_of (w\<lparr>w_store := st\<rparr>)) = index_map (index_of w)"
proof -
  have "same_item (w_mem w) m' p" if p: "p \<in> ran (index_map (index_of w))" for p
  proof -
    obtain e where e: "e \<in> set es" "p = Ptr b e" using W p by (auto simp: world_ok_def)
    have "same_entries b (w_mem w) m' [e]" using same e(1) by (simp add: same_entries_def)
    then show ?thesis using same_entries_item [OF W e(1) sz] e(2) by simp
  qed
  then have "\<forall>p\<in>ran (index_map (index_of w)). same_item (w_mem w) m' p" by blast
  note world_frame_items [OF W this wf st sub]
  then show "world_ok K b (w\<lparr>w_store := st\<rparr>) es'" "contents (w\<lparr>w_store := st\<rparr>) = contents w"
    "index_map (index_of (w\<lparr>w_store := st\<rparr>)) = index_map (index_of w)"
    by blast+
qed

text \<open>Changes of other blocks than that of the buffer.\<close>

lemma same_block_header: "same_block b m m' \<Longrightarrow> header_at m' (Ptr b i) = header_at m (Ptr b i)"
  by (simp only: header_at_def same_block_bytes)

lemma same_block_entries: "same_block b m m' \<Longrightarrow> same_entries b m m' es"
  by (simp add: same_entries_def same_block_header same_block_bytes del: raw_bytes.simps)

lemma queue_wf_same_block:
  assumes "same_block b (mem st) m'" and "queue_wf b st es"
  shows "queue_wf b (st\<lparr>mem := m'\<rparr>) es"
proof -
  have c: "chain m' b i xs j = chain (mem st) b i xs j" "chain_size m' b xs = chain_size (mem st) b xs" for i xs j
    by (rule chain_cong; use same_block_header [OF assms(1)] in simp)+
  have "queue_layout m' b cap r w xs = queue_layout (mem st) b cap r w xs" for cap r w xs
    by (simp add: queue_layout_def c same_block_header [OF assms(1)])
  then show ?thesis using assms c(2) by (simp add: queue_wf_def queue_fields_def Let_def same_block_def)
qed

lemma world_other_block:
  assumes "world_ok K b w es" and "same_block b (w_mem w) m'" and "memory_wf m'"
  shows "world_ok K b (set_mem w m') es" and "contents (set_mem w m') = contents w"
    and "index_map (index_of (set_mem w m')) = index_map (index_of w)"
proof -
  have q: "queue_wf b ((w_store w)\<lparr>mem := m'\<rparr>) es"
    using queue_wf_same_block [of b "w_store w" m' es] assms by (simp add: world_ok_def)
  have s: "block_size m' b = block_size (w_mem w) b" using assms(2) by (simp add: same_block_def)
  note world_frame [OF assms(1) s same_block_entries [OF assms(2)] assms(3) _ _ q subset_refl]
  then show "world_ok K b (set_mem w m') es" "contents (set_mem w m') = contents w"
    "index_map (index_of (set_mem w m')) = index_map (index_of w)"
    by (simp_all add: set_mem_def)
qed

section \<open>A new entry\<close>

text \<open>An allocation that fits behind the last entry without evicting any.\<close>

definition allocation_fits :: "store \<Rightarrow> nat \<Rightarrow> bool" where
  "allocation_fits st need \<longleftrightarrow>
     write_index (queue st) + need + header_size < capacity_bytes (queue st) \<and> \<not> must_clean need (queue st)"

definition new_header :: "u16 \<Rightarrow> u32 \<Rightarrow> u64 \<Rightarrow> entry_header" where
  "new_header ksize vsize expires = \<lparr>active = False, end_of_buffer = False, expiry = ucast expires,
     value_size = vsize, key_size = ksize, locks = 0\<rparr>"

lemma new_header_fields [simp]:
  "key_size (new_header ksize vsize expires) = ksize" "value_size (new_header ksize vsize expires) = vsize"
  "\<not> active (new_header ksize vsize expires)" "\<not> end_of_buffer (new_header ksize vsize expires)"
  by (simp_all add: new_header_def)

lemma allocate_fits:
  assumes W: "queue_wf b st es" and fits: "allocation_fits st (header_size + unat ksize + unat vsize)"
  defines "x \<equiv> write_index (queue st)"
  obtains st' where
    "memory_queue_allocate allocs ksize vsize expires out st = Inr (st', MEMORY_QUEUE_SUCCESS, Ptr b x)"
    "queue_wf b st' (es @ [x])" "same_entries b (mem st) (mem st') es"
    "mem st' = put_header (mem st) (Ptr b x) (new_header ksize vsize expires)" "index_ctx st' = index_ctx st"
    "read_index (queue st') = read_index (queue st)" "capacity_bytes (queue st') = capacity_bytes (queue st)"
    "write_index (queue st') = x + (header_size + unat ksize + unat vsize)"
proof -
  let ?h = "new_header ksize vsize expires" and ?need = "header_size + unat ksize + unat vsize"
  have F: "queue_fields b st es" using W by (simp add: queue_wf_def)
  note f = queue_fieldsD [OF F]
  have room: "x + ?need + header_size < capacity_bytes (queue st)" and clean: "\<not> must_clean ?need (queue st)"
    using fits by (simp_all add: allocation_fits_def x_def)
  have small: "?need < 2 ^ 32" "add64 (add64 x ?need) header_size = x + ?need + header_size"
    using room f(3) by (simp_all add: add64_small)
  then have total: "total_size (unat ksize) (unat vsize) = ?need" by (simp add: total_size_def wrap32_small)
  have size: "entry_size ?h = ?need" by simp
  note app = append_entry [OF F clean [folded size] _ new_header_fields(3,4), folded x_def]
  let ?st = "st\<lparr>mem := put_header (mem st) (Ptr b x) ?h,
      queue := (queue st)\<lparr>entry_count := add64 (entry_count (queue st)) 1,
        write_index := add64 x (entry_size ?h), occupied_bytes := add64 (occupied_bytes (queue st)) (entry_size ?h)\<rparr>\<rparr>"
  have wf: "queue_wf b ?st (es @ [x])" and same: "same_entries b (mem st) (put_header (mem st) (Ptr b x) ?h) es"
    and inb: "in_bounds (mem st) (Ptr b x) header_size"
    using app room by (simp_all del: in_bounds.simps)
  have "memory_queue_allocate allocs ksize vsize expires out st = Inr (?st, MEMORY_QUEUE_SUCCESS, Ptr b x)"
    using room small total f(1) inb clean
    by (simp add: memory_queue_allocate_def Let_def clean_while_skip x_def [symmetric] store_header_in_bounds
        new_header_def [symmetric] del: in_bounds.simps)
  moreover have "add64 x (entry_size ?h) = x + ?need" unfolding size using room f(3) by (intro add64_small) simp
  ultimately show ?thesis using that [of ?st] wf same by simp
qed

lemma chain_distinct: "chain m b i es j \<Longrightarrow> distinct es"
proof (induction es arbitrary: i)
  case (Cons e es)
  then show ?case using chain_mem [of m b _ es j] by (fastforce simp: header_size_def)
qed simp

lemma layout_distinct:
  assumes "queue_layout m b c r w es"
  shows "distinct es"
proof -
  from assms consider "chain m b r es w"
    | es1 es2 j where "es = es1 @ es2" "w \<le> r" "chain m b r es1 j" "chain m b 0 es2 w"
    by (auto simp: queue_layout_def)
  then show ?thesis
  proof cases
    case 1
    then show ?thesis by (rule chain_distinct)
  next
    case 2
    have "e \<notin> set es2" if "e \<in> set es1" for e
      using chain_mem [OF 2(3) that] chain_mem [OF 2(4), of e] 2(2) by (auto simp: header_size_def)
    then show ?thesis using 2(1) chain_distinct [OF 2(3)] chain_distinct [OF 2(4)] by auto
  qed
qed

text \<open>Writing key and value behind the header of an entry completes it.\<close>

lemma payload_written:
  assumes h: "header_at m (Ptr b x) = h" and k: "length k = unat (key_size h)" and v: "length v = unat (value_size h)"
    and inb: "in_bounds m (Ptr b x) (entry_size h)"
  defines "m' \<equiv> write_raw m (Ptr b (x + header_size)) (k @ v)"
  shows "header_at m' (Ptr b x) = h" and "entry_readable m' (Ptr b x)"
    and "entry_key m' (Ptr b x) = k" and "entry_value m' (Ptr b x) = v"
proof -
  show h': "header_at m' (Ptr b x) = h"
    unfolding m'_def header_at_def [of "write_raw _ _ _"]
    by (subst raw_bytes_write_other) (simp_all add: h [unfolded header_at_def] del: raw_bytes.simps)
  have "in_bounds m' (Ptr b x) (entry_size h)"
    using inb unfolding m'_def by (simp del: in_bounds.simps write_raw.simps)
  then show "entry_readable m' (Ptr b x)"
    unfolding entry_readable_def h' by (rule in_bounds_mono) simp
  have "raw_bytes m' (Ptr b (x + header_size)) (length k + length v) = k @ v"
    using raw_bytes_write_same [of "Ptr b (x + header_size)" m "k @ v"]
    by (simp add: m'_def del: raw_bytes.simps write_raw.simps)
  then have parts: "raw_bytes m' (Ptr b (x + header_size)) (length k) = k"
    "raw_bytes m' (ptr_add (Ptr b (x + header_size)) (length k)) (length v) = v"
    using raw_bytes_append [of "Ptr b (x + header_size)" m' "length k" "length v"]
    by (simp_all only: append_eq_append_conv length_raw_bytes ptr.distinct not_False_eq_True simp_thms)
  show "entry_key m' (Ptr b x) = k"
    using parts(1) k by (simp add: entry_key_def h' key_ptr_def del: raw_bytes.simps)
  show "entry_value m' (Ptr b x) = v"
    using parts(2) k v by (simp add: entry_value_def h' add.assoc del: raw_bytes.simps)
qed

text \<open>Key and value received into the entry that was just allocated.\<close>

lemma entry_filled:
  fixes ksize :: u16 and vsize :: u32
  assumes W: "world_ok K b w es" and al: "queue_wf b st (es @ [x])" "same_entries b (w_mem w) (mem st) es"
    "mem st = put_header (w_mem w) (Ptr b x) h" "index_ctx st = index_ctx (w_store w)"
    and k: "length k = unat (key_size h)" and v: "length v = unat (value_size h)"
  defines "m \<equiv> write_raw (mem st) (Ptr b (x + header_size)) (k @ v)"
  shows "world_ok K b (w\<lparr>w_store := st\<lparr>mem := m\<rparr>\<rparr>) (es @ [x])"
    and "contents (w\<lparr>w_store := st\<lparr>mem := m\<rparr>\<rparr>) = contents w"
    and "index_map (m, index_ctx (w_store w)) = index_map (index_of w)"
    and "entry_readable m (Ptr b x)" "entry_key m (Ptr b x) = k" "entry_value m (Ptr b x) = v"
    and "e \<in> set es \<Longrightarrow> entry_apart m (Ptr b e) (Ptr b x)"
    and "header_at m (Ptr b x) = h"
proof -
  have F: "queue_fields b st (es @ [x])" using al(1) by (simp add: queue_wf_def)
  have hx: "header_at (mem st) (Ptr b x) = h" using al(3) by simp
  have len: "length (k @ v) = unat (key_size h) + unat (value_size h)" using k v by simp
  have ch: "changed_in_entry b (mem st) m x"
    unfolding m_def using hx len by (intro changed_by_payload) simp_all
  have q: "queue_wf b (st\<lparr>mem := m\<rparr>) (es @ [x])" using queue_wf_changed(1) [OF al(1) _ ch] by simp
  have F': "queue_fields b (st\<lparr>mem := m\<rparr>) (es @ [x])" using q by (simp add: queue_wf_def)
  have "in_bounds (mem st) (Ptr b x) (entry_size h)" using entry_in_bounds(1) [OF F, of x] hx by simp
  note written = payload_written [OF hx k v this, folded m_def]
  then show hx': "header_at m (Ptr b x) = h" and r: "entry_readable m (Ptr b x)"
    and "entry_key m (Ptr b x) = k" and "entry_value m (Ptr b x) = v" by simp_all
  have x: "x \<notin> set es" using layout_distinct [OF queue_fieldsD(7) [OF F]] by simp
  have "same_entries b (mem st) m es"
    unfolding same_entries_def
  proof (intro ballI conjI)
    fix e
    assume e: "e \<in> set es"
    show raw: "raw_bytes m (Ptr b e) (entry_size (header_at (mem st) (Ptr b e))) =
        raw_bytes (mem st) (Ptr b e) (entry_size (header_at (mem st) (Ptr b e)))"
      using queue_wf_changed(2) [OF al(1) _ ch, of e] e x by fastforce
    have "in_bounds (mem st) (Ptr b e) (entry_size (header_at (mem st) (Ptr b e)))"
      using entry_in_bounds(1) [OF F] e by simp
    then show "header_at m (Ptr b e) = header_at (mem st) (Ptr b e)"
      using same_range(1) [OF _ _ raw] ch by (simp add: changed_in_entry_def)
  qed
  with al(2) have same: "same_entries b (w_mem w) m es" by (rule same_entries_trans) simp
  have mem_b: "block_size m = block_size (w_mem w)" "next_block m = next_block (w_mem w)"
    using al(3) by (simp_all add: m_def del: write_raw.simps)
  then have wf: "memory_wf m" using world_okD(1) [OF W] by (simp add: memory_wf_def)
  have sub: "set es \<subseteq> set (es @ [x])" by auto
  have sz: "block_size m b = block_size (w_mem w) b" using mem_b(1) by simp
  have "mem (st\<lparr>mem := m\<rparr>) = m" "index_ctx (st\<lparr>mem := m\<rparr>) = index_ctx (w_store w)" using al(4) by simp_all
  note frame = world_frame [OF W sz same wf this q sub]
  then show "world_ok K b (w\<lparr>w_store := st\<lparr>mem := m\<rparr>\<rparr>) (es @ [x])"
    "contents (w\<lparr>w_store := st\<lparr>mem := m\<rparr>\<rparr>) = contents w" by blast+
  show "index_map (m, index_ctx (w_store w)) = index_map (index_of w)"
    using frame(3) al(4) by simp
  assume e: "e \<in> set es"
  then have "e \<noteq> x" using x by auto
  then have "e + entry_size (header_at m (Ptr b e)) \<le> x \<or> x + entry_size (header_at m (Ptr b x)) \<le> e"
    using layout_disjoint [OF queue_fieldsD(7) [OF F']] e by simp
  moreover have "entry_readable m (Ptr b e)"
    unfolding entry_readable_def
    using entry_in_bounds(1) [OF F', of e] e by (auto elim!: in_bounds_mono simp del: in_bounds.simps)
  ultimately show "entry_apart m (Ptr b e) (Ptr b x)"
    using length_entry_key [OF r] length_entry_key by (auto simp: entry_apart_def)
qed

end
