(* ===== verification/Requests.thy ===== *)
theory Requests
  imports CacheContents
begin

text \<open>
  Whole requests. A GET, PUT or DELETE is followed from the first byte of its header to the last byte
  of its response, in whatever pieces the bytes travel, and related to the finite map \<open>contents\<close>: GET
  answers what the map says and leaves it alone, PUT adds the pair, DELETE removes the key. The
  universe \<open>K\<close> of keys is one without two keys of the same 48-bit hash.
\<close>

section \<open>Parts of a request\<close>

text \<open>The connection after its arguments, and after its body, have arrived.\<close>

definition args_arrived :: "connection \<Rightarrow> u8 list \<Rightarrow> connection" where
  "args_arrived c data = advance (length data)
     (receive_arguments (length data) c\<lparr>arguments_union := data @ drop (length data) (arguments_union c)\<rparr>)"

lemma args_arrived_fields [simp]:
  "request_of (args_arrived c data) = request_of c" "file_descriptor (args_arrived c data) = file_descriptor c"
  "conn_flags (args_arrived c data) = conn_flags c" "header_union (args_arrived c data) = header_union c"
  "lock_release_event (args_arrived c data) = lock_release_event c"
  "arguments_union (args_arrived c data) = data @ drop (length data) (arguments_union c)"
  "conn_entry (args_arrived c data) = conn_entry c"
  by (simp_all add: args_arrived_def receive_arguments_def request_of_def)

lemma receive_args:
  assumes "length (arguments_union c) = key_value_arguments_size" and "length data \<le> key_value_arguments_size"
    and "file_descriptor c = fd" and "delivers fd es data"
  shows "serve (es @ rest) (receive_arguments (length data) c) w =
    continue rest (event_received_arguments (last es) (args_arrived c data) w)"
proof -
  let ?c = "receive_arguments (length data) c"
  have n: "unat (of_nat (length data) :: u32) = length data"
    using assms(2) by (simp add: unat_of_nat wire_sizes)
  have "buffer_store ?c w data = Inr (?c\<lparr>arguments_union := data @ drop (length data) (arguments_union c)\<rparr>, w)"
    using assms(1,2) by (simp add: buffer_store_def overwrite_def receive_arguments_def)
  from receive_all [OF assms(4) _ _ _ _ this, of rest] show ?thesis
    using assms(2,3) n
    by (simp add: receive_arguments_def receiving_def dispatch_def args_arrived_def wire_sizes)
qed

lemma receive_body:
  assumes "conn_state c = RECEIVING_BODY" and "conn_buffer c = In_memory p" and "buffer_index c = 0"
    and "unat (remaining_bytes c) = length data" and "in_bounds (w_mem w) p (length data)"
    and "file_descriptor c = fd" and "delivers fd es data"
  shows "serve (es @ rest) c w =
    continue rest (event_received_body (last es) (advance (length data) c) (set_mem w (write_raw (w_mem w) p data)))"
proof -
  have "buffer_store c w data = Inr (c, set_mem w (write_raw (w_mem w) p data))"
    using assms(2,3,5) by (simp add: buffer_store_def store_in_bounds)
  from receive_all [OF assms(7,6) _ _ _ this, of rest] show ?thesis
    using assms unsigned_less [of "remaining_bytes c", where ?'a = nat]
    by (simp add: receiving_def dispatch_def)
qed

section \<open>The key of a GET or DELETE\<close>

text \<open>C memory when the key \<open>k\<close> has been received behind the header that was allocated for it.\<close>

definition key_memory :: "world \<Rightarrow> u8 list \<Rightarrow> memory" where
  "key_memory w k = write_raw (key_block w (of_nat (length k))) (Ptr (next_block (w_mem w)) header_size) k"

definition key_connection :: "connection \<Rightarrow> world \<Rightarrow> u8 list \<Rightarrow> connection" where
  "key_connection c w k = advance (length k)
     (set_flag FLAG_ALLOCATED_BUFFER c\<lparr>conn_entry := Ptr (next_block (w_mem w)) 0,
        conn_buffer := In_memory (Ptr (next_block (w_mem w)) header_size),
        remaining_bytes := of_nat (length k), buffer_index := 0, conn_state := RECEIVING_BODY\<rparr>)"

lemma key_connection_fields [simp]:
  "request_of (key_connection c w k) = request_of c" "file_descriptor (key_connection c w k) = file_descriptor c"
  "header_union (key_connection c w k) = header_union c"
  "lock_release_event (key_connection c w k) = lock_release_event c"
  "arguments_union (key_connection c w k) = arguments_union c"
  "conn_entry (key_connection c w k) = Ptr (next_block (w_mem w)) 0"
  "bit (conn_flags (key_connection c w k)) n = (bit (conn_flags c) n \<or> n = 1)"
  using flag_bits(2) [of c n] by (simp_all add: key_connection_def request_of_def)

lemma unat_u16_length: "length k < 2 ^ 16 \<Longrightarrow> unat (of_nat (length k) :: u16) = length k"
  by (simp add: unat_of_nat)

lemma receive_key:
  assumes "env_malloc e" and "arg_key_size (key_arguments_of c) = of_nat (length k)" and "length k < 2 ^ 16"
    and "file_descriptor c = fd" and "delivers fd es k"
  shows "continue (es @ rest) (allocate_key e c w) =
    continue rest (event_received_body (last es) (key_connection c w k) (set_mem w (key_memory w k)))"
proof -
  have n: "ucast (of_nat (length k) :: u16) = (of_nat (length k) :: u32)"
    using assms(3) by (simp add: unsigned_of_nat take_bit_nat_eq_self)
  have u: "unat (of_nat (length k) :: u32) = length k" using assms(3) by (simp add: unat_of_nat)
  let ?c = "set_flag FLAG_ALLOCATED_BUFFER c\<lparr>conn_entry := Ptr (next_block (w_mem w)) 0,
        conn_buffer := In_memory (Ptr (next_block (w_mem w)) header_size),
        remaining_bytes := of_nat (length k), buffer_index := 0, conn_state := RECEIVING_BODY\<rparr>"
  have "in_bounds (w_mem (set_mem w (key_block w (of_nat (length k))))) (Ptr (next_block (w_mem w)) header_size) (length k)"
    using in_bounds_add [OF key_block_bounds [of w "of_nat (length k)"], of header_size "length k"]
      unat_u16_length [OF assms(3)] by simp
  then show ?thesis
    using receive_body [of ?c "Ptr (next_block (w_mem w)) header_size" k
        "set_mem w (key_block w (of_nat (length k)))" fd es rest] assms(4,5) u
      allocate_key_ok [OF assms(1) assms(2) [symmetric], of w] n
    by (simp add: key_memory_def key_connection_def)
qed

text \<open>What the request handlers need to know of that memory.\<close>

lemma key_memory_entry:
  assumes "length k < 2 ^ 16"
  shows "entry_readable (key_memory w k) (Ptr (next_block (w_mem w)) 0)"
    and "entry_key (key_memory w k) (Ptr (next_block (w_mem w)) 0) = k"
proof -
  let ?nb = "next_block (w_mem w)"
  let ?p = "Ptr ?nb 0"
  have "header_at (key_memory w k) ?p = header_at (key_block w (of_nat (length k))) ?p"
    unfolding key_memory_def header_at_def by (subst raw_bytes_write_other) simp_all
  then have ks: "unat (key_size (header_at (key_memory w k) ?p)) = length k"
    using unat_u16_length [OF assms] by (simp add: key_block_def Let_def)
  show "entry_readable (key_memory w k) ?p"
    using key_block_bounds [of w "of_nat (length k)"] unat_u16_length [OF assms] ks
    by (simp add: entry_readable_def key_memory_def del: in_bounds.simps write_raw.simps)
  show "entry_key (key_memory w k) ?p = k"
    using raw_bytes_write_same [of "Ptr ?nb header_size" "key_block w (of_nat (length k))" k] ks
    by (simp add: entry_key_def key_memory_def key_ptr_def del: raw_bytes.simps write_raw.simps)
qed

lemma key_memory_same:
  assumes "world_ok K b w es"
  shows "same_block b (w_mem w) (key_memory w k)" and "memory_wf (key_memory w k)"
    and "\<exists>m. free_block (key_memory w k) (Ptr (next_block (w_mem w)) 0) = Inr m \<and>
           same_block b (w_mem w) m \<and> memory_wf m"
proof -
  have nb: "b \<noteq> next_block (w_mem w)"
    using world_okD(1,5) [OF assms] by (auto simp: memory_wf_def)
  show s: "same_block b (w_mem w) (key_memory w k)"
    using nb by (simp add: same_block_def key_memory_def key_block_def Let_def put_header_def)
  show wf: "memory_wf (key_memory w k)"
    using world_okD(1) [OF assms]
    by (auto simp: memory_wf_def key_memory_def key_block_def Let_def less_Suc_eq simp del: write_raw.simps
        split: if_splits)
  have "block_size (key_memory w k) (next_block (w_mem w)) \<noteq> None"
    by (simp add: key_memory_def key_block_def Let_def del: write_raw.simps)
  then obtain m where m: "free_block (key_memory w k) (Ptr (next_block (w_mem w)) 0) = Inr m"
    "m = (key_memory w k)\<lparr>block_size := (block_size (key_memory w k))(next_block (w_mem w) := None)\<rparr>"
    by simp
  then show "\<exists>m. free_block (key_memory w k) (Ptr (next_block (w_mem w)) 0) = Inr m \<and>
           same_block b (w_mem w) m \<and> memory_wf m"
    using s nb memory_wf_free [OF wf m(1)] by (auto simp: same_block_def)
qed

lemma key_memory_valid:
  assumes W: "world_ok K b w es" and k: "k \<in> key_universe K" "length k < 2 ^ 16"
  shows "index_valid K (key_memory w k, index_ctx (w_store w)) (Ptr (next_block (w_mem w)) 0)"
proof -
  have map: "index_map (key_memory w k, index_ctx (w_store w)) = index_map (index_of w)"
    using world_other_block(3) [OF W key_memory_same(1,2) [OF W]] by simp
  have nb: "b \<noteq> next_block (w_mem w)"
    using world_okD(1,5) [OF W] by (auto simp: memory_wf_def)
  have "ran (index_map (index_of w)) \<subseteq> Ptr b ` set es" using W by (simp add: world_ok_def)
  then show ?thesis
    using key_memory_entry [OF k(2), of w] k(1) nb
    by (auto simp: index_valid_def entry_ok_def map entry_apart_def)
qed

section \<open>GET\<close>

text \<open>A request that announces the version the server speaks.\<close>

definition is_request :: "request_type \<Rightarrow> request_header \<Rightarrow> bool" where
  "is_request t r \<longleftrightarrow> req_version r = CACHE_PROTOCOL_VERSION \<and> req_type r = request_code t"

lemma is_request_type: "is_request t r \<Longrightarrow> request_type_of (req_type r) = Some t"
  by (simp add: is_request_def)

definition keep_flag :: "request_header \<Rightarrow> connection \<Rightarrow> connection" where
  "keep_flag r c = (if wants_keep_alive r then set_flag FLAG_KEEP_ALIVE c else c)"

lemma keep_flag_fields [simp]:
  "request_of (keep_flag r c) = request_of c" "file_descriptor (keep_flag r c) = file_descriptor c"
  "header_union (keep_flag r c) = header_union c" "arguments_union (keep_flag r c) = arguments_union c"
  "lock_release_event (keep_flag r c) = lock_release_event c"
  "bit (conn_flags (keep_flag r c)) n = (bit (conn_flags c) n \<or> n = 0 \<and> wants_keep_alive r)"
  by (simp_all add: keep_flag_def)

lemma request_received:
  assumes "idle c" and "file_descriptor c = fd" and "is_request t r" and "delivers fd es (encode_request_header r)"
    and "t = REQUEST_GET \<or> t = REQUEST_DELETE \<or> t = REQUEST_PUT"
  shows "serve (es @ rest) c w = serve rest
    (receive_arguments (if t = REQUEST_PUT then key_value_arguments_size else key_arguments_size)
       (keep_flag r (header_arrived c r))) w"
proof -
  have "request_type_of (req_type r) = Some t" "req_version r = CACHE_PROTOCOL_VERSION"
    using assms(3) by (simp_all add: is_request_def)
  then show ?thesis
    unfolding receive_header [OF assms(1,2,4)]
    using assms(5) by (auto simp: event_received_header_def keep_flag_def wants_keep_alive_def Let_def)
qed

text \<open>
  Up to the lookup: header, key size and key of a GET or DELETE have arrived. \<open>at_lookup\<close> is the
  connection that \<open>event_received_body\<close> then works on.
\<close>

definition at_lookup :: "connection \<Rightarrow> request_header \<Rightarrow> world \<Rightarrow> u8 list \<Rightarrow> connection" where
  "at_lookup c r w k = key_connection (args_arrived (keep_flag r (header_arrived c r))
     (encode_key_arguments \<lparr>arg_key_size = of_nat (length k)\<rparr>)) w k"

lemma at_lookup_fields [simp]:
  "request_of (at_lookup c r w k) = r" "file_descriptor (at_lookup c r w k) = file_descriptor c"
  "lock_release_event (at_lookup c r w k) = lock_release_event c"
  "conn_entry (at_lookup c r w k) = Ptr (next_block (w_mem w)) 0"
  "bit (conn_flags (at_lookup c r w k)) n = (bit (conn_flags c) n \<or> n = 0 \<and> wants_keep_alive r \<or> n = 1)"
  by (auto simp: at_lookup_def)

lemma at_lookup_lengths:
  assumes "idle c"
  shows "length (header_union (at_lookup c r w k)) = aggregate_response_size"
    "length (arguments_union (at_lookup c r w k)) = key_value_arguments_size"
  using assms key_wire.length_enc [of "\<lparr>arg_key_size = of_nat (length k)\<rparr>"]
  by (simp_all add: at_lookup_def idle_def wire_sizes)

lemma key_received:
  assumes "idle c" and "file_descriptor c = fd" and "is_request t r"
    and "t = REQUEST_GET \<or> t = REQUEST_DELETE"
    and "length k < 2 ^ 16" and "env_malloc (last es2)"
    and "delivers fd es1 (encode_request_header r)"
    and "delivers fd es2 (encode_key_arguments \<lparr>arg_key_size = of_nat (length k)\<rparr>)"
    and "delivers fd es3 k"
  shows "serve (es1 @ es2 @ es3 @ rest) c w =
    continue rest (event_received_body (last es3) (at_lookup c r w k) (set_mem w (key_memory w k)))"
proof -
  let ?a = "encode_key_arguments \<lparr>arg_key_size = of_nat (length k)\<rparr>"
  let ?c = "args_arrived (keep_flag r (header_arrived c r)) ?a"
  have len: "length ?a = key_arguments_size" by (rule key_wire.length_enc)
  have "key_arguments_of ?c = \<lparr>arg_key_size = of_nat (length k)\<rparr>"
    using key_wire.dec_prefix by (simp add: key_arguments_of_def)
  moreover have "request_type_of (req_type r) = Some t" using assms(3) by (simp add: is_request_def)
  moreover have "serve (es1 @ es2 @ es3 @ rest) c w =
      continue (es3 @ rest) (event_received_arguments (last es2) ?c w)"
    using request_received [OF assms(1-3,7)] assms(4)
      receive_args [of "keep_flag r (header_arrived c r)" ?a fd es2 "es3 @ rest" w] assms(1,2,8) len
    by (auto simp: idle_def wire_sizes)
  ultimately show ?thesis
    using receive_key [OF assms(6) _ assms(5) _ assms(9), of ?c rest w] assms(2,4)
    by (auto simp: event_received_arguments_def at_lookup_def)
qed

text \<open>C38. A GET or DELETE with an empty key is never answered: once its header and its arguments have
  arrived, in any pieces, no number of turns without a socket error makes the connection send a byte,
  report an end or leave the state in which it waits for the key. A PUT with an empty key is not
  concerned when its value is not empty, since key and value are received as one part.\<close>

theorem empty_key_never_answered:
  assumes "idle c" and "file_descriptor c = fd" and "is_request t r"
    and "t = REQUEST_GET \<or> t = REQUEST_DELETE" and "env_malloc (last es2)"
    and "delivers fd es1 (encode_request_header r)"
    and "delivers fd es2 (encode_key_arguments \<lparr>arg_key_size = 0\<rparr>)"
    and "\<forall>e\<in>set es. env_ok e \<and> env_recv e fd 0 \<noteq> Io_error"
  shows "\<exists>c' w'. serve (es1 @ es2 @ es) c w = Inr (c', w', RESULT_SUCCESS, []) \<and>
           w_sent w' = w_sent w \<and> conn_state c' = RECEIVING_BODY"
proof -
  let ?a = "encode_key_arguments \<lparr>arg_key_size = 0\<rparr>"
  let ?c = "args_arrived (keep_flag r (header_arrived c r)) ?a"
  have len: "length ?a = key_arguments_size" by (rule key_wire.length_enc)
  have "arg_key_size (key_arguments_of ?c) = 0"
    using key_wire.dec_prefix by (simp add: key_arguments_of_def)
  from empty_key_waits [OF assms(5) this, of w]
  obtain c' w' where w': "allocate_key (last es2) ?c w = Inr (c', w', RESULT_SUCCESS)" "w_sent w' = w_sent w"
    "conn_state c' = RECEIVING_BODY" "serve es c' w' = Inr (c', w', RESULT_SUCCESS, [])"
    using assms(2,8) by auto
  have "serve (es1 @ es2 @ es) c w = continue es (event_received_arguments (last es2) ?c w)"
    using request_received [OF assms(1-3,6)] assms(4)
      receive_args [of "keep_flag r (header_arrived c r)" ?a fd es2 es w] assms(1,2,7) len
    by (auto simp: idle_def wire_sizes)
  moreover have "event_received_arguments (last es2) ?c w = Inr (c', w', RESULT_SUCCESS)"
    using is_request_type [OF assms(3)] assms(4) w'(1) by (auto simp: event_received_arguments_def)
  ultimately show ?thesis using w' by simp
qed

theorem empty_key_never_answered_witness:
  "\<forall>w. \<exists>c' w'. serve (sample_env (encode_request_header (sample_request 1 REQUEST_GET)) #
        sample_env (encode_key_arguments \<lparr>arg_key_size = 0\<rparr>) # replicate 3 (sample_env [])) sample_connection w =
      Inr (c', w', RESULT_SUCCESS, []) \<and> w_sent w' = w_sent w"
proof
  fix w
  let ?e = "sample_env (encode_key_arguments \<lparr>arg_key_size = 0\<rparr>)"
  let ?r = "sample_request 1 REQUEST_GET"
  have "encode_key_arguments \<lparr>arg_key_size = 0\<rparr> \<noteq> []"
    using key_wire.length_enc [of "\<lparr>arg_key_size = 0\<rparr>"] by (auto simp: wire_sizes)
  then have "delivers 5 [?e] (encode_key_arguments \<lparr>arg_key_size = 0\<rparr>)" by (rule sample_delivers)
  moreover have "delivers 5 [sample_env (encode_request_header ?r)] (encode_request_header ?r)"
    by (rule sample_delivers) simp
  moreover have "is_request REQUEST_GET ?r" by (simp add: is_request_def sample_request_def)
  moreover have "env_malloc ?e" "\<forall>e\<in>set (replicate 3 (sample_env [])). env_ok e \<and> env_recv e 5 0 \<noteq> Io_error"
    by (simp_all add: sample_env_def env_ok_def)
  ultimately show "\<exists>c' w'. serve (sample_env (encode_request_header ?r) # ?e # replicate 3 (sample_env [])) sample_connection w =
      Inr (c', w', RESULT_SUCCESS, []) \<and> w_sent w' = w_sent w"
    using empty_key_never_answered [OF sample_connection_idle, of REQUEST_GET ?r "[?e]"
        "[sample_env (encode_request_header ?r)]" "replicate 3 (sample_env [])" w]
    by auto
qed

text \<open>The response that carries a value: its header, the value, and the lock around them.\<close>

definition value_header :: "u32 \<Rightarrow> u8 list" where
  "value_header n = encode_aggregate_response
     \<lparr>agg_header = \<lparr>resp_type = response_code RESPONSE_VALUE\<rparr>, agg_argument = \<lparr>arg_value_size = n\<rparr>\<rparr>"

lemma value_header_eq: "value_header n = 2 # word_bytes n"
  by (simp add: value_header_def encode_aggregate_response_def encode_response_header_def
      encode_value_arguments_def)

lemma length_value_header [simp]: "length (value_header n) = 5"
  by (simp add: value_header_eq)

text \<open>The connection that sends the header of a value response, and then the value.\<close>

definition value_response :: "connection \<Rightarrow> u32 \<Rightarrow> connection" where
  "value_response c n = (set_response_value_size n (send_header (set_flag FLAG_LOCK_ACQUIRED c) RESPONSE_VALUE))
     \<lparr>remaining_bytes := of_nat aggregate_response_size\<rparr>"

definition value_body :: "connection \<Rightarrow> u32 \<Rightarrow> ptr \<Rightarrow> connection" where
  "value_body c n p = advance 5 (value_response c n)\<lparr>conn_buffer := In_memory p, remaining_bytes := n,
     buffer_index := 0, conn_state := SENDING_BODY\<rparr>"

lemma value_response_fields [simp]:
  "conn_state (value_response c n) = SENDING_HEADER" "remaining_bytes (value_response c n) = 5"
  "buffer_index (value_response c n) = 0" "conn_buffer (value_response c n) = Header_union"
  "file_descriptor (value_response c n) = file_descriptor c" "conn_entry (value_response c n) = conn_entry c"
  "header_union c \<noteq> [] \<Longrightarrow> header_union (value_response c n) = value_header n"
  by (cases "header_union c"; simp add: value_response_def set_response_value_size_def wire_sizes value_header_eq)+

lemma value_body_fields [simp]:
  "conn_state (value_body c n p) = SENDING_BODY" "remaining_bytes (value_body c n p) = n"
  "buffer_index (value_body c n p) = 0" "conn_buffer (value_body c n p) = In_memory p"
  "file_descriptor (value_body c n p) = file_descriptor c" "conn_entry (value_body c n p) = conn_entry c"
  "header_union c \<noteq> [] \<Longrightarrow> header_union (value_body c n p) = value_header n"
  "arguments_union (value_body c n p) = arguments_union c"
  "bit (conn_flags (value_body c n p)) i = (bit (conn_flags c) i \<or> i = 2)"
  by (simp_all add: value_body_def) (simp_all add: value_response_def set_response_value_size_def)

lemma value_type: "header_union c = value_header n \<Longrightarrow> resp_type (agg_header (response_of c)) = response_code RESPONSE_VALUE"
  by (rule response_type_sent) (simp_all add: value_header_eq)

lemma attempt_read_unlocked:
  assumes "conn_entry c = p" and "in_bounds (w_mem w) p header_size" and "locks (header_at (w_mem w) p) \<noteq> 0xFFFF"
  shows "attempt_memory_read c w = Inr (value_response c (value_size (header_at (w_mem w) p)),
    set_mem w (put_header (w_mem w) p ((header_at (w_mem w) p)\<lparr>locks := locks (header_at (w_mem w) p) + 1\<rparr>)),
    RESULT_SUCCESS)"
proof -
  have "p \<noteq> Null" using assms(2) by simp
  then show ?thesis
    using assms
    by (simp add: attempt_memory_read_def acquire_lock_eq load_header_in_bounds value_response_def)
qed

lemma send_value_header:
  assumes "file_descriptor c = fd" and "accepts fd es (value_header n)" and "header_union c \<noteq> []"
    and "conn_entry c = p" and "in_bounds (w_mem w) p header_size" and "value_size (header_at (w_mem w) p) = n"
  shows "serve (es @ rest) (value_response c n) w =
    serve rest (value_body c n (ptr_add p (header_size + unat (key_size (header_at (w_mem w) p)))))
      (record_sent w fd (value_header n))"
proof -
  let ?c = "value_response c n"
  have "buffer_load ?c w (length (value_header n)) = Inr (value_header n)"
    using assms(3) by (simp add: buffer_load_def slice_def)
  note * = send_all [OF assms(2) _ _ _ _ this, of rest]
  have "resp_type (agg_header (response_of (advance 5 ?c))) = response_code RESPONSE_VALUE"
    using assms(3) by (intro value_type [of _ n]) simp
  then have "response_type_of (resp_type (agg_header (response_of (advance 5 ?c)))) = Some RESPONSE_VALUE"
    by (simp only: response_type_of_code)
  then have "event_sent_header (advance 5 ?c) (record_sent w fd (value_header n)) =
      Inr (value_body c n (ptr_add p (header_size + unat (key_size (header_at (w_mem w) p)))),
           record_sent w fd (value_header n), RESULT_SUCCESS)"
    using assms(4-6) by (simp add: event_sent_header_def load_header_in_bounds value_body_def)
  then show ?thesis using * assms(1) by (simp add: sending_def dispatch_def)
qed

lemma send_value_body:
  assumes "file_descriptor c = fd" and "accepts fd es v" and "header_union c \<noteq> []" and "conn_entry c = p"
    and "in_bounds (w_mem w) p header_size" and "load_bytes (w_mem w) q (length v) = Inr v" and "unat n = length v"
  defines "h \<equiv> header_at (w_mem w) p"
  shows "\<exists>c'. serve (es @ rest) (value_body c n q) w =
      Inr (c', set_mem (record_sent w fd v) (put_header (w_mem w) p (h\<lparr>locks := locks h - 1\<rparr>)),
           if bit (conn_flags c) 0 then RESULT_NEW_REQUEST else RESULT_DISCONNECT, rest) \<and>
    (bit (conn_flags c) 0 \<longrightarrow> length (arguments_union c) = key_value_arguments_size \<longrightarrow> idle c')"
proof -
  let ?c = "advance (length v) (value_body c n q)"
  have q: "q \<noteq> Null" using assms(6) by (cases q) (simp_all add: load_bytes_def)
  then have "buffer_load (value_body c n q) w (length v) = Inr v"
    using assms(6) by (cases q) (simp_all add: buffer_load_def)
  note * = send_all [OF assms(2) _ _ _ _ this, of rest]
  have "resp_type (agg_header (response_of ?c)) = response_code RESPONSE_VALUE"
    using assms(3) by (intro value_type [of _ n]) simp
  then have ty: "response_type_of (resp_type (agg_header (response_of ?c))) = Some RESPONSE_VALUE"
    by (simp only: response_type_of_code)
  have len: "length v < 2 ^ 32" using unsigned_less [of n, where ?'a = nat] assms(7) by simp
  have keep: "has_flag (clear_flag FLAG_LOCK_ACQUIRED (?c\<lparr>lock_release_event := ev\<rparr>)) FLAG_KEEP_ALIVE =
      bit (conn_flags c) 0" for ev
    using flag_bits(6) [of "?c\<lparr>lock_release_event := ev\<rparr>" 0] by (simp add: has_flag_bit)
  have "idle (init_request (clear_flag FLAG_LOCK_ACQUIRED (?c\<lparr>lock_release_event := ev\<rparr>)))"
    if "length (arguments_union c) = key_value_arguments_size" for ev
    using that assms(3) by (intro init_request_idle) (simp_all add: wire_sizes)
  then show ?thesis
    using * assms(1,4,5,7) ty len keep
    by (simp add: sending_def dispatch_def event_sent_body_def release_lock_eq h_def finish_request_def)
qed

text \<open>The messages of the answer to a GET, and whether the connection stays.\<close>

definition get_reply :: "u8 list option \<Rightarrow> u8 list list" where
  "get_reply v = (case v of None \<Rightarrow> [[response_code RESPONSE_NOT_FOUND]]
     | Some v \<Rightarrow> [value_header (of_nat (length v)), v])"

definition final_result :: "request_header \<Rightarrow> connection_result" where
  "final_result r = (if wants_keep_alive r then RESULT_NEW_REQUEST else RESULT_DISCONNECT)"

text \<open>A block other than the buffer holds a key behind a header, as the index expects it.\<close>

definition holds_key :: "nat \<Rightarrow> world \<Rightarrow> nat \<Rightarrow> u8 list \<Rightarrow> bool" where
  "holds_key b w p k \<longleftrightarrow> p \<noteq> b \<and> block_size (w_mem w) p \<noteq> None \<and>
     entry_readable (w_mem w) (Ptr p 0) \<and> entry_key (w_mem w) (Ptr p 0) = k"

lemma holds_key_valid:
  assumes W: "world_ok K b w es" and h: "holds_key b w p k" and k: "k \<in> key_universe K"
  shows "index_valid K (index_of w) (Ptr p 0)"
proof -
  have "ran (index_map (index_of w)) \<subseteq> Ptr b ` set es" using W by (simp add: world_ok_def)
  then show ?thesis using h k by (auto simp: holds_key_def index_valid_def entry_ok_def entry_apart_def)
qed

lemma holds_key_free:
  assumes W: "world_ok K b w es" and h: "holds_key b w p k"
  obtains m where "free_block (w_mem w) (Ptr p 0) = Inr m" and "\<forall>q. q \<noteq> p \<longrightarrow> same_block q (w_mem w) m"
    and "memory_wf m" and "next_block m = next_block (w_mem w)"
proof -
  obtain m where m: "free_block (w_mem w) (Ptr p 0) = Inr m"
    "m = (w_mem w)\<lparr>block_size := (block_size (w_mem w))(p := None)\<rparr>"
    using h by (auto simp: holds_key_def)
  show ?thesis
    by (rule that [OF m(1)]) (use memory_wf_free [OF world_okD(1) [OF W] m(1)] m(2) in \<open>simp_all add: same_block_def\<close>)
qed

text \<open>The lookup of a GET in memory that holds the key.\<close>

lemma lookup_key:
  assumes W: "world_ok K b w es" and h: "holds_key b w p k" and k: "k \<in> key_universe K"
    and c: "request_type_of (req_type (request_of c)) = Some REQUEST_GET" "conn_entry c = Ptr p 0"
    and m: "free_block (w_mem w) (Ptr p 0) = Inr m"
  shows "event_received_body e c w = attempt_memory_read (clear_flag FLAG_ALLOCATED_BUFFER c
      \<lparr>conn_entry := case index_map (index_of w) k of None \<Rightarrow> Null | Some p \<Rightarrow> p\<rparr>) (set_mem w m)"
proof -
  have "entry_hash_map_get (w_mem w) (index_ctx (w_store w)) (Ptr p 0) =
      Inr (case index_map (index_of w) k of None \<Rightarrow> Null | Some p \<Rightarrow> p)"
    using get_index [OF world_okD(3) [OF W, unfolded index_of_def] holds_key_valid [OF W h k, unfolded index_of_def]] h
    by (simp add: index_of_def holds_key_def)
  then show ?thesis using c m by (simp add: event_received_body_def Let_def del: free_block.simps)
qed

lemma key_memory_held:
  assumes "world_ok K b w es" and "length k < 2 ^ 16"
  shows "holds_key b (set_mem w (key_memory w k)) (next_block (w_mem w)) k"
  using key_memory_entry [OF assms(2), of w] world_okD(1,5) [OF assms(1)]
  by (auto simp: holds_key_def memory_wf_def key_memory_def key_block_def Let_def simp del: write_raw.simps)

lemma lookup_get:
  assumes W: "world_ok K b w es" and k: "k \<in> key_universe K" "length k < 2 ^ 16" and r: "is_request REQUEST_GET r"
  obtains m where "same_block b (w_mem w) m" "memory_wf m"
    "event_received_body e (at_lookup c r w k) (set_mem w (key_memory w k)) =
      attempt_memory_read (clear_flag FLAG_ALLOCATED_BUFFER (at_lookup c r w k)
          \<lparr>conn_entry := case index_map (index_of w) k of None \<Rightarrow> Null | Some p \<Rightarrow> p\<rparr>) (set_mem w m)"
proof -
  note same = key_memory_same [OF W, of k]
  note W' = world_other_block [OF W same(1,2)] and h = key_memory_held [OF W k(2)]
  obtain m where m: "free_block (key_memory w k) (Ptr (next_block (w_mem w)) 0) = Inr m"
    "same_block b (w_mem w) m" "memory_wf m"
    using same(3) by blast
  show ?thesis
    by (rule that [OF m(2,3)])
      (use lookup_key [OF W'(1) h k(1), of "at_lookup c r w k"] W'(3) m(1) is_request_type [OF r] in
        \<open>simp del: free_block.simps\<close>)
qed

lemma entry_value_loads:
  assumes "world_ok K b w es" and "e \<in> set es"
  defines "h \<equiv> header_at (w_mem w) (Ptr b e)"
  shows "load_bytes (put_header (w_mem w) (Ptr b e) h') (ptr_add (Ptr b e) (header_size + unat (key_size h)))
           (unat (value_size h)) = Inr (entry_value (w_mem w) (Ptr b e))"
    and "length (entry_value (w_mem w) (Ptr b e)) = unat (value_size h)"
proof -
  have "in_bounds (w_mem w) (ptr_add (Ptr b e) (header_size + unat (key_size h))) (unat (value_size h))"
    using in_bounds_add [OF world_entry(1) [OF assms(1,2)], of "header_size + unat (key_size h)" "unat (value_size h)"]
    by (simp add: h_def)
  then show "load_bytes (put_header (w_mem w) (Ptr b e) h') (ptr_add (Ptr b e) (header_size + unat (key_size h)))
           (unat (value_size h)) = Inr (entry_value (w_mem w) (Ptr b e))"
    unfolding entry_value_def h_def by (subst load_in_bounds) (simp_all add: raw_bytes_put_other del: in_bounds.simps raw_bytes.simps)
  show "length (entry_value (w_mem w) (Ptr b e)) = unat (value_size h)"
    by (simp add: entry_value_def h_def)
qed

lemma sent_restored:
  "set_mem (record_sent (record_sent (set_mem w m) fd xs) fd ys) (w_mem w) = record_sent w fd (xs @ ys)"
  by (simp add: record_sent_def set_mem_def w_mem_def del: w_store_simps)

lemma get_found:
  assumes W: "world_ok K b w es" and e: "e \<in> set es" and c: "conn_entry c = Ptr b e"
    and unlocked: "locks (header_at (w_mem w) (Ptr b e)) \<noteq> 0xFFFF"
    and len: "length (header_union c) = aggregate_response_size" "length (arguments_union c) = key_value_arguments_size"
    and fd: "file_descriptor c = fd" and v: "v = entry_value (w_mem w) (Ptr b e)"
    and acc: "accepts fd es1 (value_header (of_nat (length v)))" "accepts fd es2 v"
  shows "\<exists>c'. continue (es1 @ es2 @ rest) (attempt_memory_read c w) =
      Inr (c', record_sent w fd (value_header (of_nat (length v)) @ v),
           if bit (conn_flags c) 0 then RESULT_NEW_REQUEST else RESULT_DISCONNECT, rest) \<and>
    (bit (conn_flags c) 0 \<longrightarrow> idle c')"
proof -
  let ?p = "Ptr b e"
  let ?h = "header_at (w_mem w) ?p"
  let ?h1 = "?h\<lparr>locks := locks ?h + 1\<rparr>"
  let ?w1 = "set_mem w (put_header (w_mem w) ?p ?h1)"
  let ?q = "ptr_add ?p (header_size + unat (key_size ?h))"
  note b = world_entry(2) [OF W e] and ld = entry_value_loads [OF W e]
  have n: "of_nat (length v) = value_size ?h" "unat (value_size ?h) = length v"
    using ld(2) v by simp_all
  have ne: "header_union c \<noteq> []" using len(1) by (auto simp: wire_sizes)
  have "continue (es1 @ es2 @ rest) (attempt_memory_read c w) = serve (es1 @ es2 @ rest) (value_response c (value_size ?h)) ?w1"
    using attempt_read_unlocked [OF c b unlocked] by simp
  also have "\<dots> = serve (es2 @ rest) (value_body c (value_size ?h) ?q) (record_sent ?w1 fd (value_header (value_size ?h)))"
    using send_value_header [OF fd acc(1) [unfolded n(1)] ne c, of ?w1 "es2 @ rest"] b by simp
  finally have run: "continue (es1 @ es2 @ rest) (attempt_memory_read c w) =
      serve (es2 @ rest) (value_body c (value_size ?h) ?q) (record_sent ?w1 fd (value_header (value_size ?h)))" .
  let ?w2 = "record_sent ?w1 fd (value_header (value_size ?h))"
  have ldv: "load_bytes (w_mem ?w2) ?q (length v) = Inr v" using ld(1) n v by simp
  have b2: "in_bounds (w_mem ?w2) ?p header_size" using b by simp
  have h: "header_at (w_mem ?w2) ?p = ?h1" by simp
  have "?h1\<lparr>locks := locks ?h1 - 1\<rparr> = ?h" by simp
  then have "put_header (w_mem ?w2) ?p (?h1\<lparr>locks := locks ?h1 - 1\<rparr>) = w_mem w"
    by (simp only: set_mem_simps put_header_twice put_header_same ptr.distinct simp_thms)
  then have restored: "set_mem (record_sent ?w2 fd v) (put_header (w_mem ?w2) ?p (?h1\<lparr>locks := locks ?h1 - 1\<rparr>)) =
      record_sent w fd (value_header (value_size ?h) @ v)"
    by (simp only: sent_restored)
  from send_value_body [OF fd acc(2) ne c b2 ldv n(2), of rest, unfolded h restored] show ?thesis
    unfolding run n(1) using len(2) by blast
qed

text \<open>The response to a GET of a key that is not there.\<close>

lemma get_missing:
  assumes "conn_entry c = Null" and len: "length (header_union c) = aggregate_response_size"
    "length (arguments_union c) = key_value_arguments_size"
    and fd: "file_descriptor c = fd" and acc: "accepts fd es [response_code RESPONSE_NOT_FOUND]"
  shows "\<exists>c'. continue (es @ rest) (attempt_memory_read c w) =
      Inr (c', record_sent w fd [response_code RESPONSE_NOT_FOUND],
           if bit (conn_flags c) 0 then RESULT_NEW_REQUEST else RESULT_DISCONNECT, rest) \<and>
    (bit (conn_flags c) 0 \<longrightarrow> idle c')"
proof -
  have "attempt_memory_read c w = Inr (send_header c RESPONSE_NOT_FOUND, w, RESULT_SUCCESS)"
    using assms(1) by (simp add: attempt_memory_read_def)
  moreover have "idle (init_request (advance 1 (send_header c RESPONSE_NOT_FOUND)))"
    using len by (intro init_request_idle) simp_all
  moreover have "header_union c \<noteq> []" using len(1) by (auto simp: wire_sizes)
  ultimately show ?thesis
    using send_response [OF fd _ acc, of rest w]
    by (auto simp: ends_connection_def finish_request_def has_flag_bit Let_def)
qed

text \<open>A GET for a key of at most 65535 bytes, in whatever pieces it arrives, is answered with the value
  that the cache holds for the key, in whatever pieces the socket takes it, or with NOT_FOUND when
  the cache holds none. The cache is the same afterwards, no lock is left behind, and the connection is
  ready for the next request if the client asked to keep it.\<close>

lemma get_request:
  assumes "world_ok K b w es" and "idle c" and "file_descriptor c = fd" and "is_request REQUEST_GET r"
    and "k \<in> key_universe K" and "length k < 2 ^ 16" and "env_malloc (last es2)"
    and "\<forall>p. index_map (index_of w) k = Some p \<longrightarrow> locks (header_at (w_mem w) p) \<noteq> 0xFFFF"
    and "delivers fd es1 (encode_request_header r)"
    and "delivers fd es2 (encode_key_arguments \<lparr>arg_key_size = of_nat (length k)\<rparr>)" and "delivers fd es3 k"
    and "list_all2 (accepts fd) replies (get_reply (contents w k))"
  shows "\<exists>c' w'. serve (es1 @ es2 @ es3 @ concat replies @ rest) c w = Inr (c', w', final_result r, rest) \<and>
    w_sent w' = (w_sent w)(fd := w_sent w fd @ concat (get_reply (contents w k))) \<and>
    world_ok K b w' es \<and> contents w' = contents w \<and> (wants_keep_alive r \<longrightarrow> idle c')"
proof -
  obtain m where m: "same_block b (w_mem w) m" "memory_wf m"
    "event_received_body (last es3) (at_lookup c r w k) (set_mem w (key_memory w k)) =
      attempt_memory_read (clear_flag FLAG_ALLOCATED_BUFFER (at_lookup c r w k)
          \<lparr>conn_entry := case index_map (index_of w) k of None \<Rightarrow> Null | Some p \<Rightarrow> p\<rparr>) (set_mem w m)"
    using lookup_get [OF assms(1,5,6,4)] .
  let ?w = "set_mem w m"
  let ?c = "clear_flag FLAG_ALLOCATED_BUFFER (at_lookup c r w k)
      \<lparr>conn_entry := case index_map (index_of w) k of None \<Rightarrow> Null | Some p \<Rightarrow> p\<rparr>"
  note W = world_other_block [OF assms(1) m(1,2)]
  have run: "serve (es1 @ es2 @ es3 @ concat replies @ rest) c w = continue (concat replies @ rest) (attempt_memory_read ?c ?w)"
    using key_received [OF assms(2-4) _ assms(6,7,9-11)] m(3) by simp
  have flag: "bit (conn_flags ?c) 0 = wants_keep_alive r"
    using assms(2) flag_bits(5) [of "at_lookup c r w k" 0] by (simp add: idle_def)
  have len: "length (header_union ?c) = aggregate_response_size" "length (arguments_union ?c) = key_value_arguments_size"
    using at_lookup_lengths [OF assms(2), of r w k] by simp_all
  have fd: "file_descriptor ?c = fd" using assms(3) by simp
  show ?thesis
  proof (cases "index_map (index_of w) k")
    case None
    then obtain es4 where es4: "replies = [es4]" "accepts fd es4 [response_code RESPONSE_NOT_FOUND]"
      using assms(12) by (auto simp: contents_def get_reply_def list_all2_Cons2)
    have entry: "conn_entry ?c = Null" using None by simp
    have "\<exists>c'. continue (es4 @ rest) (attempt_memory_read ?c ?w) =
        Inr (c', record_sent ?w fd [response_code RESPONSE_NOT_FOUND], final_result r, rest) \<and>
      (wants_keep_alive r \<longrightarrow> idle c')"
      using get_missing [OF entry len fd es4(2), of rest ?w] unfolding flag final_result_def .
    then show ?thesis
      using run es4(1) W None by (auto simp: contents_def [of w k] get_reply_def)
  next
    case (Some p)
    then obtain e where e: "e \<in> set es" "p = Ptr b e" using world_okD(4) [OF assms(1)] by blast
    let ?v = "entry_value (w_mem w) p"
    obtain es4 es5 where es45: "replies = [es4, es5]" "accepts fd es4 (value_header (of_nat (length ?v)))" "accepts fd es5 ?v"
      using assms(12) Some by (auto simp: contents_def get_reply_def list_all2_Cons2)
    have same: "entry_value m (Ptr b e) = ?v" "header_at m (Ptr b e) = header_at (w_mem w) p"
      using same_block_header [OF m(1)] same_block_bytes [OF m(1)] e(2)
      by (simp_all add: entry_value_def del: raw_bytes.simps)
    have entry: "conn_entry ?c = Ptr b e" and val: "?v = entry_value (w_mem ?w) (Ptr b e)"
      and unlocked: "locks (header_at (w_mem ?w) (Ptr b e)) \<noteq> 0xFFFF"
      using Some e(2) same assms(8) by simp_all
    have "\<exists>c'. continue (es4 @ es5 @ rest) (attempt_memory_read ?c ?w) =
        Inr (c', record_sent ?w fd (value_header (of_nat (length ?v)) @ ?v), final_result r, rest) \<and>
      (wants_keep_alive r \<longrightarrow> idle c')"
      using get_found [OF W(1) e(1) entry unlocked len fd val es45(2,3), of rest]
      unfolding flag final_result_def .
    then show ?thesis
      using run es45(1) W Some
      by (auto simp: contents_def [of w k] get_reply_def)
  qed
qed

end
