(* ===== verification/UpdateRequests.thy ===== *)
theory UpdateRequests
  imports Requests
begin

text \<open>
  The requests that change the cache. A PUT whose entry fits behind the last one adds its pair to
  \<open>contents\<close>, a DELETE removes its key; both answer OK. As in \<open>Requests\<close> the pieces in which the bytes
  travel do not matter.
\<close>

section \<open>PUT\<close>

text \<open>The connection when the key and the value have been received into the entry at \<open>p\<close>.\<close>

definition body_connection :: "connection \<Rightarrow> ptr \<Rightarrow> nat \<Rightarrow> connection" where
  "body_connection c p n = advance n (c\<lparr>conn_entry := p, remaining_bytes := of_nat n, buffer_index := 0,
     conn_buffer := In_memory (ptr_add p header_size), conn_state := RECEIVING_BODY\<rparr>)"

lemma body_connection_fields [simp]:
  "request_of (body_connection c p n) = request_of c" "file_descriptor (body_connection c p n) = file_descriptor c"
  "header_union (body_connection c p n) = header_union c" "conn_flags (body_connection c p n) = conn_flags c"
  "arguments_union (body_connection c p n) = arguments_union c" "conn_entry (body_connection c p n) = p"
  by (simp_all add: body_connection_def request_of_def)

text \<open>The expiry period is configured, as it is after every \<open>configuration_parse\<close>.\<close>

definition expiry_configured :: "env \<Rightarrow> bool" where
  "expiry_configured e \<longleftrightarrow> (\<exists>v. configuration_get_int (env_options e) ENTRY_EXPIRY_MICROS = Inr v)"

lemma receive_pair:
  assumes W: "world_ok K b w es" and fits: "allocation_fits (w_store w) (header_size + length k + length v)"
    and k: "length k < 2 ^ 16" and v: "length v < 2 ^ 32" and e: "expiry_configured e"
    and args: "key_value_arguments_of c = \<lparr>kv_key_size = of_nat (length k), kv_value_size = of_nat (length v)\<rparr>"
    and fd: "file_descriptor c = fd" and d: "delivers fd es1 (k @ v)"
  obtains st m x where "world_ok K b (w\<lparr>w_store := st\<lparr>mem := m\<rparr>\<rparr>) (es @ [x])"
    and "contents (w\<lparr>w_store := st\<lparr>mem := m\<rparr>\<rparr>) = contents w" and "index_ctx st = index_ctx (w_store w)"
    and "index_map (m, index_ctx (w_store w)) = index_map (index_of w)"
    and "entry_readable m (Ptr b x)" "entry_key m (Ptr b x) = k" "entry_value m (Ptr b x) = v"
    and "\<forall>e\<in>set es. entry_apart m (Ptr b e) (Ptr b x)" and "locks (header_at m (Ptr b x)) = 0"
    and "continue (es1 @ rest) (attempt_memory_write e c w) =
      continue rest (event_received_body (last es1) (body_connection c (Ptr b x) (length (k @ v)))
        (w\<lparr>w_store := st\<lparr>mem := m\<rparr>\<rparr>))"
    and "x = write_index (queue (w_store w))" and "capacity_bytes (queue st) = capacity_bytes (queue (w_store w))"
proof -
  obtain micros where micros: "configuration_get_int (env_options e) ENTRY_EXPIRY_MICROS = Inr micros"
    using e by (auto simp: expiry_configured_def)
  have q: "queue_wf b (w_store w) es" using W by (simp add: world_ok_def)
  have sizes: "unat (of_nat (length k) :: u16) = length k" "unat (of_nat (length v) :: u32) = length v"
    using k v by (simp_all add: unat_of_nat)
  have n: "length (k @ v) < 2 ^ 32"
    using fits queue_fieldsD(3) [OF world_okD(2) [OF W]] by (simp add: allocation_fits_def)
  let ?now = "time_get_timestamp (env_time e) + of_int micros"
  define x where "x = write_index (queue (w_store w))"
  define h where "h = new_header (of_nat (length k)) (of_nat (length v)) ?now"
  obtain st where st: "memory_queue_allocate (env_map_allocs e) (of_nat (length k)) (of_nat (length v)) ?now (conn_entry c) (w_store w) =
      Inr (st, MEMORY_QUEUE_SUCCESS, Ptr b x)"
    "queue_wf b st (es @ [x])" "same_entries b (w_mem w) (mem st) es"
    "mem st = put_header (w_mem w) (Ptr b x) h" "index_ctx st = index_ctx (w_store w)"
    "capacity_bytes (queue st) = capacity_bytes (queue (w_store w))"
    using allocate_fits [OF q, of "of_nat (length k)" "of_nat (length v)"] fits sizes
    unfolding x_def h_def by (metis w_store_simps(2))
  have hs: "length k = unat (key_size h)" "length v = unat (value_size h)" using sizes by (simp_all add: h_def)
  define m where "m = write_raw (mem st) (Ptr b (x + header_size)) (k @ v)"
  note filled = entry_filled [OF W st(2-5) hs, folded m_def] and x = x_def
  let ?c = "c\<lparr>conn_entry := Ptr b x, remaining_bytes := of_nat (length (k @ v)), buffer_index := 0,
     conn_buffer := In_memory (ptr_add (Ptr b x) header_size), conn_state := RECEIVING_BODY\<rparr>"
  have rem: "ucast (of_nat (length k) :: u16) + of_nat (length v) = (of_nat (length (k @ v)) :: u32)"
    using k by (simp add: unsigned_of_nat take_bit_nat_eq_self)
  have "attempt_memory_write e c w = Inr (?c, w\<lparr>w_store := st\<rparr>, RESULT_SUCCESS)"
    using micros st(1) args rem by (simp add: attempt_memory_write_def Let_def)
  moreover have "in_bounds (mem st) (ptr_add (Ptr b x) header_size) (length (k @ v))"
  proof (rule in_bounds_add)
    have "queue_fields b st (es @ [x])" using st(2) by (simp add: queue_wf_def)
    then show "in_bounds (mem st) (Ptr b x) (entry_size h)" using entry_in_bounds(1) [of b st "es @ [x]" x] st(4) by simp
  qed (use hs in simp)
  moreover have "set_mem (w\<lparr>w_store := st\<rparr>) (write_raw (mem st) (ptr_add (Ptr b x) header_size) (k @ v)) =
      w\<lparr>w_store := st\<lparr>mem := m\<rparr>\<rparr>"
    by (simp add: set_mem_def m_def del: write_raw.simps)
  ultimately have run: "continue (es1 @ rest) (attempt_memory_write e c w) =
      continue rest (event_received_body (last es1) (body_connection c (Ptr b x) (length (k @ v)))
        (w\<lparr>w_store := st\<lparr>mem := m\<rparr>\<rparr>))"
    using receive_body [of ?c "ptr_add (Ptr b x) header_size" "k @ v" "w\<lparr>w_store := st\<rparr>" fd es1 rest] fd d n
    by (simp add: body_connection_def unat_of_nat del: in_bounds.simps write_raw.simps length_append)
  show ?thesis
    by (rule that [OF filled(1,2) st(5) filled(3-6) _ _ run x st(6)]) (use filled(7,8) in \<open>simp_all add: h_def new_header_def\<close>)
qed

text \<open>Clearing the active bit of an item of the index changes nothing: it is never set.\<close>

lemma inactive_item:
  assumes "world_ok K b w es" and "p \<in> ran (index_map (index_of w))"
  shows "inactive (w_mem w) p = w_mem w"
proof -
  obtain e where e: "e \<in> set es" "p = Ptr b e" using assms by (auto simp: world_ok_def)
  then have "(header_at (w_mem w) p)\<lparr>active := False\<rparr> = header_at (w_mem w) p"
    using world_entry(3) [OF assms(1) e(1)] by simp
  then show ?thesis using e(2) by (simp add: inactive_def)
qed

lemma index_step:
  assumes W: "world_ok K b w es" and I: "index_wf K s" and m: "fst s = w_mem w"
    and items: "ran (index_map s) \<subseteq> Ptr b ` set es"
  defines "w' \<equiv> w\<lparr>w_store := (w_store w)\<lparr>index_ctx := snd s\<rparr>\<rparr>"
  shows "world_ok K b w' es" and "contents w' k = map_option (entry_value (w_mem w)) (index_map s k)"
proof -
  have i: "index_of w' = s" using m by (cases s) (simp add: w'_def)
  have "w_mem w' = w_mem w" by (simp add: w'_def)
  moreover have "queue_wf b (w_store w') es"
    using W by (simp add: world_ok_def w'_def queue_wf_def queue_fields_def Let_def)
  ultimately show "world_ok K b w' es" using W I items i by (simp add: world_ok_def)
  show "contents w' k = map_option (entry_value (w_mem w)) (index_map s k)"
    using i \<open>w_mem w' = w_mem w\<close> by (simp add: contents_def)
qed

lemma put_inserts:
  assumes W: "world_ok K b w es" and room: "index_room (index_of w)" and x: "x \<in> set es"
    and p: "entry_readable (w_mem w) (Ptr b x)" "entry_key (w_mem w) (Ptr b x) = k" "k \<in> key_universe K"
    and apart: "\<forall>q\<in>ran (index_map (index_of w)). entry_apart (w_mem w) (Ptr b x) q"
    and c: "request_type_of (req_type (request_of c)) = Some REQUEST_PUT" "conn_entry c = Ptr b x"
    and allocs: "env_map_allocs e = (True, True)"
  shows "\<exists>w'. event_received_body e c w = Inr (send_header c RESPONSE_OK, w', RESULT_SUCCESS) \<and>
    world_ok K b w' es \<and> w_sent w' = w_sent w \<and>
    contents w' = (contents w)(k \<mapsto> entry_value (w_mem w) (Ptr b x)) \<and>
    w_mem w' = w_mem w \<and> index_map (index_of w') = (index_map (index_of w))(k \<mapsto> Ptr b x) \<and>
    queue (w_store w') = queue (w_store w)"
proof -
  have valid: "index_valid K (index_of w) (Ptr b x)"
    using p apart by (simp add: index_valid_def entry_ok_def)
  have self: "entry_apart (fst (index_of w)) (Ptr b x) (Ptr b x)" by (simp add: entry_apart_def)
  from put_index_memory [OF world_okD(3) [OF W] room valid, of "(True, True)"]
  obtain s' ok where put: "index_put (True, True) (index_of w) (Ptr b x) = Inr (s', ok)" "ok" "index_wf K s'"
    "index_map s' = (if ok then (index_map (index_of w))(entry_key (fst (index_of w)) (Ptr b x) \<mapsto> Ptr b x)
                     else index_map (index_of w))"
    "index_valid K s' (Ptr b x)"
    "fst s' = fst (index_of w) \<or> (\<exists>q\<in>ran (index_map (index_of w)). fst s' = inactive (fst (index_of w)) q)"
    using valid self unfolding fst_conv snd_conv simp_thms by blast
  then have s': "index_put (True, True) (index_of w) (Ptr b x) = Inr (s', True)" "index_wf K s'"
    "index_map s' = (index_map (index_of w))(k \<mapsto> Ptr b x)" "index_valid K s' (Ptr b x)"
    "fst s' = w_mem w \<or> (\<exists>q\<in>ran (index_map (index_of w)). fst s' = inactive (w_mem w) q)"
    using p(2) by simp_all
  have m: "fst s' = w_mem w" using s'(5) inactive_item [OF W] by auto
  have put: "entry_hash_map_put (True, True) (w_mem w) (index_ctx (w_store w)) (Ptr b x) = Inr (w_mem w, snd s', 0)"
    using s'(1) m by (auto simp: index_put_def elim!: bindE_InrE split: prod.splits)
  obtain q where "entry_hash_map_get (w_mem w) (snd s') (Ptr b x) = Inr q"
    using get_index [OF s'(2,4)] m by simp
  then have run: "event_received_body e c w =
      Inr (send_header c RESPONSE_OK, w\<lparr>w_store := (w_store w)\<lparr>index_ctx := snd s'\<rparr>\<rparr>, RESULT_SUCCESS)"
    using put c allocs by (simp add: event_received_body_def Let_def)
  have items: "ran (index_map s') \<subseteq> Ptr b ` set es"
    using W x s'(3) by (auto simp: world_ok_def ran_def split: if_splits)
  show ?thesis
    using run index_step [OF W s'(2) m items] s'(3) m by (cases s') (auto simp: contents_def fun_eq_iff)
qed

text \<open>A request that has been processed is answered OK.\<close>

lemma send_ok:
  assumes "file_descriptor c = fd" and "length (header_union c) = aggregate_response_size"
    and "length (arguments_union c) = key_value_arguments_size"
    and "accepts fd es [response_code RESPONSE_OK]" and "bit (conn_flags c) 0 = wants_keep_alive r"
  shows "\<exists>c'. serve (es @ rest) (send_header c RESPONSE_OK) w =
      Inr (c', record_sent w fd [response_code RESPONSE_OK], final_result r, rest) \<and>
    (wants_keep_alive r \<longrightarrow> idle c')"
proof -
  have "header_union c \<noteq> []" using assms(2) by (auto simp: wire_sizes)
  moreover have "idle (init_request (advance 1 (send_header c RESPONSE_OK)))"
    using assms(2,3) by (intro init_request_idle) simp_all
  moreover have "bit (conn_flags (advance 1 (send_header c RESPONSE_OK))) 0 = wants_keep_alive r"
    using assms(5) by simp
  ultimately show ?thesis
    using send_response [OF assms(1) _ assms(4), of rest w]
    by (auto simp: ends_connection_def finish_request_def has_flag_bit final_result_def Let_def)
qed

text \<open>A PUT of a key of at most 65535 bytes and a value, in whatever pieces they arrive, whose entry fits
  behind the last one, is answered OK and adds exactly this pair to the contents of the cache: the
  key has the value, whatever value it had before, and every other key is as it was.\<close>

lemma put_request:
  assumes "world_ok K b w es" and "index_room (index_of w)" and "idle c" and "file_descriptor c = fd"
    and "is_request REQUEST_PUT r" and "k \<in> key_universe K" and "length k < 2 ^ 16" and "length v < 2 ^ 32"
    and "allocation_fits (w_store w) (header_size + length k + length v)"
    and "expiry_configured (last es2)" and "env_map_allocs (last es3) = (True, True)"
    and "delivers fd es1 (encode_request_header r)"
    and "delivers fd es2 (encode_key_value_arguments
           \<lparr>kv_key_size = of_nat (length k), kv_value_size = of_nat (length v)\<rparr>)"
    and "delivers fd es3 (k @ v)" and "accepts fd es4 [response_code RESPONSE_OK]"
  shows "\<exists>c' w' x. serve (es1 @ es2 @ es3 @ es4 @ rest) c w = Inr (c', w', final_result r, rest) \<and>
    w_sent w' = (w_sent w)(fd := w_sent w fd @ [response_code RESPONSE_OK]) \<and>
    world_ok K b w' (es @ [x]) \<and> contents w' = (contents w)(k \<mapsto> v) \<and> (wants_keep_alive r \<longrightarrow> idle c') \<and>
    index_map (index_of w') k = Some (Ptr b x) \<and> locks (header_at (w_mem w') (Ptr b x)) = 0 \<and>
    x = write_index (queue (w_store w)) \<and> capacity_bytes (queue (w_store w')) = capacity_bytes (queue (w_store w))"
proof -
  let ?a = "\<lparr>kv_key_size = of_nat (length k), kv_value_size = of_nat (length v)\<rparr> :: key_value_arguments"
  let ?c = "args_arrived (keep_flag r (header_arrived c r)) (encode_key_value_arguments ?a)"
  have len: "length (encode_key_value_arguments ?a) = key_value_arguments_size" by (rule key_value_wire.length_enc)
  have cl: "length (header_union ?c) = aggregate_response_size" "length (arguments_union ?c) = key_value_arguments_size"
    and flag: "bit (conn_flags ?c) 0 = wants_keep_alive r"
    using assms(3) len by (simp_all add: idle_def wire_sizes)
  have fd: "file_descriptor ?c = fd" using assms(4) by simp
  have args: "key_value_arguments_of ?c = ?a"
    using assms(3) len key_value_wire.dec_enc by (simp add: key_value_arguments_of_def idle_def wire_sizes)
  obtain st m x where pair: "world_ok K b (w\<lparr>w_store := st\<lparr>mem := m\<rparr>\<rparr>) (es @ [x])"
    "contents (w\<lparr>w_store := st\<lparr>mem := m\<rparr>\<rparr>) = contents w" "index_ctx st = index_ctx (w_store w)"
    "index_map (m, index_ctx (w_store w)) = index_map (index_of w)"
    "entry_readable m (Ptr b x)" "entry_key m (Ptr b x) = k" "entry_value m (Ptr b x) = v"
    "\<forall>e\<in>set es. entry_apart m (Ptr b e) (Ptr b x)" "locks (header_at m (Ptr b x)) = 0"
    "continue (es3 @ es4 @ rest) (attempt_memory_write (last es2) ?c w) =
      continue (es4 @ rest) (event_received_body (last es3) (body_connection ?c (Ptr b x) (length (k @ v)))
        (w\<lparr>w_store := st\<lparr>mem := m\<rparr>\<rparr>))"
    "x = write_index (queue (w_store w))" "capacity_bytes (queue st) = capacity_bytes (queue (w_store w))"
    by (rule receive_pair [OF assms(1,9,7,8,10) args fd assms(14), of "es4 @ rest"])
  let ?w = "w\<lparr>w_store := st\<lparr>mem := m\<rparr>\<rparr>" and ?c2 = "body_connection ?c (Ptr b x) (length (k @ v))"
  have ty: "request_type_of (req_type (request_of ?c2)) = Some REQUEST_PUT"
    using is_request_type [OF assms(5)] by simp
  have "serve (es1 @ es2 @ es3 @ es4 @ rest) c w = continue (es3 @ es4 @ rest) (event_received_arguments (last es2) ?c w)"
    using request_received [OF assms(3-5,12)] assms(3,4,13) len
      receive_args [of "keep_flag r (header_arrived c r)" "encode_key_value_arguments ?a" fd es2 "es3 @ es4 @ rest" w]
    by (simp add: idle_def wire_sizes)
  also have "\<dots> = continue (es4 @ rest) (event_received_body (last es3) ?c2 ?w)"
    using pair(10) ty by (simp add: event_received_arguments_def)
  finally have run: "serve (es1 @ es2 @ es3 @ es4 @ rest) c w =
      continue (es4 @ rest) (event_received_body (last es3) ?c2 ?w)" .
  have room: "index_room (index_of ?w)" using assms(2) pair(3) by (simp add: index_room_def)
  have apart: "\<forall>q\<in>ran (index_map (index_of ?w)). entry_apart (w_mem ?w) (Ptr b x) q"
    using assms(1) pair(3,4,8) entry_apart_sym by (fastforce simp: world_ok_def)
  obtain w' where w': "event_received_body (last es3) ?c2 ?w = Inr (send_header ?c2 RESPONSE_OK, w', RESULT_SUCCESS)"
    "world_ok K b w' (es @ [x])" "w_sent w' = w_sent ?w" "contents w' = (contents ?w)(k \<mapsto> v)"
    "w_mem w' = m" "index_map (index_of w') = (index_map (index_of ?w))(k \<mapsto> Ptr b x)" "queue (w_store w') = queue st"
    using put_inserts [OF pair(1) room _ _ _ assms(6) apart ty _ assms(11)] pair(5-7) by auto
  have ix: "index_map (index_of w') k = Some (Ptr b x)" using w'(6) by simp
  have "\<exists>c'. serve (es4 @ rest) (send_header ?c2 RESPONSE_OK) w' =
      Inr (c', record_sent w' fd [response_code RESPONSE_OK], final_result r, rest) \<and> (wants_keep_alive r \<longrightarrow> idle c')"
    using cl flag assms(4,15) by (intro send_ok) simp_all
  then show ?thesis using run w'(1-5,7) ix pair(2,9,11,12) by auto
qed

section \<open>DELETE\<close>

lemma delete_key:
  assumes W: "world_ok K b w es" and room: "index_room (index_of w)" and h: "holds_key b w p k"
    and k: "k \<in> key_universe K"
    and c: "request_type_of (req_type (request_of c)) = Some REQUEST_DELETE" "conn_entry c = Ptr p 0"
    and m: "free_block (w_mem w) (Ptr p 0) = Inr m" "\<forall>q. q \<noteq> p \<longrightarrow> same_block q (w_mem w) m" "memory_wf m"
  shows "\<exists>w'. event_received_body e c w = Inr (send_header c RESPONSE_OK, w', RESULT_SUCCESS) \<and>
    world_ok K b w' es \<and> w_sent w' = w_sent w \<and> contents w' = (contents w)(k := None) \<and>
    w_mem w' = m \<and> index_map (index_of w') = (index_map (index_of w))(k := None)"
proof -
  have key: "p \<noteq> b" "entry_key (w_mem w) (Ptr p 0) = k" using h by (simp_all add: holds_key_def)
  from del_index_memory [OF world_okD(3) [OF W] room holds_key_valid [OF W h k], of "env_map_allocs e"]
  obtain s' where
    "entry_hash_map_delete (env_map_allocs e) (fst (index_of w)) (snd (index_of w)) (Ptr p 0) = Inr s'"
    "index_wf K s'" "index_map s' = (index_map (index_of w))(entry_key (fst (index_of w)) (Ptr p 0) := None)"
    "fst s' = fst (index_of w) \<or> (\<exists>q\<in>ran (index_map (index_of w)). fst s' = inactive (fst (index_of w)) q)"
    by blast
  then have s': "entry_hash_map_delete (env_map_allocs e) (w_mem w) (index_ctx (w_store w)) (Ptr p 0) = Inr s'"
    "index_wf K s'" "index_map s' = (index_map (index_of w))(k := None)"
    "fst s' = w_mem w \<or> (\<exists>q\<in>ran (index_map (index_of w)). fst s' = inactive (w_mem w) q)"
    using key(2) by simp_all
  have fs: "fst s' = w_mem w" using s'(4) inactive_item [OF W] by auto
  have items: "ran (index_map s') \<subseteq> Ptr b ` set es"
    using W s'(3) by (auto simp: world_ok_def ran_def split: if_splits)
  note step = index_step [OF W s'(2) fs items]
  let ?w = "w\<lparr>w_store := (w_store w)\<lparr>index_ctx := snd s'\<rparr>\<rparr>"
  have "same_block b (w_mem ?w) m" using m(2) key(1) by simp
  note final = world_other_block [OF step(1) this m(3)]
  have "event_received_body e c w = Inr (send_header c RESPONSE_OK, set_mem ?w m, RESULT_SUCCESS)"
    using s'(1) fs m(1) c by (cases s') (simp add: event_received_body_def Let_def set_mem_def del: free_block.simps)
  moreover have "contents ?w = (contents w)(k := None)"
    using step(2) s'(3) by (auto simp: contents_def [of w] fun_eq_iff)
  moreover have "index_map (index_of (set_mem ?w m)) = (index_map (index_of w))(k := None)"
    using final(3) s'(3) fs by (cases s') simp
  ultimately show ?thesis using final by auto
qed

lemma delete_removes:
  assumes W: "world_ok K b w es" and room: "index_room (index_of w)"
    and k: "k \<in> key_universe K" "length k < 2 ^ 16" and r: "is_request REQUEST_DELETE r"
  shows "\<exists>w'. event_received_body e (at_lookup c r w k) (set_mem w (key_memory w k)) =
      Inr (send_header (at_lookup c r w k) RESPONSE_OK, w', RESULT_SUCCESS) \<and>
    world_ok K b w' es \<and> w_sent w' = w_sent w \<and> contents w' = (contents w)(k := None)"
proof -
  let ?w = "set_mem w (key_memory w k)"
  note same = key_memory_same [OF W, of k]
  note W' = world_other_block [OF W same(1,2)] and h = key_memory_held [OF W k(2)]
  obtain m where m: "free_block (w_mem ?w) (Ptr (next_block (w_mem w)) 0) = Inr m"
    "\<forall>q. q \<noteq> next_block (w_mem w) \<longrightarrow> same_block q (w_mem ?w) m" "memory_wf m"
    using holds_key_free [OF W'(1) h] by blast
  have "index_room (index_of ?w)" using room by (simp add: index_room_def)
  from delete_key [OF W'(1) this h k(1) _ _ m, of "at_lookup c r w k" e] is_request_type [OF r] W'(2)
  show ?thesis by auto
qed

text \<open>A DELETE of a key of at most 65535 bytes, in whatever pieces it arrives, is answered OK and removes
  exactly this key from the contents of the cache, whether it was there or not and whatever
  allocations fail.\<close>

lemma delete_request:
  assumes "world_ok K b w es" and "index_room (index_of w)" and "idle c" and "file_descriptor c = fd"
    and "is_request REQUEST_DELETE r" and "k \<in> key_universe K" and "length k < 2 ^ 16" and "env_malloc (last es2)"
    and "delivers fd es1 (encode_request_header r)"
    and "delivers fd es2 (encode_key_arguments \<lparr>arg_key_size = of_nat (length k)\<rparr>)" and "delivers fd es3 k"
    and "accepts fd es4 [response_code RESPONSE_OK]"
  shows "\<exists>c' w'. serve (es1 @ es2 @ es3 @ es4 @ rest) c w = Inr (c', w', final_result r, rest) \<and>
    w_sent w' = (w_sent w)(fd := w_sent w fd @ [response_code RESPONSE_OK]) \<and>
    world_ok K b w' es \<and> contents w' = (contents w)(k := None) \<and> (wants_keep_alive r \<longrightarrow> idle c')"
proof -
  let ?c = "at_lookup c r w k"
  obtain w' where w': "event_received_body (last es3) ?c (set_mem w (key_memory w k)) =
      Inr (send_header ?c RESPONSE_OK, w', RESULT_SUCCESS)"
    "world_ok K b w' es" "w_sent w' = w_sent w" "contents w' = (contents w)(k := None)"
    using delete_removes [OF assms(1,2,6,7,5)] by blast
  have "serve (es1 @ es2 @ es3 @ es4 @ rest) c w = serve (es4 @ rest) (send_header ?c RESPONSE_OK) w'"
    using key_received [OF assms(3-5) _ assms(7-11)] w'(1) by simp
  moreover have "\<exists>c'. serve (es4 @ rest) (send_header ?c RESPONSE_OK) w' =
      Inr (c', record_sent w' fd [response_code RESPONSE_OK], final_result r, rest) \<and> (wants_keep_alive r \<longrightarrow> idle c')"
    using at_lookup_lengths [OF assms(3), of r w k] assms(3,4,12)
    by (intro send_ok) (simp_all add: idle_def)
  ultimately show ?thesis using w' by auto
qed

end
