(* ===== verification/Sessions.thy ===== *)
theory Sessions
  imports UpdateRequests
begin

text \<open>
  Sessions: any number of requests one after the other on a connection that is kept alive. \<open>service\<close> is
  the contract of a server that implements a map, its run of requests is proved to implement the run
  of the specification, and the interpretation discharges the contract for the connection handlers
  with the lemmas of \<open>Requests\<close> and \<open>UpdateRequests\<close>.
\<close>

section \<open>Requests and the map they act on\<close>

datatype cache_request = Get "u8 list" | Put "u8 list" "u8 list" | Delete "u8 list"

fun request_kind :: "cache_request \<Rightarrow> request_type" where
  "request_kind (Get k) = REQUEST_GET"
| "request_kind (Put k v) = REQUEST_PUT"
| "request_kind (Delete k) = REQUEST_DELETE"

fun request_key :: "cache_request \<Rightarrow> u8 list" where
  "request_key (Get k) = k"
| "request_key (Put k v) = k"
| "request_key (Delete k) = k"

type_synonym cache_map = "u8 list \<Rightarrow> u8 list option"

text \<open>The messages a request is answered with, and what it does to the map.\<close>

fun answer :: "cache_request \<Rightarrow> cache_map \<Rightarrow> u8 list list" where
  "answer (Get k) m = get_reply (m k)"
| "answer (Put k v) m = [[response_code RESPONSE_OK]]"
| "answer (Delete k) m = [[response_code RESPONSE_OK]]"

fun effect :: "cache_request \<Rightarrow> cache_map \<Rightarrow> cache_map" where
  "effect (Get k) m = m"
| "effect (Put k v) m = m(k \<mapsto> v)"
| "effect (Delete k) m = m(k := None)"

text \<open>The three parts of a request arrive, in pieces, and the server finds the memory it needs.\<close>

definition key_parts :: "int \<Rightarrow> u8 list \<Rightarrow> env list \<Rightarrow> env list \<Rightarrow> bool" where
  "key_parts fd k es2 es3 \<longleftrightarrow> length k < 2 ^ 16 \<and> env_malloc (last es2) \<and>
     delivers fd es2 (encode_key_arguments \<lparr>arg_key_size = of_nat (length k)\<rparr>) \<and> delivers fd es3 k"

definition pair_parts :: "int \<Rightarrow> u8 list \<Rightarrow> u8 list \<Rightarrow> env list \<Rightarrow> env list \<Rightarrow> bool" where
  "pair_parts fd k v es2 es3 \<longleftrightarrow> length k < 2 ^ 16 \<and> length v < 2 ^ 32 \<and>
     expiry_configured (last es2) \<and> env_map_allocs (last es3) = (True, True) \<and>
     delivers fd es2 (encode_key_value_arguments
       \<lparr>kv_key_size = of_nat (length k), kv_value_size = of_nat (length v)\<rparr>) \<and> delivers fd es3 (k @ v)"

definition sent_in :: "int \<Rightarrow> request_header \<Rightarrow> cache_request \<Rightarrow> env list \<Rightarrow> bool" where
  "sent_in fd r q ins \<longleftrightarrow> is_request (request_kind q) r \<and>
     (\<exists>es1 es2 es3. ins = es1 @ es2 @ es3 \<and> delivers fd es1 (encode_request_header r) \<and>
        (case q of Get k \<Rightarrow> key_parts fd k es2 es3 | Put k v \<Rightarrow> pair_parts fd k v es2 es3
         | Delete k \<Rightarrow> key_parts fd k es2 es3))"

lemma sent_inI:
  assumes "is_request (request_kind q) r" and "delivers fd es1 (encode_request_header r)"
    and "case q of Get k \<Rightarrow> key_parts fd k es2 es3 | Put k v \<Rightarrow> pair_parts fd k v es2 es3
         | Delete k \<Rightarrow> key_parts fd k es2 es3"
  shows "sent_in fd r q (es1 @ es2 @ es3)"
  unfolding sent_in_def using assms by blast

definition taken_in :: "int \<Rightarrow> u8 list list \<Rightarrow> env list \<Rightarrow> bool" where
  "taken_in fd msgs outs \<longleftrightarrow> (\<exists>segs. outs = concat segs \<and> list_all2 (accepts fd) segs msgs)"

text \<open>
  What a request needs of the state: its key is one of the universe; a GET finds its entry with a free
  read lock; the entry of a PUT fits behind the last one and the index is not at its limit.
\<close>

definition admissible :: "u8 list set \<Rightarrow> world \<Rightarrow> cache_request \<Rightarrow> bool" where
  "admissible K w q \<longleftrightarrow> request_key q \<in> key_universe K \<and>
     (case q of
        Get k \<Rightarrow> \<forall>p. index_map (index_of w) k = Some p \<longrightarrow> locks (header_at (w_mem w) p) \<noteq> 0xFFFF
      | Put k v \<Rightarrow> index_room (index_of w) \<and>
                   allocation_fits (w_store w) (header_size + length k + length v)
      | Delete k \<Rightarrow> index_room (index_of w))"

lemma one_reply: "taken_in fd [msg] outs \<longleftrightarrow> accepts fd outs msg"
  by (auto simp: taken_in_def list_all2_Cons2 intro!: exI [of _ "[outs]"])

lemma request_step:
  assumes "world_ok K b w es" and "idle c" and "file_descriptor c = fd" and "admissible K w q"
    and "sent_in fd r q ins" and "taken_in fd (answer q (contents w)) outs"
  shows "\<exists>c' w' es'. serve (ins @ outs @ rest) c w = Inr (c', w', final_result r, rest) \<and>
    w_sent w' = (w_sent w)(fd := w_sent w fd @ concat (answer q (contents w))) \<and>
    world_ok K b w' es' \<and> contents w' = effect q (contents w) \<and> (wants_keep_alive r \<longrightarrow> idle c')"
proof -
  have r: "is_request (request_kind q) r" using assms(5) by (simp add: sent_in_def)
  obtain es1 es2 es3 where ins: "ins = es1 @ es2 @ es3" "delivers fd es1 (encode_request_header r)"
    "case q of Get k \<Rightarrow> key_parts fd k es2 es3 | Put k v \<Rightarrow> pair_parts fd k v es2 es3
     | Delete k \<Rightarrow> key_parts fd k es2 es3"
    using assms(5) by (auto simp: sent_in_def)
  show ?thesis
  proof (cases q)
    case (Get k)
    obtain segs where "outs = concat segs" "list_all2 (accepts fd) segs (get_reply (contents w k))"
      using assms(6) Get by (auto simp: taken_in_def)
    then show ?thesis
      using get_request [OF assms(1-3), of r k es2 es1 es3 segs rest] Get r ins assms(4)
      by (auto simp: admissible_def key_parts_def)
  next
    case (Put k v)
    have "accepts fd outs [response_code RESPONSE_OK]" using assms(6) by (simp only: Put answer.simps one_reply)
    then show ?thesis
      using put_request [OF assms(1) _ assms(2,3), of r k v es2 es3 es1 outs rest] Put r ins assms(4)
      by (auto simp: admissible_def pair_parts_def)
  next
    case (Delete k)
    have "accepts fd outs [response_code RESPONSE_OK]" using assms(6) by (simp only: Delete answer.simps one_reply)
    then show ?thesis
      using delete_request [OF assms(1) _ assms(2,3), of r k es2 es1 es3 outs rest] Delete r ins assms(4)
      by (auto simp: admissible_def key_parts_def)
  qed
qed

section \<open>The contract of a service\<close>

text \<open>Runs of a fallible step, and the condition that every step finds the state it needs.\<close>

fun run_all :: "('q \<Rightarrow> 's \<Rightarrow> 's result) \<Rightarrow> 'q list \<Rightarrow> 's \<Rightarrow> 's result" where
  "run_all step [] s = Inr s"
| "run_all step (q # qs) s = bindE (step q s) (run_all step qs)"

fun all_ready :: "('q \<Rightarrow> 's \<Rightarrow> bool) \<Rightarrow> ('q \<Rightarrow> 's \<Rightarrow> 's result) \<Rightarrow> 'q list \<Rightarrow> 's \<Rightarrow> bool" where
  "all_ready ready step [] s = True"
| "all_ready ready step (q # qs) s =
     (ready q s \<and> (\<forall>s'. step q s = Inr s' \<longrightarrow> all_ready ready step qs s'))"

locale service =
  fixes inv :: "'s \<Rightarrow> bool" and view :: "'s \<Rightarrow> 'm" and ready :: "'q \<Rightarrow> 's \<Rightarrow> bool"
    and step :: "'q \<Rightarrow> 's \<Rightarrow> 's result" and spec :: "'q \<Rightarrow> 'm \<Rightarrow> 'm"
  assumes step_law: "inv s \<Longrightarrow> ready q s \<Longrightarrow> \<exists>s'. step q s = Inr s' \<and> inv s' \<and> view s' = spec q (view s)"
begin

lemma run_refines:
  "inv s \<Longrightarrow> all_ready ready step qs s \<Longrightarrow>
   \<exists>s'. run_all step qs s = Inr s' \<and> inv s' \<and> view s' = fold spec qs (view s)"
proof (induction qs arbitrary: s)
  case (Cons q qs)
  then obtain s1 where s1: "step q s = Inr s1" "inv s1" "view s1 = spec q (view s)" using step_law by force
  with Cons.prems(2) have "all_ready ready step qs s1" by simp
  from Cons.IH [OF s1(2) this] s1 show ?case by auto
qed simp

end

section \<open>Exchanges on a connection\<close>

text \<open>A request with its header, the turns in which it arrives and those in which the answer leaves.\<close>

record exchange =
  ex_header :: request_header
  ex_request :: cache_request
  ex_in :: "env list"
  ex_out :: "env list"

type_synonym session_state = "connection \<times> world"

definition exchange_step :: "exchange \<Rightarrow> session_state \<Rightarrow> session_state result" where
  "exchange_step x s =
     bindE (serve (ex_in x @ ex_out x) (fst s) (snd s)) (\<lambda>(c, w, result, rest). Inr (c, w))"

definition exchange_ready :: "u8 list set \<Rightarrow> int \<Rightarrow> exchange \<Rightarrow> session_state \<Rightarrow> bool" where
  "exchange_ready K fd x s \<longleftrightarrow> wants_keep_alive (ex_header x) \<and> admissible K (snd s) (ex_request x) \<and>
     sent_in fd (ex_header x) (ex_request x) (ex_in x) \<and>
     taken_in fd (answer (ex_request x) (contents (snd s))) (ex_out x)"

definition session_inv :: "u8 list set \<Rightarrow> nat \<Rightarrow> int \<Rightarrow> session_state \<Rightarrow> bool" where
  "session_inv K b fd s \<longleftrightarrow> idle (fst s) \<and> file_descriptor (fst s) = fd \<and> (\<exists>es. world_ok K b (snd s) es)"

text \<open>The abstract server: the map and the bytes it has sent.\<close>

definition session_view :: "int \<Rightarrow> session_state \<Rightarrow> cache_map \<times> u8 list" where
  "session_view fd s = (contents (snd s), w_sent (snd s) fd)"

definition exchange_spec :: "exchange \<Rightarrow> cache_map \<times> u8 list \<Rightarrow> cache_map \<times> u8 list" where
  "exchange_spec x = (\<lambda>(m, out). (effect (ex_request x) m, out @ concat (answer (ex_request x) m)))"

text \<open>
  No handler changes the descriptor of its connection or its links, and none leaves the event that
  only acquiring a lock can give.
\<close>

definition place :: "connection \<Rightarrow> conn_ref \<times> conn_ref \<times> int" where
  "place c = (previous c, next c, file_descriptor c)"

lemma place_updates [simp]:
  "place (c\<lparr>header_union := h\<rparr>) = place c" "place (c\<lparr>arguments_union := h\<rparr>) = place c"
  "place (c\<lparr>conn_entry := p\<rparr>) = place c" "place (c\<lparr>conn_buffer := bu\<rparr>) = place c"
  "place (c\<lparr>remaining_bytes := n\<rparr>) = place c" "place (c\<lparr>buffer_index := n\<rparr>) = place c"
  "place (c\<lparr>conn_state := st\<rparr>) = place c" "place (c\<lparr>lock_release_event := ev\<rparr>) = place c"
  "place (c\<lparr>conn_flags := f\<rparr>) = place c" "place (send_header c t) = place c"
  "place (set_flag f c) = place c" "place (clear_flag f c) = place c" "place (init_request c) = place c"
  "place (receive_arguments k c) = place c" "place (set_response_value_size n c) = place c"
  by (simp_all add: place_def send_header_def set_flag_def clear_flag_def init_request_def receive_arguments_def
      set_response_value_size_def)

lemma event_updates [simp]:
  "lock_release_event (send_header c t) = lock_release_event c" "lock_release_event (set_flag f c) = lock_release_event c"
  "lock_release_event (clear_flag f c) = lock_release_event c"
  "lock_release_event (receive_arguments k c) = lock_release_event c"
  "lock_release_event (set_response_value_size n c) = lock_release_event c"
  "lock_release_event (init_request c) = LOCK_EVENT_NONE"
  by (simp_all add: send_header_def set_flag_def clear_flag_def receive_arguments_def set_response_value_size_def
      init_request_def)

definition keeps :: "connection \<Rightarrow> connection \<Rightarrow> bool" where
  "keeps c c' \<longleftrightarrow> place c' = place c \<and>
     (lock_release_event c \<noteq> LOCK_EVENT_BLOCKED \<longrightarrow> lock_release_event c' \<noteq> LOCK_EVENT_BLOCKED)"

lemma keeps_trans: "keeps c c' \<Longrightarrow> keeps c' c'' \<Longrightarrow> keeps c c''"
  by (simp add: keeps_def)

lemma release_not_blocked:
  "entry_header_release_lock m p = Inr (m', event) \<Longrightarrow> event \<noteq> LOCK_EVENT_BLOCKED"
  by (auto simp: entry_header_release_lock_def Let_def elim!: bindE_InrE split: if_splits)

lemma handlers_keep:
  "attempt_memory_read c w = Inr (c', w', r) \<Longrightarrow> keeps c c'"
  "attempt_memory_write e c w = Inr (c', w', r) \<Longrightarrow> keeps c c'"
  "allocate_key e c w = Inr (c', w', r) \<Longrightarrow> keeps c c'"
  "finish_request c = (c', r) \<Longrightarrow> keeps c c'"
  "keeps c (event_received_header c)"
  "socket_failure c w = Inr (c', w', r) \<Longrightarrow> keeps c c'"
  by (auto simp: keeps_def attempt_memory_read_def attempt_memory_write_def allocate_key_def finish_request_def
      event_received_header_def Let_def socket_failure_def
      elim!: bindE_InrE dest!: release_not_blocked split: if_splits prod.splits option.splits request_type.splits)

lemma received_body_keeps:
  assumes "event_received_body e c w = Inr (c', w', r)"
  shows "keeps c c'"
proof -
  have "keeps c c'" if "attempt_memory_read ((clear_flag FLAG_ALLOCATED_BUFFER c)\<lparr>conn_entry := p\<rparr>) w1 = Inr (c', w', r)" for p w1
    using handlers_keep(1) [OF that] by (simp add: keeps_def)
  then show ?thesis
    using assms by (auto simp: event_received_body_def Let_def keeps_def elim!: bindE_InrE
        split: option.splits request_type.splits)
qed

lemma sent_keeps:
  "event_sent_header c w = Inr (c', w', r) \<Longrightarrow> keeps c c'"
  "event_sent_body c w = Inr (c', w', r) \<Longrightarrow> keeps c c'"
proof -
  assume "event_sent_header c w = Inr (c', w', r)"
  then consider "place c' = place c" "lock_release_event c' = lock_release_event c"
    | "finish_request c = (c', r)" | "finish_request (clear_flag FLAG_KEEP_ALIVE c) = (c', r)"
    by (auto simp: event_sent_header_def elim!: bindE_InrE split: option.splits if_splits prod.splits)
  then show "keeps c c'"
    by cases (auto simp: keeps_def dest: handlers_keep(4))
next
  assume "event_sent_body c w = Inr (c', w', r)"
  then obtain ev where "ev \<noteq> LOCK_EVENT_BLOCKED"
    "finish_request (clear_flag FLAG_LOCK_ACQUIRED (c\<lparr>lock_release_event := ev\<rparr>)) = (c', r)"
    by (auto simp: event_sent_body_def elim!: bindE_InrE dest!: release_not_blocked split: if_splits prod.splits)
  then show "keeps c c'" using handlers_keep(4) by (fastforce simp: keeps_def)
qed

lemma dispatch_keeps:
  assumes "dispatch e c w = Inr (c', w', r)"
  shows "keeps c c'"
  using assms handlers_keep received_body_keeps sent_keeps
  by (cases "conn_state c") (auto simp: dispatch_def event_received_arguments_def
      split: option.splits request_type.splits)

lemma transfer_keeps:
  assumes "connection_transfer e c w = Inr (c', w', r)"
  shows "keeps c c'"
proof -
  have stored: "keeps c c1" if "buffer_store c w bs = Inr (c1, w1)" for bs c1 w1
    by (rule buffer_store_frame [OF that]) (simp add: keeps_def)
  have call: "keeps c c1" if "socket_call e c w = Inr (c1, w1, out)" for c1 w1 out
    using that by (auto simp: socket_call_def Let_def keeps_def elim!: bindE_InrE
        dest: stored [unfolded keeps_def] split: if_splits io.splits)
  obtain c1 w1 out where c1: "socket_call e c w = Inr (c1, w1, out)"
    "socket_failure c1 w1 = Inr (c', w', r) \<or> place c' = place c1 \<and> lock_release_event c' = lock_release_event c1"
    using assms unfolding connection_transfer_def by (elim bindE_InrE) (auto split: io.splits if_splits)
  then have "keeps c1 c'" using handlers_keep(6) by (auto simp: keeps_def)
  with call [OF c1(1)] show ?thesis by (rule keeps_trans)
qed

lemma proc_keeps:
  assumes "connection_proc e c w = Inr (c', w', r)"
  shows "keeps c c'"
proof -
  obtain c1 w1 r1 where "connection_transfer e c w = Inr (c1, w1, r1)" "c' = c1 \<or> dispatch e c1 w1 = Inr (c', w', r)"
    using assms unfolding connection_proc_def by (elim bindE_InrE) (auto split: if_splits)
  then show ?thesis using transfer_keeps dispatch_keeps keeps_trans by blast
qed

lemma serve_keeps: "serve es c w = Inr (c', w', r, rest) \<Longrightarrow> keeps c c'"
proof (induction es arbitrary: c w)
  case (Cons e es)
  then obtain c1 w1 r1 where "connection_proc e c w = Inr (c1, w1, r1)" "c' = c1 \<or> serve es c1 w1 = Inr (c', w', r, rest)"
    unfolding serve.simps by (elim bindE_InrE) (auto split: if_splits)
  then show ?case using proc_keeps Cons.IH keeps_trans by blast
qed (simp add: keeps_def)

interpretation sessions: service "session_inv K b fd" "session_view fd" "exchange_ready K fd" exchange_step exchange_spec
  for K b fd
proof unfold_locales
  fix s :: session_state and x
  assume inv: "session_inv K b fd s" and ready: "exchange_ready K fd x s"
  obtain es where W: "world_ok K b (snd s) es" using inv by (auto simp: session_inv_def)
  have c: "idle (fst s)" "file_descriptor (fst s) = fd" using inv by (simp_all add: session_inv_def)
  obtain c' w' es' where run: "serve (ex_in x @ ex_out x) (fst s) (snd s) = Inr (c', w', final_result (ex_header x), [])"
    and w': "w_sent w' = (w_sent (snd s))(fd := w_sent (snd s) fd @ concat (answer (ex_request x) (contents (snd s))))"
      "world_ok K b w' es'" "contents w' = effect (ex_request x) (contents (snd s))" "idle c'"
    using request_step [OF W c, of "ex_request x" "ex_header x" "ex_in x" "ex_out x" "[]"] ready
    by (auto simp: exchange_ready_def)
  show "\<exists>s'. exchange_step x s = Inr s' \<and> session_inv K b fd s' \<and>
      session_view fd s' = exchange_spec x (session_view fd s)"
    using run w' serve_keeps [OF run] c
    by (auto simp: keeps_def place_def exchange_step_def session_inv_def session_view_def exchange_spec_def)
qed

section \<open>An empty cache\<close>

lemma opened_empty:
  assumes "memory_wf (w_mem w)" and "header_size \<le> capacity" and "capacity < 2 ^ 32"
    and "entry_hash_map_open (True, True) = Inr (ctx, 0)"
    and "memory_queue_open capacity True ((w_store w)\<lparr>index_ctx := ctx\<rparr>) = (st, 0)"
  shows "world_ok K (next_block (w_mem w)) (w\<lparr>w_store := st\<rparr>) []"
    and "contents (w\<lparr>w_store := st\<rparr>) = Map.empty" and "index_room (index_of (w\<lparr>w_store := st\<rparr>))"
    and "queue st = \<lparr>buffer = Ptr (next_block (w_mem w)) 0, entry_count = 0, occupied_bytes = 0,
           capacity_bytes = capacity, read_index = 0, write_index = 0\<rparr>"
proof -
  obtain hm where hm: "hashmap_new (True, True) 0 0 0 = Inr (Some hm)" "hashmap_of ctx = Some hm"
    using hashmap_new_0 [of 0 0 "\<lambda>_ :: ptr. True" "\<lambda>_. 0" "\<lambda>_. ()"] assms(4) by (auto simp: entry_hash_map_open_def)
  have new: "hashmap_wf ok hv key 0 0 hm" "hashmap_small hm" "hashmap_map key hm = Map.empty" for ok hv and key :: "ptr \<Rightarrow> u8 list"
    using hashmap_new_0 [of 0 0 ok hv key] hm(1) by auto
  note q = open_wf [OF assms(5,2,3)]
  have "index_map (m, ctx) = Map.empty" "index_wf K (m, ctx)" "index_room (m, ctx)" for m
    using new hm(2) by (simp_all add: index_map_def index_wf_def index_room_def)
  moreover have "memory_wf (mem st)"
    using assms(1,5) by (auto simp: memory_queue_open_def malloc_block_def Let_def memory_wf_def less_Suc_eq
        split: if_splits)
  ultimately show "world_ok K (next_block (w_mem w)) (w\<lparr>w_store := st\<rparr>) []"
    "contents (w\<lparr>w_store := st\<rparr>) = Map.empty" "index_room (index_of (w\<lparr>w_store := st\<rparr>))"
    using q(1,5) by (simp_all add: world_ok_def contents_def fun_eq_iff ran_def)
  show "queue st = \<lparr>buffer = Ptr (next_block (w_mem w)) 0, entry_count = 0, occupied_bytes = 0,
           capacity_bytes = capacity, read_index = 0, write_index = 0\<rparr>"
    using assms(5) by (auto simp: memory_queue_open_def malloc_block_def Let_def)
qed

lemma sample_world:
  obtains w where "world_ok {[97]} 0 w []" and "contents w = Map.empty" and "index_room (index_of w)"
    and "allocation_fits (w_store w) 18" and "w_sent w 5 = []"
    and "write_index (queue (w_store w)) = 0" and "capacity_bytes (queue (w_store w)) = 1000"
proof -
  let ?w = "\<lparr>w_store = start_store, w_sent = \<lambda>_. []\<rparr>"
  obtain hm :: "ptr hashmap" where "hashmap_new (True, True) 0 0 0 = Inr (Some hm)" using hashmap_new_0 by blast
  then have ctx: "entry_hash_map_open (True, True) = Inr (\<lparr>hashmap_of = Some hm\<rparr>, 0)"
    by (simp add: entry_hash_map_open_def)
  obtain st where st: "memory_queue_open 1000 True ((w_store ?w)\<lparr>index_ctx := \<lparr>hashmap_of = Some hm\<rparr>\<rparr>) = (st, 0)"
    by (simp add: memory_queue_open_def malloc_block_def start_store_def)
  have "memory_wf (w_mem ?w)" by (simp add: memory_wf_def start_store_def w_mem_def)
  note opened = opened_empty [OF this _ _ ctx st]
  show ?thesis
  proof (rule that [of "?w\<lparr>w_store := st\<rparr>"])
    have "next_block (w_mem ?w) = 0" by (simp add: w_mem_def start_store_def)
    then show "world_ok {[97]} 0 (?w\<lparr>w_store := st\<rparr>) []" using opened(1) by (simp add: header_size_def)
    show "allocation_fits (w_store (?w\<lparr>w_store := st\<rparr>)) 18"
      using opened(4) by (simp add: allocation_fits_def must_clean_def header_size_def)
  qed (use opened in \<open>simp_all add: header_size_def\<close>)
qed

section \<open>Refinement of the map\<close>

text \<open>C7. An admissible request on a consistent cache, whose parts all arrive and whose answer is all taken,
  is served as the map prescribes. Admissible means that its key is one of a set of keys without hash
  collisions, that the table may grow if it has to, that a PUT fits into the buffer without evicting an
  entry, and that the read lock of the entry of a GET is not at its capacity; that the parts arrive means
  that none of them is empty, in particular the key of a GET or DELETE is not, and that memory for it is
  granted; that
  the answer is taken means the same of its parts, so the value of a GET is not empty. The pieces in
  which all this happens are arbitrary. Then the bytes sent are exactly the answer of the map, the
  contents of the cache change by the effect of the request on the map and in no other way, the cache is
  consistent again, and the connection is ready for a next request if the client asked to keep it.\<close>

theorem request_refines_map:
  assumes "world_ok K b w es" and "idle c" and "file_descriptor c = fd" and "admissible K w q"
    and "sent_in fd r q ins" and "taken_in fd (answer q (contents w)) outs"
  shows "\<exists>c' w' es'. serve (ins @ outs @ rest) c w = Inr (c', w', final_result r, rest) \<and>
    w_sent w' = (w_sent w)(fd := w_sent w fd @ concat (answer q (contents w))) \<and>
    world_ok K b w' es' \<and> contents w' = effect q (contents w) \<and> (wants_keep_alive r \<longrightarrow> idle c')"
  using assms by (rule request_step)

text \<open>A whole session refines a run of the map: serving any list of requests on a kept connection
  succeeds, and its result, seen as the contents of the cache with the bytes sent to the client, is that
  of the list of requests run on the map.\<close>

theorem session_refines_map:
  assumes "session_inv K b fd s" and "all_ready (exchange_ready K fd) exchange_step xs s"
  shows "\<exists>s'. run_all exchange_step xs s = Inr s' \<and> session_inv K b fd s' \<and>
    session_view fd s' = fold exchange_spec xs (session_view fd s)"
  using assms by (rule sessions.run_refines)

text \<open>C37. A client that sends a DELETE and resets its connection before it has taken the answer brings the server
  down: the handler frees the memory of the key but keeps the flag that the connection owns it, so the failure of
  \<^verbatim>\<open>send\<close> frees \<^verbatim>\<open>connection->buffer\<close>, which is the response header inside the connection itself.\<close>

theorem delete_reset_frees_connection:
  assumes "world_ok K b w es" and "idle c" and "file_descriptor c = fd" and "admissible K w (Delete k)"
    and "sent_in fd r (Delete k) ins" and "\<forall>bs. env_send e fd bs = Io_error"
  shows "serve (ins @ [e]) c w = Inl Bad_free"
proof -
  obtain es1 es2 es3 where ins: "ins = es1 @ es2 @ es3" "delivers fd es1 (encode_request_header r)"
    "key_parts fd k es2 es3" and r: "is_request REQUEST_DELETE r"
    using assms(5) by (auto simp: sent_in_def)
  have k: "index_room (index_of w)" "k \<in> key_universe K" "length k < 2 ^ 16" "env_malloc (last es2)"
    using assms(4) ins(3) by (simp_all add: admissible_def key_parts_def)
  let ?c = "send_header (at_lookup c r w k) RESPONSE_OK"
  obtain w' where "event_received_body (last es3) (at_lookup c r w k) (set_mem w (key_memory w k)) =
      Inr (?c, w', RESULT_SUCCESS)"
    using delete_removes [OF assms(1) k(1-3) r] by blast
  then have "serve (ins @ [e]) c w = serve [e] ?c w'"
    using key_received [OF assms(2,3) r _ k(3,4) ins(2), of es3 "[e]" w] ins(1,3) by (simp add: key_parts_def)
  moreover have "buffer_load ?c w' 1 = Inr [response_code RESPONSE_OK]"
    using at_lookup_lengths(1) [OF assms(2), of r w k]
    by (cases "header_union (at_lookup c r w k)") (simp_all add: buffer_load_def slice_def wire_sizes)
  then have "connection_proc e ?c w' = Inl Bad_free"
    using assms(3,6)
    by (simp add: connection_proc_def connection_transfer_def socket_call_def receiving_def sending_def
        socket_failure_def has_flag_bit free_buffer_def)
  ultimately show ?thesis by (simp add: serve_Cons)
qed

text \<open>A PUT of one byte under one byte, and the GET of it.\<close>

definition sample_put :: exchange where
  "sample_put = \<lparr>ex_header = sample_request 1 REQUEST_PUT, ex_request = Put [97] [98],
     ex_in = [sample_env (encode_request_header (sample_request 1 REQUEST_PUT)),
              sample_env (encode_key_value_arguments \<lparr>kv_key_size = 1, kv_value_size = 1\<rparr>),
              sample_env [97, 98]],
     ex_out = [sample_env []]\<rparr>"

definition sample_get :: exchange where
  "sample_get = \<lparr>ex_header = sample_request 1 REQUEST_GET, ex_request = Get [97],
     ex_in = [sample_env (encode_request_header (sample_request 1 REQUEST_GET)),
              sample_env (encode_key_arguments \<lparr>arg_key_size = 1\<rparr>), sample_env [97]],
     ex_out = [sample_env [], sample_env []]\<rparr>"

lemma sample_headers:
  "is_request REQUEST_PUT (sample_request 1 REQUEST_PUT)" "is_request REQUEST_GET (sample_request 1 REQUEST_GET)"
  "wants_keep_alive (sample_request 1 t)"
  by (simp_all add: is_request_def sample_request_def wants_keep_alive_def REQUEST_FLAG_KEEP_ALIVE_def)

lemma sample_options: "expiry_configured (sample_env data)"
proof -
  obtain v where "- (2 ^ 63) \<le> v" "v < 2 ^ 63" "default_values ! type_index ENTRY_EXPIRY_MICROS = int64_bytes v"
    using default_typed [of ENTRY_EXPIRY_MICROS] by (auto simp: value_typed_def simp del: type_index.simps)
  then have "configuration_get_int (fill_defaults cleared_context) ENTRY_EXPIRY_MICROS = Inr v"
    using int64_bytes_read [of v] fill_defaults_nth [OF type_index_less, of cleared_context ENTRY_EXPIRY_MICROS]
    by (simp only: configuration_get_int_def cleared_context_simps option.case) simp
  then show ?thesis by (simp add: expiry_configured_def sample_env_def)
qed

lemma sample_env_allocs: "env_malloc (sample_env data)" "env_map_allocs (sample_env data) = (True, True)"
  by (simp_all add: sample_env_def)

lemma sample_parts: "length data = Suc n \<Longrightarrow> delivers fd [sample_env data] data"
  by (rule sample_delivers) auto

lemma sample_sent:
  "sent_in 5 (ex_header sample_put) (ex_request sample_put) (ex_in sample_put)"
  "sent_in 5 (ex_header sample_get) (ex_request sample_get) (ex_in sample_get)"
proof -
  have "pair_parts 5 [97] [98] [sample_env (encode_key_value_arguments \<lparr>kv_key_size = 1, kv_value_size = 1\<rparr>)]
      [sample_env [97, 98]]"
    using key_value_wire.length_enc [of "\<lparr>kv_key_size = 1, kv_value_size = 1\<rparr>"]
    by (simp add: pair_parts_def sample_options sample_env_allocs sample_parts wire_sizes)
  then show "sent_in 5 (ex_header sample_put) (ex_request sample_put) (ex_in sample_put)"
    using sent_inI [of "Put [97] [98]", OF _ sample_delivers [OF encoded_request_nonempty],
        of "sample_request 1 REQUEST_PUT" 5 "[_]" "[_]"] sample_headers(1)
    by (simp add: sample_put_def)
  have "key_parts 5 [97] [sample_env (encode_key_arguments \<lparr>arg_key_size = 1\<rparr>)] [sample_env [97]]"
    using key_wire.length_enc [of "\<lparr>arg_key_size = 1\<rparr>"]
    by (simp add: key_parts_def sample_env_allocs sample_parts wire_sizes)
  then show "sent_in 5 (ex_header sample_get) (ex_request sample_get) (ex_in sample_get)"
    using sent_inI [of "Get [97]", OF _ sample_delivers [OF encoded_request_nonempty],
        of "sample_request 1 REQUEST_GET" 5 "[_]" "[_]"] sample_headers(2)
    by (simp add: sample_get_def)
qed

lemma sample_taken: "[] \<notin> set msgs \<Longrightarrow> taken_in 5 msgs (map (\<lambda>_. sample_env []) msgs)"
  unfolding taken_in_def
  by (rule exI [of _ "map (\<lambda>_. [sample_env []]) msgs"], induction msgs) (auto intro: sample_accepts)

lemma put_sample:
  assumes "world_ok {[97]} 0 w []" and "index_room (index_of w)" and "allocation_fits (w_store w) 18"
  shows "admissible {[97]} w (ex_request sample_put)"
  using assms(2,3) by (simp add: admissible_def sample_put_def key_universe_def header_size_def)

text \<open>A cache with one entry.\<close>

lemma sample_entry:
  obtains w where "world_ok {[97]} 0 w [0]" and "index_map (index_of w) [97] = Some (Ptr 0 0)"
    and "locks (header_at (w_mem w) (Ptr 0 0)) = 0" and "capacity_bytes (queue (w_store w)) = 1000"
    and "contents w [97] = Some [98]" and "w_sent w 5 = [1]"
proof -
  obtain w where w: "world_ok {[97]} 0 w []" "index_room (index_of w)" "allocation_fits (w_store w) 18"
    "write_index (queue (w_store w)) = 0" "capacity_bytes (queue (w_store w)) = 1000" "w_sent w 5 = []"
    using sample_world by blast
  have "delivers 5 [sample_env (encode_request_header (sample_request 1 REQUEST_PUT))]
      (encode_request_header (sample_request 1 REQUEST_PUT))"
    by (rule sample_delivers [OF encoded_request_nonempty])
  moreover have "delivers 5 [sample_env (encode_key_value_arguments \<lparr>kv_key_size = 1, kv_value_size = 1\<rparr>)]
      (encode_key_value_arguments \<lparr>kv_key_size = 1, kv_value_size = 1\<rparr>)"
    using key_value_wire.length_enc [of "\<lparr>kv_key_size = 1, kv_value_size = 1\<rparr>"] by (simp add: sample_parts wire_sizes)
  ultimately obtain w' where "world_ok {[97]} 0 w' [0]" "index_map (index_of w') [97] = Some (Ptr 0 0)"
    "locks (header_at (w_mem w') (Ptr 0 0)) = 0" "capacity_bytes (queue (w_store w')) = 1000" "contents w' [97] = Some [98]" "w_sent w' 5 = [1]"
    using put_request [OF w(1,2) sample_connection_idle sample_headers(1), of "[97]" "[98]"
        "[sample_env (encode_key_value_arguments \<lparr>kv_key_size = 1, kv_value_size = 1\<rparr>)]" "[sample_env [97, 98]]"
        "[sample_env (encode_request_header (sample_request 1 REQUEST_PUT))]" "[sample_env []]" "[]"]
      w(3-6) sample_accepts [of "[response_code RESPONSE_OK]" 5 "[]"]
    by (auto simp: key_universe_def header_size_def sample_options sample_env_allocs sample_parts)
  then show ?thesis by (rule that)
qed

theorem request_refines_map_witness:
  "\<exists>w c' w' es'. world_ok {[97]} 0 w [] \<and>
     serve (ex_in sample_put @ ex_out sample_put) sample_connection w = Inr (c', w', RESULT_NEW_REQUEST, []) \<and>
     world_ok {[97]} 0 w' es' \<and> contents w' [97] = Some [98] \<and> w_sent w' 5 = [1]"
proof -
  obtain w where w: "world_ok {[97]} 0 w []" "index_room (index_of w)" "allocation_fits (w_store w) 18"
    "contents w = Map.empty" "w_sent w 5 = []"
    using sample_world by blast
  have out: "taken_in 5 (answer (ex_request sample_put) (contents w)) (ex_out sample_put)"
    using sample_taken [of "[[response_code RESPONSE_OK]]"] by (simp add: sample_put_def)
  from request_refines_map [OF w(1) sample_connection_idle put_sample [OF w(1-3)] sample_sent(1) out, of "[]"]
  obtain c' w' es' where "serve (ex_in sample_put @ ex_out sample_put) sample_connection w = Inr (c', w', RESULT_NEW_REQUEST, [])"
    "world_ok {[97]} 0 w' es'" "contents w' = effect (ex_request sample_put) (contents w)"
    "w_sent w' = (w_sent w)(5 := w_sent w 5 @ concat (answer (ex_request sample_put) (contents w)))"
    by (auto simp: final_result_def sample_put_def sample_headers(3))
  then show ?thesis using w by (auto simp: sample_put_def intro!: exI [of _ w])
qed

lemma sample_get_ready:
  assumes w: "world_ok {[97]} 0 w []" "index_room (index_of w)" "allocation_fits (w_store w) 18" "contents w = Map.empty"
    and step: "exchange_step sample_put (sample_connection, w) = Inr s'"
  shows "exchange_ready {[97]} 5 sample_get s'"
proof -
  obtain es1 es2 es3 where ins: "ex_in sample_put = es1 @ es2 @ es3"
    "delivers 5 es1 (encode_request_header (sample_request 1 REQUEST_PUT))" "pair_parts 5 [97] [98] es2 es3"
    using sample_sent(1) by (auto simp: sent_in_def sample_put_def)
  obtain c' w' x where "serve (ex_in sample_put @ [sample_env []]) sample_connection w =
      Inr (c', w', final_result (sample_request 1 REQUEST_PUT), [])"
    "contents w' = (contents w)([97] \<mapsto> [98])" "index_map (index_of w') [97] = Some (Ptr 0 x)"
    "locks (header_at (w_mem w') (Ptr 0 x)) = 0"
    using put_request [OF w(1,2) sample_connection_idle sample_headers(1), of "[97]" "[98]" es2 es3 es1 "[sample_env []]" "[]"]
      ins w(3) sample_accepts [of "[response_code RESPONSE_OK]" 5 "[]"]
    by (auto simp: pair_parts_def key_universe_def header_size_def)
  then have s': "s' = (c', w')" and get: "contents w' [97] = Some [98]" "admissible {[97]} w' (Get [97])"
    using step by (auto simp: exchange_step_def sample_put_def admissible_def key_universe_def)
  have "taken_in 5 (answer (Get [97]) (contents w')) [sample_env [], sample_env []]"
    using sample_taken [of "get_reply (Some [98])"] get(1) by (simp add: value_header_eq get_reply_def)
  then show ?thesis
    using sample_sent(2) sample_headers(3) get(2) by (simp add: exchange_ready_def s' sample_get_def)
qed

theorem session_refines_map_witness:
  "\<exists>w s'. session_inv {[97]} 0 5 (sample_connection, w) \<and>
     run_all exchange_step [sample_put, sample_get] (sample_connection, w) = Inr s' \<and>
     session_view 5 s' = ([[97] \<mapsto> [98]], [1, 2, 1, 0, 0, 0, 98])"
proof -
  obtain w where w: "world_ok {[97]} 0 w []" "index_room (index_of w)" "allocation_fits (w_store w) 18"
    "contents w = Map.empty" "w_sent w 5 = []"
    using sample_world by blast
  let ?s = "(sample_connection, w)" and ?xs = "[sample_put, sample_get]"
  have inv: "session_inv {[97]} 0 5 ?s" using w(1) sample_connection_idle by (auto simp: session_inv_def)
  have "exchange_ready {[97]} 5 sample_put ?s"
    using put_sample [OF w(1-3)] sample_sent(1) sample_taken [of "[[response_code RESPONSE_OK]]"] sample_headers(3)
    by (simp add: exchange_ready_def sample_put_def)
  then have "all_ready (exchange_ready {[97]} 5) exchange_step ?xs ?s" using sample_get_ready [OF w(1-4)] by simp
  with inv obtain s' where s': "run_all exchange_step ?xs ?s = Inr s'"
    "session_view 5 s' = fold exchange_spec ?xs (session_view 5 ?s)"
    using session_refines_map by blast
  have "(4 :: nat) = Suc (Suc (Suc (Suc 0)))" by simp
  then have "le_bytes 4 1 = [1, 0, 0, 0]" by (simp only: le_bytes.simps) simp
  then have "word_bytes (1 :: u32) = [1, 0, 0, 0]" by (simp add: word_bytes_def)
  then have "fold exchange_spec ?xs (Map.empty, []) = ([[97] \<mapsto> [98]], [1, 2, 1, 0, 0, 0, 98])"
    by (simp add: exchange_spec_def sample_put_def sample_get_def get_reply_def value_header_eq)
  moreover have "session_view 5 ?s = (Map.empty, [])" using w(4,5) by (simp add: session_view_def)
  ultimately show ?thesis using inv s' by metis
qed

theorem delete_reset_frees_connection_witness:
  "\<exists>w ins. world_ok {[97]} 0 w [] \<and>
     serve (ins @ [(sample_env [])\<lparr>env_send := \<lambda>fd bs. Io_error\<rparr>]) sample_connection w = Inl Bad_free"
proof -
  obtain w where w: "world_ok {[97]} 0 w []" "index_room (index_of w)" using sample_world by blast
  let ?r = "sample_request 1 REQUEST_DELETE"
  have key: "key_parts 5 [97] [sample_env (encode_key_arguments \<lparr>arg_key_size = 1\<rparr>)] [sample_env [97]]"
    using key_wire.length_enc [of "\<lparr>arg_key_size = 1\<rparr>"]
    by (simp add: key_parts_def sample_env_allocs sample_parts wire_sizes)
  have "is_request REQUEST_DELETE ?r" by (simp add: is_request_def sample_request_def)
  with key obtain ins where "sent_in 5 ?r (Delete [97]) ins"
    using sent_inI [of "Delete [97]" ?r, OF _ sample_delivers [OF encoded_request_nonempty]] that by force
  moreover have "admissible {[97]} w (Delete [97])" using w(2) by (simp add: admissible_def key_universe_def)
  ultimately have "serve (ins @ [(sample_env [])\<lparr>env_send := \<lambda>fd bs. Io_error\<rparr>]) sample_connection w = Inl Bad_free"
    by (intro delete_reset_frees_connection [OF w(1) sample_connection_idle]) simp_all
  with w(1) show ?thesis by blast
qed

end
