(* ===== verification/BlockedConnections.thy ===== *)
theory BlockedConnections
  imports Connection
begin

text \<open>
  \<^verbatim>\<open>src/blocked_connections.c\<close>: the connections that wait for an entry, in one list per entry and
  kind of access. The lists are nodes of their own on the heap, linked by \<open>b_next\<close>; the waiting
  connections of a node are linked by the \<open>next\<close> link of the connections. Loops carry a bound on
  their rounds (\<open>fuel\<close>), and the fault \<open>No_return\<close> says that it was used up.
\<close>

section \<open>State\<close>

datatype block_type = BLOCK_READ | BLOCK_WRITE

record blocked_connection_list =
  b_next :: "nat option"
  b_head :: conn_ref
  b_tail :: conn_ref
  b_entry :: ptr
  b_size :: u32
  b_type :: block_type

type_synonym blocked_nodes = "nat \<Rightarrow> blocked_connection_list option"

text \<open>The context and the heap of its nodes; \<open>next_node\<close> is the address of the next allocation.\<close>

record blocked_context =
  blocked_head :: "nat option"
  nodes :: blocked_nodes
  next_node :: nat

definition node_at :: "blocked_nodes \<Rightarrow> nat \<Rightarrow> blocked_connection_list result" where
  "node_at ns a = (case ns a of None \<Rightarrow> Inl Bad_access | Some l \<Rightarrow> Inr l)"

definition blocked_connections_open :: "blocked_context \<Rightarrow> blocked_context" where
  "blocked_connections_open b = b\<lparr>blocked_head := None\<rparr>"

definition blocked_connections_close :: "blocked_context \<Rightarrow> blocked_context" where
  "blocked_connections_close b = b"

section \<open>One list of waiting connections\<close>

text \<open>\<open>ok\<close> tells whether \<^verbatim>\<open>malloc\<close> succeeds. The \<open>next\<close> link of the new node is left as it is found.\<close>

definition blocked_connection_list_init :: "bool \<Rightarrow> connections \<Rightarrow> conn_ref \<Rightarrow> block_type \<Rightarrow>
    (connections \<times> blocked_connection_list option) result" where
  "blocked_connection_list_init ok h c t =
     (if \<not> ok then Inr (h, None)
      else
        bindE (connection_set_previous h c None) (\<lambda>h.
        bindE (connection_set_next h c None) (\<lambda>h.
        bindE (connection_get_entry_header h c) (\<lambda>p.
          Inr (h, Some \<lparr>b_next = None, b_head = c, b_tail = c, b_entry = p, b_size = 1, b_type = t\<rparr>)))))"

definition blocked_connection_list_deinit :: "blocked_nodes \<Rightarrow> nat \<Rightarrow> blocked_nodes result" where
  "blocked_connection_list_deinit ns a =
     bindE (node_at ns a) (\<lambda>l. bindE (assertE (b_size l = 0)) (\<lambda>_. Inr (ns(a := None))))"

definition blocked_connection_list_append :: "connections \<Rightarrow> blocked_connection_list \<Rightarrow> conn_ref \<Rightarrow>
    (connections \<times> blocked_connection_list) result" where
  "blocked_connection_list_append h l c =
     bindE (connection_set_next h c None) (\<lambda>h.
     bindE (connection_set_previous h c None) (\<lambda>h.
     bindE (connection_set_next h (b_tail l) c) (\<lambda>h.
       Inr (h, l\<lparr>b_tail := c, b_size := b_size l + 1\<rparr>))))"

definition blocked_connection_list_pop :: "connections \<Rightarrow> blocked_connection_list \<Rightarrow>
    (blocked_connection_list \<times> conn_ref) result" where
  "blocked_connection_list_pop h l =
     bindE (assertE (b_size l > 0)) (\<lambda>_.
     bindE (connection_get_next h (b_head l)) (\<lambda>n.
       Inr (l\<lparr>b_head := n, b_size := b_size l - 1\<rparr>, b_head l)))"

section \<open>All lists\<close>

text \<open>
  The loop of \<open>blocked_connections_add\<close>: its variable \<open>list\<close> is never advanced, so it ends only if
  there is no list at all.
\<close>

fun add_loop :: "nat \<Rightarrow> connections \<Rightarrow> blocked_nodes \<Rightarrow> nat option \<Rightarrow> conn_ref \<Rightarrow> block_type \<Rightarrow>
    (connections \<times> blocked_nodes) result" where
  "add_loop 0 h ns list c t = Inl No_return"
| "add_loop (Suc fuel) h ns list c t =
     (case list of
        None \<Rightarrow> Inr (h, ns)
      | Some a \<Rightarrow>
          bindE (node_at ns a) (\<lambda>l.
            if b_type l = t then
              bindE (connection_get_entry_header h c) (\<lambda>p.
                if b_entry l = p then
                  bindE (blocked_connection_list_append h l c) (\<lambda>(h, l).
                    add_loop fuel h (ns(a \<mapsto> l)) list c t)
                else add_loop fuel h ns list c t)
            else add_loop fuel h ns list c t))"

definition blocked_connections_add :: "nat \<Rightarrow> bool \<Rightarrow> connections \<Rightarrow> blocked_context \<Rightarrow> conn_ref \<Rightarrow> block_type \<Rightarrow>
    (connections \<times> blocked_context) result" where
  "blocked_connections_add fuel ok h b c t =
     bindE (add_loop fuel h (nodes b) (blocked_head b) c t) (\<lambda>(h, ns).
     bindE (blocked_connection_list_init ok h c t) (\<lambda>(h, new).
       case new of
         None \<Rightarrow> Inl Null_deref
       | Some l \<Rightarrow>
           let a = next_node b in
           Inr (h, b\<lparr>blocked_head := Some a, nodes := ns(a \<mapsto> l\<lparr>b_next := blocked_head b\<rparr>),
                     next_node := Suc a\<rparr>)))"

text \<open>
  The loop of \<open>blocked_connections_pop\<close>. Where a node that became empty has a predecessor, the code
  assigns its successor to the local variable \<open>previous_list\<close>, which links nothing.
\<close>

fun pop_loop :: "nat \<Rightarrow> connections \<Rightarrow> blocked_context \<Rightarrow> nat option \<Rightarrow> nat option \<Rightarrow> ptr \<Rightarrow> block_type \<Rightarrow>
    (blocked_context \<times> conn_ref) result" where
  "pop_loop 0 h b prev list p t = Inl No_return"
| "pop_loop (Suc fuel) h b prev list p t =
     (case list of
        None \<Rightarrow> Inr (b, None)
      | Some a \<Rightarrow>
          bindE (node_at (nodes b) a) (\<lambda>l.
            if b_type l = t \<and> b_entry l = p then
              bindE (blocked_connection_list_pop h l) (\<lambda>(l, c).
                let b = b\<lparr>nodes := (nodes b)(a \<mapsto> l)\<rparr> in
                if b_size l = 0 then
                  let b = (if prev = None then b\<lparr>blocked_head := b_next l\<rparr> else b) in
                  bindE (blocked_connection_list_deinit (nodes b) a) (\<lambda>ns. Inr (b\<lparr>nodes := ns\<rparr>, c))
                else Inr (b, c))
            else pop_loop fuel h b (Some a) (b_next l) p t))"

definition blocked_connections_pop :: "nat \<Rightarrow> connections \<Rightarrow> blocked_context \<Rightarrow> ptr \<Rightarrow> block_type \<Rightarrow>
    (blocked_context \<times> conn_ref) result" where
  "blocked_connections_pop fuel h b p t = pop_loop fuel h b None (blocked_head b) p t"

end
