(* ===== verification/CacheServer.thy ===== *)
theory CacheServer
  imports BlockedConnections
begin

text \<open>
  \<^verbatim>\<open>src/cache_server.c\<close> and the loop of \<^verbatim>\<open>src/main.c\<close>: the server accepts connections, gives each of
  them a turn, and reacts to what its turn results in. The state gathers the static contexts of the
  modules and the heap of connections. System calls and allocations are parameters: \<open>open_env\<close> for
  the start, \<open>turn_env\<close> for one round of the loop.
\<close>

section \<open>State\<close>

record server =
  current_connection :: conn_ref
  last_accept_timestamp :: u64
  listen_file_descriptor :: int
  conns :: connections
  served_list :: connection_list_context
  blocked_lists :: blocked_context
  sworld :: world
  closed_descriptors :: "int list"

definition CONNECTION_BACKLOG_SIZE :: int where
  "CONNECTION_BACKLOG_SIZE = 32"

definition ACCEPT_PERIOD :: u64 where
  "ACCEPT_PERIOD = 1000"

section \<open>Start\<close>

text \<open>Results of the calls of \<open>cache_server_open\<close>: allocations, \<^verbatim>\<open>socket\<close>, \<^verbatim>\<open>fcntl\<close>, \<^verbatim>\<open>bind\<close>, \<^verbatim>\<open>listen\<close>.\<close>

record open_env =
  oe_options :: configuration_context
  oe_map_allocs :: "bool \<times> bool"
  oe_queue_alloc :: bool
  oe_socket :: int
  oe_getfl :: "int \<Rightarrow> int"
  oe_setfl :: "int \<Rightarrow> int"
  oe_bind :: "int \<Rightarrow> value_bytes option \<Rightarrow> u16 \<Rightarrow> int"
  oe_listen :: "int \<Rightarrow> int \<Rightarrow> int"

text \<open>
  \<open>cache_server_close\<close>; the listening socket is not closed.
\<close>

definition cache_server_close :: "nat \<Rightarrow> server \<Rightarrow> server result" where
  "cache_server_close fuel s =
     bindE (connection_list_close fuel (conns s) (served_list s)) (\<lambda>_.
     bindE (entry_hash_map_close (index_ctx (w_store (sworld s)))) (\<lambda>ctx.
     bindE (memory_queue_close ((w_store (sworld s))\<lparr>index_ctx := ctx\<rparr>)) (\<lambda>st.
       Inr (s\<lparr>sworld := (sworld s)\<lparr>w_store := st\<rparr>\<rparr>))))"

text \<open>\<^verbatim>\<open>connection_list_open() || entry_hash_map_open() || memory_queue_open(entry_capacity_bytes)\<close>\<close>

definition open_modules :: "open_env \<Rightarrow> nat \<Rightarrow> server \<Rightarrow> (server \<times> bool) result" where
  "open_modules e capacity s =
     (let (ctx, r1) = connection_list_open; s = s\<lparr>served_list := ctx\<rparr> in
      if r1 \<noteq> 0 then Inr (s, True)
      else
        bindE (entry_hash_map_open (oe_map_allocs e)) (\<lambda>(ictx, r2).
          let st = (w_store (sworld s))\<lparr>index_ctx := ictx\<rparr> in
          if r2 \<noteq> 0 then Inr (s\<lparr>sworld := (sworld s)\<lparr>w_store := st\<rparr>\<rparr>, True)
          else
            let (st, r3) = memory_queue_open capacity (oe_queue_alloc e) st in
            Inr (s\<lparr>sworld := (sworld s)\<lparr>w_store := st\<rparr>\<rparr>, r3 \<noteq> 0)))"

text \<open>Every failure after the first branch closes what was opened and returns 1.\<close>

definition open_failed :: "nat \<Rightarrow> server \<Rightarrow> (server \<times> u8) result" where
  "open_failed fuel s = bindE (cache_server_close fuel s) (\<lambda>s. Inr (s, 1))"

definition cache_server_open :: "nat \<Rightarrow> open_env \<Rightarrow> server \<Rightarrow> (server \<times> u8) result" where
  "cache_server_open fuel e s =
     bindE (configuration_get_int (oe_options e) ENTRY_CAPACITY_BYTES) (\<lambda>capacity.
     bindE (configuration_get_int (oe_options e) PORT) (\<lambda>port.
     bindE (open_modules e (unat (word_of_int capacity :: u64)) s) (\<lambda>(s, failed).
       if failed then open_failed fuel s
       else
         let fd = oe_socket e; s = s\<lparr>listen_file_descriptor := fd\<rparr> in
         if fd = -1 then open_failed fuel s
         else if oe_getfl e fd = -1 then open_failed fuel s
         else if oe_setfl e fd = -1 then open_failed fuel s
         else if oe_bind e fd (configuration_get_string (oe_options e) IP_ADDRESS) (word_of_int port) = -1
         then open_failed fuel s
         else if oe_listen e fd CONNECTION_BACKLOG_SIZE = -1 then open_failed fuel s
         else Inr (s\<lparr>current_connection := None, last_accept_timestamp := 0\<rparr>, 0))))"

section \<open>A round\<close>

text \<open>
  What one round is given: the clock at its two readings, the result of \<^verbatim>\<open>accept\<close>, the address and
  contents of a newly allocated connection with the results of its initialisation, whether a
  node of blocked connections can be allocated, and the environment of the connections.
\<close>

record turn_env =
  te_time :: "int \<times> int"
  te_accept_time :: "int \<times> int"
  te_accept :: "int io"
  te_address :: nat
  te_alloc :: bool
  te_getfl :: int
  te_setfl :: int
  te_junk :: connection
  te_node_alloc :: bool
  te_conn :: env

definition accept_connection :: "turn_env \<Rightarrow> server \<Rightarrow> (server \<times> u8) result" where
  "accept_connection e s =
     (let s = s\<lparr>last_accept_timestamp := time_get_timestamp (te_accept_time e)\<rparr> in
      case te_accept e of
        Would_block \<Rightarrow> Inr (s, 0)
      | Io_error \<Rightarrow> Inr (s, 1)
      | Done fd \<Rightarrow>
          (case connection_init (te_alloc e) (te_getfl e) (te_setfl e) (te_junk e) fd of
             None \<Rightarrow> Inr (s, 1)
           | Some c \<Rightarrow>
               let a = Some (te_address e) in
               bindE (connection_list_append ((conns s)(te_address e \<mapsto> c)) (served_list s) a) (\<lambda>(h, ctx).
                 let s = s\<lparr>conns := h, served_list := ctx\<rparr> in
                 Inr (if current_connection s = None then s\<lparr>current_connection := a\<rparr> else s, 0))))"

definition get_next_connection :: "server \<Rightarrow> conn_ref result" where
  "get_next_connection s =
     bindE (connection_get_next (conns s) (current_connection s)) (\<lambda>n.
       Inr (if n \<noteq> None then n else connection_list_get_head (served_list s)))"

text \<open>Running a handler on the connection at \<open>a\<close>.\<close>

definition on_connection :: "conn_ref \<Rightarrow> (connection \<Rightarrow> world \<Rightarrow> handler_result) \<Rightarrow> server \<Rightarrow>
    (server \<times> connection_result) result" where
  "on_connection a f s =
     bindE (deref (conns s) a) (\<lambda>c.
     bindE (f c (sworld s)) (\<lambda>(c, w, r).
       Inr (s\<lparr>conns := (conns s)(the a \<mapsto> c), sworld := w\<rparr>, r)))"

definition server_add_blocked :: "nat \<Rightarrow> turn_env \<Rightarrow> server \<Rightarrow> conn_ref \<Rightarrow> block_type \<Rightarrow> server result" where
  "server_add_blocked fuel e s c t =
     bindE (blocked_connections_add fuel (te_node_alloc e) (conns s) (blocked_lists s) c t) (\<lambda>(h, b).
       Inr (s\<lparr>conns := h, blocked_lists := b\<rparr>))"

definition server_pop_blocked :: "nat \<Rightarrow> server \<Rightarrow> block_type \<Rightarrow> (server \<times> conn_ref) result" where
  "server_pop_blocked fuel s t =
     bindE (connection_get_entry_header (conns s) (current_connection s)) (\<lambda>p.
     bindE (blocked_connections_pop fuel (conns s) (blocked_lists s) p t) (\<lambda>(b, c).
       Inr (s\<lparr>blocked_lists := b\<rparr>, c)))"

definition unblock :: "turn_env \<Rightarrow> block_type \<Rightarrow> connection \<Rightarrow> world \<Rightarrow> handler_result" where
  "unblock e t = (case t of BLOCK_READ \<Rightarrow> connection_unblock_read
     | BLOCK_WRITE \<Rightarrow> connection_unblock_write (te_conn e))"

text \<open>The loop of \<open>handle_lock_release_event\<close>; \<open>c\<close> is \<^verbatim>\<open>unblocked_connection\<close>.\<close>

fun unblock_loop :: "nat \<Rightarrow> turn_env \<Rightarrow> block_type \<Rightarrow> server \<Rightarrow> conn_ref \<Rightarrow> server result" where
  "unblock_loop 0 e t s c = Inl No_return"
| "unblock_loop (Suc fuel) e t s c =
     (if c = None then Inr s
      else
        bindE (on_connection c (unblock e t) s) (\<lambda>(s, result).
          if result \<noteq> RESULT_SUCCESS then server_add_blocked fuel e s (current_connection s) t
          else
            bindE (connection_list_append (conns s) (served_list s) c) (\<lambda>(h, ctx).
            bindE (server_pop_blocked fuel (s\<lparr>conns := h, served_list := ctx\<rparr>) t) (\<lambda>(s, c).
              unblock_loop fuel e t s c))))"

definition release_waiters :: "nat \<Rightarrow> turn_env \<Rightarrow> block_type \<Rightarrow> server \<Rightarrow> server result" where
  "release_waiters fuel e t s =
     bindE (server_pop_blocked fuel s t) (\<lambda>(s, c). unblock_loop fuel e t s c)"

definition handle_lock_release_event :: "nat \<Rightarrow> turn_env \<Rightarrow> server \<Rightarrow> server result" where
  "handle_lock_release_event fuel e s =
     bindE (connection_get_lock_release_event (conns s) (current_connection s)) (\<lambda>event.
       case event of
         LOCK_EVENT_NONE \<Rightarrow> Inr s
       | LOCK_EVENT_READS_UNBLOCKED \<Rightarrow> release_waiters fuel e BLOCK_READ s
       | LOCK_EVENT_WRITES_UNBLOCKED \<Rightarrow> release_waiters fuel e BLOCK_WRITE s
       | LOCK_EVENT_BLOCKED \<Rightarrow> Inl Assert_failed)"

text \<open>Taking the current connection out of the served list.\<close>

definition remove_current :: "server \<Rightarrow> server result" where
  "remove_current s =
     bindE (connection_list_remove (conns s) (served_list s) (current_connection s)) (\<lambda>(h, ctx).
       Inr (s\<lparr>conns := h, served_list := ctx\<rparr>))"

definition finish_turn :: "nat \<Rightarrow> turn_env \<Rightarrow> conn_ref \<Rightarrow> connection_result \<Rightarrow> server \<Rightarrow> server result" where
  "finish_turn fuel e next_connection result s =
     (case result of
        RESULT_SUCCESS \<Rightarrow> Inr (s\<lparr>current_connection := connection_list_get_head (served_list s)\<rparr>)
      | RESULT_NO_TRANSFER \<Rightarrow> Inr (s\<lparr>current_connection := next_connection\<rparr>)
      | RESULT_NEW_REQUEST \<Rightarrow>
          bindE (remove_current s) (\<lambda>s.
          bindE (connection_list_append (conns s) (served_list s) (current_connection s)) (\<lambda>(h, ctx).
            Inr (s\<lparr>conns := h, served_list := ctx, current_connection := next_connection\<rparr>)))
      | RESULT_DISCONNECT \<Rightarrow>
          bindE (remove_current s) (\<lambda>s.
          bindE (deref (conns s) (current_connection s)) (\<lambda>c.
          bindE (connection_deinit (conns s) (current_connection s)) (\<lambda>h.
            Inr (s\<lparr>conns := h,
                   closed_descriptors := (case connection_close c of None \<Rightarrow> closed_descriptors s
                                          | Some fd \<Rightarrow> closed_descriptors s @ [fd]),
                   current_connection := (if next_connection = current_connection s then None
                                          else next_connection)\<rparr>))))
      | RESULT_READ_BLOCKED \<Rightarrow>
          bindE (remove_current s) (\<lambda>s. server_add_blocked fuel e s (current_connection s) BLOCK_READ)
      | RESULT_WRITE_BLOCKED \<Rightarrow>
          bindE (remove_current s) (\<lambda>s. server_add_blocked fuel e s (current_connection s) BLOCK_WRITE))"

definition accept_due :: "turn_env \<Rightarrow> server \<Rightarrow> bool" where
  "accept_due e s \<longleftrightarrow> current_connection s = None \<or>
     time_get_timestamp (te_time e) - last_accept_timestamp s > ACCEPT_PERIOD"

definition cache_server_proc :: "nat \<Rightarrow> turn_env \<Rightarrow> server \<Rightarrow> server result" where
  "cache_server_proc fuel e s =
     (if accept_due e s then bindE (accept_connection e s) (\<lambda>(s, _). Inr s)
      else
        bindE (get_next_connection s) (\<lambda>next_connection.
        bindE (on_connection (current_connection s) (connection_proc (te_conn e)) s) (\<lambda>(s, result).
        bindE (handle_lock_release_event fuel e s) (\<lambda>s.
          finish_turn fuel e next_connection result s))))"

section \<open>The program\<close>

text \<open>\<^verbatim>\<open>while (1) { cache_server_proc(); }\<close> for as many rounds as there are environments.\<close>

fun serve_rounds :: "nat \<Rightarrow> turn_env list \<Rightarrow> server \<Rightarrow> server result" where
  "serve_rounds fuel [] s = Inr s"
| "serve_rounds fuel (e # es) s = bindE (cache_server_proc fuel e s) (serve_rounds fuel es)"

text \<open>\<open>Inl\<close> is a fault, \<open>Inr (s, 1)\<close> the exit of \<^verbatim>\<open>main\<close> when the server cannot be opened.\<close>

definition main_rounds :: "nat \<Rightarrow> (nat \<Rightarrow> bool) \<Rightarrow> string list \<Rightarrow> (configuration_context \<Rightarrow> open_env) \<Rightarrow>
    turn_env list \<Rightarrow> server \<Rightarrow> (server \<times> u8) result" where
  "main_rounds fuel ok argv oe es s =
     bindE (configuration_parse ok argv) (\<lambda>options.
     bindE (cache_server_open fuel ((oe options)\<lparr>oe_options := options\<rparr>) s) (\<lambda>(s, result).
       if result = 1 then Inr (s, 1)
       else bindE (serve_rounds fuel es s) (\<lambda>s. Inr (s, 0))))"

end
