(* ===== verification/ServerRounds.thy ===== *)
theory ServerRounds
  imports Sessions CacheServer
begin

text \<open>
  Rounds of the server. \<open>turn_keeps_list\<close> says what one round does to the served connections;
  \<open>rounds_serve\<close> that with one client the loop gives its connection the turns of \<open>ConnectionSession\<close>,
  whatever the clock does; the interpretation of \<open>service\<close> lifts the refinement of \<open>Sessions\<close> to the
  loop of the program. The last section is about connections that have to wait.
\<close>

section \<open>One round\<close>

text \<open>A heap in which a connection changed, but not its links.\<close>

lemma linked_changed:
  assumes "h a = Some c" and "previous c' = previous c" and "next c' = next c"
  shows "linked (h(a \<mapsto> c')) p xs n = linked h p xs n"
  using assms by (induction xs arbitrary: p) auto

lemma conn_list_changed:
  "h a = Some c \<Longrightarrow> place c' = place c \<Longrightarrow> conn_list (h(a \<mapsto> c')) ctx xs = conn_list h ctx xs"
  by (simp add: conn_list_def place_def linked_changed)

lemma member_links:
  assumes "conn_list h ctx (ys @ a # zs)"
  obtains r where "h a = Some r" and "previous r = last_of ys" and "next r = first_of zs"
proof -
  have "linked h None (ys @ a # zs) None" using assms by (simp add: conn_list_def)
  from linked_middle(1) [OF this] that show ?thesis by blast
qed

lemma get_next_in_list:
  assumes "conn_list (conns s) (served_list s) (ys @ a # zs)" and "current_connection s = Some a"
  shows "get_next_connection s = Inr (Some (hd (zs @ ys @ [a])))"
proof -
  obtain r where "conns s a = Some r" "next r = first_of zs"
    using member_links [OF assms(1)] .
  moreover have "list_head (served_list s) = Some (hd (ys @ [a]))"
    using assms(1) by (cases ys) (simp_all add: conn_list_def)
  ultimately show ?thesis
    using assms(2) by (cases zs) (simp_all add: get_next_connection_def connection_list_get_head_def)
qed

lemma no_waiters:
  assumes "blocked_head (blocked_lists s) = None" and "conns s a = Some c"
    and "current_connection s = Some a" and "lock_release_event c \<noteq> LOCK_EVENT_BLOCKED"
  shows "handle_lock_release_event (Suc fuel) e s = Inr s"
  using assms
  by (cases "lock_release_event c") (simp_all add: handle_lock_release_event_def release_waiters_def server_pop_blocked_def
      connection_get_lock_release_event_def connection_get_entry_header_def blocked_connections_pop_def)

text \<open>The served connections and the current one after a turn of \<open>a\<close>.\<close>

definition turn_list :: "connection_result \<Rightarrow> nat list \<Rightarrow> nat \<Rightarrow> nat list \<Rightarrow> nat list" where
  "turn_list r ys a zs = (case r of RESULT_NEW_REQUEST \<Rightarrow> ys @ zs @ [a] | RESULT_DISCONNECT \<Rightarrow> ys @ zs
     | _ \<Rightarrow> ys @ a # zs)"

definition turn_current :: "connection_result \<Rightarrow> nat list \<Rightarrow> nat \<Rightarrow> nat list \<Rightarrow> conn_ref" where
  "turn_current r ys a zs = (case r of RESULT_SUCCESS \<Rightarrow> Some (hd (ys @ [a]))
     | RESULT_DISCONNECT \<Rightarrow> first_of (zs @ ys) | _ \<Rightarrow> Some (hd (zs @ ys @ [a])))"

definition turn_closed :: "connection_result \<Rightarrow> connection \<Rightarrow> int list" where
  "turn_closed r c = (if r = RESULT_DISCONNECT \<and> file_descriptor c > 0 then [file_descriptor c] else [])"

lemma remove_current_ok:
  assumes "conn_list (conns s) (served_list s) (ys @ a # zs)" and "current_connection s = Some a"
  obtains h ctx where "remove_current s = Inr (s\<lparr>conns := h, served_list := ctx\<rparr>)"
    and "conn_list h ctx (ys @ zs)" and "same_payload (conns s) h" and "h a = conns s a"
  using remove_correct [OF assms(1)] assms(2) by (auto simp: remove_current_def)

lemma turn_success:
  assumes L: "conn_list (conns s) (served_list s) (ys @ a # zs)" and cur: "current_connection s = Some a"
    and r: "r = RESULT_SUCCESS \<or> r = RESULT_NO_TRANSFER"
  shows "finish_turn fuel e (Some (hd (zs @ ys @ [a]))) r s = Inr (s\<lparr>current_connection := turn_current r ys a zs\<rparr>)"
  using assms by (cases ys) (auto simp: finish_turn_def turn_current_def connection_list_get_head_def conn_list_def)

lemma turn_new_request:
  assumes L: "conn_list (conns s) (served_list s) (ys @ a # zs)" and cur: "current_connection s = Some a"
  obtains h ctx where "finish_turn fuel e (Some (hd (zs @ ys @ [a]))) RESULT_NEW_REQUEST s =
      Inr (s\<lparr>conns := h, served_list := ctx, current_connection := turn_current RESULT_NEW_REQUEST ys a zs\<rparr>)"
    and "conn_list h ctx (ys @ zs @ [a])" and "same_payload (conns s) h"
proof -
  obtain h ctx where rm: "remove_current s = Inr (s\<lparr>conns := h, served_list := ctx\<rparr>)"
    "conn_list h ctx (ys @ zs)" "same_payload (conns s) h" "h a = conns s a"
    using remove_current_ok [OF L cur] .
  obtain r where r: "conns s a = Some r" "previous r = last_of ys" "next r = first_of zs"
    using member_links [OF L] .
  have "a \<notin> set (ys @ zs)" using L by (auto simp: conn_list_def)
  moreover have "h a = Some r" using rm(4) r by simp
  moreover have "ys @ zs = [] \<Longrightarrow> unlinked h a" using rm(4) r by (simp add: unlinked_def)
  ultimately obtain h' ctx' where ap: "connection_list_append h ctx (Some a) = Inr (h', ctx')"
    "conn_list h' ctx' ((ys @ zs) @ [a])" "same_payload h h'"
    using append_correct [OF rm(2)] by blast
  show ?thesis
  proof (rule that)
    show "finish_turn fuel e (Some (hd (zs @ ys @ [a]))) RESULT_NEW_REQUEST s =
      Inr (s\<lparr>conns := h', served_list := ctx', current_connection := turn_current RESULT_NEW_REQUEST ys a zs\<rparr>)"
      using rm(1) ap(1) cur by (simp add: finish_turn_def turn_current_def)
  qed (use ap(2,3) rm(3) same_payload_trans in auto)
qed

lemma turn_disconnect:
  assumes L: "conn_list (conns s) (served_list s) (ys @ a # zs)" and cur: "current_connection s = Some a"
    and c: "conns s a = Some c"
  obtains h ctx where "finish_turn fuel e (Some (hd (zs @ ys @ [a]))) RESULT_DISCONNECT s =
      Inr (s\<lparr>conns := h, served_list := ctx, current_connection := turn_current RESULT_DISCONNECT ys a zs,
             closed_descriptors := closed_descriptors s @ turn_closed RESULT_DISCONNECT c\<rparr>)"
    and "conn_list h ctx (ys @ zs)" and "same_payload ((conns s)(a := None)) h"
proof -
  obtain h ctx where rm: "remove_current s = Inr (s\<lparr>conns := h, served_list := ctx\<rparr>)"
    "conn_list h ctx (ys @ zs)" "same_payload (conns s) h" "h a = conns s a"
    using remove_current_ok [OF L cur] .
  have a: "a \<notin> set (ys @ zs)" using L by (auto simp: conn_list_def)
  then have "(hd (zs @ ys @ [a]) = a) = (zs @ ys = [])" by (cases zs; cases ys) auto
  then have "(if Some (hd (zs @ ys @ [a])) = Some a then None else Some (hd (zs @ ys @ [a]))) =
      turn_current RESULT_DISCONNECT ys a zs"
    by (cases zs; cases ys) (auto simp: turn_current_def)
  then have "finish_turn fuel e (Some (hd (zs @ ys @ [a]))) RESULT_DISCONNECT s =
      Inr (s\<lparr>conns := h(a := None), served_list := ctx, current_connection := turn_current RESULT_DISCONNECT ys a zs,
             closed_descriptors := closed_descriptors s @ turn_closed RESULT_DISCONNECT c\<rparr>)"
    using rm(1,4) cur c
    by (simp add: finish_turn_def connection_deinit_def connection_close_def turn_closed_def split: if_splits)
  moreover have "conn_list (h(a := None)) ctx (ys @ zs)" using conn_list_cong [OF rm(2)] a by auto
  moreover have "same_payload ((conns s)(a := None)) (h(a := None))" using rm(3) by (simp add: same_payload_def)
  ultimately show ?thesis by (rule that)
qed

lemma proc_turn:
  assumes L: "conn_list (conns s) (served_list s) (ys @ a # zs)" and cur: "current_connection s = Some a"
    and due: "\<not> accept_due e s" and c: "conns s a = Some c" "lock_release_event c \<noteq> LOCK_EVENT_BLOCKED"
    and nobody: "blocked_head (blocked_lists s) = None"
    and proc: "connection_proc (te_conn e) c (sworld s) = Inr (c', w', r)"
  defines "s1 \<equiv> s\<lparr>conns := (conns s)(a \<mapsto> c'), sworld := w'\<rparr>"
  shows "cache_server_proc (Suc fuel) e s = finish_turn (Suc fuel) e (Some (hd (zs @ ys @ [a]))) r s1"
    and "conn_list (conns s1) (served_list s1) (ys @ a # zs)" and "current_connection s1 = Some a"
    and "conns s1 a = Some c'" and "lock_release_event c' \<noteq> LOCK_EVENT_BLOCKED"
proof -
  have k: "place c' = place c" "lock_release_event c' \<noteq> LOCK_EVENT_BLOCKED"
    using proc_keeps [OF proc] c(2) by (simp_all add: keeps_def)
  then show "lock_release_event c' \<noteq> LOCK_EVENT_BLOCKED" by simp
  show "conn_list (conns s1) (served_list s1) (ys @ a # zs)" "current_connection s1 = Some a" "conns s1 a = Some c'"
    using L cur conn_list_changed [of "conns s" a c c'] c(1) k(1) by (simp_all add: s1_def)
  moreover have "on_connection (Some a) (connection_proc (te_conn e)) s = Inr (s1, r)"
    using c(1) proc by (simp add: on_connection_def s1_def)
  moreover have "handle_lock_release_event (Suc fuel) e s1 = Inr s1"
    using no_waiters [of s1 a c'] nobody k(2) cur by (simp add: s1_def)
  ultimately show "cache_server_proc (Suc fuel) e s = finish_turn (Suc fuel) e (Some (hd (zs @ ys @ [a]))) r s1"
    using due cur get_next_in_list [OF L cur] by (simp add: cache_server_proc_def)
qed

text \<open>What a round without an accept does, whatever the handler of the current connection results in.\<close>

lemma round_outcome:
  assumes L: "conn_list (conns s) (served_list s) (ys @ a # zs)" and cur: "current_connection s = Some a"
    and due: "\<not> accept_due e s" and c: "conns s a = Some c" "lock_release_event c \<noteq> LOCK_EVENT_BLOCKED"
    and nobody: "blocked_head (blocked_lists s) = None"
    and proc: "connection_proc (te_conn e) c (sworld s) = Inr (c', w', r)"
    and r: "r \<noteq> RESULT_READ_BLOCKED" "r \<noteq> RESULT_WRITE_BLOCKED"
  obtains h ctx where "cache_server_proc (Suc fuel) e s =
      Inr (s\<lparr>sworld := w', conns := h, served_list := ctx, current_connection := turn_current r ys a zs,
             closed_descriptors := closed_descriptors s @ turn_closed r c'\<rparr>)"
    and "conn_list h ctx (turn_list r ys a zs)"
    and "same_payload ((conns s)(a := if r = RESULT_DISCONNECT then None else Some c')) h"
proof -
  note t = proc_turn [OF L cur due c nobody proc]
  let ?s = "s\<lparr>conns := (conns s)(a \<mapsto> c'), sworld := w'\<rparr>"
  consider "r = RESULT_SUCCESS \<or> r = RESULT_NO_TRANSFER" | "r = RESULT_NEW_REQUEST" | "r = RESULT_DISCONNECT"
    using r by (cases r) auto
  then show ?thesis
  proof cases
    case 1
    have "cache_server_proc (Suc fuel) e s = Inr (s\<lparr>sworld := w', conns := (conns s)(a \<mapsto> c'),
        served_list := served_list s, current_connection := turn_current r ys a zs,
        closed_descriptors := closed_descriptors s @ turn_closed r c'\<rparr>)"
      using turn_success [OF t(2,3) 1] t(1) 1 by (auto simp: turn_closed_def)
    moreover have "conn_list ((conns s)(a \<mapsto> c')) (served_list s) (turn_list r ys a zs)"
      using t(2) 1 by (auto simp: turn_list_def)
    moreover have "same_payload ((conns s)(a := if r = RESULT_DISCONNECT then None else Some c')) ((conns s)(a \<mapsto> c'))"
      using 1 by auto
    ultimately show ?thesis by (rule that)
  next
    case 2
    obtain h ctx where "finish_turn (Suc fuel) e (Some (hd (zs @ ys @ [a]))) RESULT_NEW_REQUEST ?s =
        Inr (?s\<lparr>conns := h, served_list := ctx, current_connection := turn_current RESULT_NEW_REQUEST ys a zs\<rparr>)"
      "conn_list h ctx (ys @ zs @ [a])" "same_payload (conns ?s) h"
      using turn_new_request [OF t(2,3)] .
    then show ?thesis using that t(1) 2 by (simp add: turn_list_def turn_closed_def)
  next
    case 3
    obtain h ctx where "finish_turn (Suc fuel) e (Some (hd (zs @ ys @ [a]))) RESULT_DISCONNECT ?s =
        Inr (?s\<lparr>conns := h, served_list := ctx, current_connection := turn_current RESULT_DISCONNECT ys a zs,
             closed_descriptors := closed_descriptors ?s @ turn_closed RESULT_DISCONNECT c'\<rparr>)"
      "conn_list h ctx (ys @ zs)" "same_payload ((conns ?s)(a := None)) h"
      using turn_disconnect [OF t(2,3,4)] .
    then show ?thesis using that t(1) 3 by (simp add: turn_list_def)
  qed
qed

section \<open>One client\<close>

text \<open>
  \<open>client_of s a c\<close>: \<open>c\<close>, at address \<open>a\<close>, is the only connection that is served and nobody waits.
  \<open>turns_of\<close> picks the rounds in which the connection has its turn: a round that comes more than the
  accept period after the last accept looks for a new client instead.
\<close>

definition client_of :: "server \<Rightarrow> nat \<Rightarrow> connection \<Rightarrow> bool" where
  "client_of s a c \<longleftrightarrow> conn_list (conns s) (served_list s) [a] \<and> current_connection s = Some a \<and>
     conns s a = Some c \<and> blocked_head (blocked_lists s) = None \<and> lock_release_event c \<noteq> LOCK_EVENT_BLOCKED"

fun turns_of :: "u64 \<Rightarrow> turn_env list \<Rightarrow> env list" where
  "turns_of t0 [] = []"
| "turns_of t0 (e # es) =
     (if time_get_timestamp (te_time e) - t0 > ACCEPT_PERIOD
      then turns_of (time_get_timestamp (te_accept_time e)) es else te_conn e # turns_of t0 es)"

definition nobody_calls :: "turn_env \<Rightarrow> bool" where
  "nobody_calls e \<longleftrightarrow> te_accept e = Would_block"

lemma client_exact:
  assumes "conn_list h ctx [a]" and "same_payload (h0(a \<mapsto> c)) h" and "previous c = None" and "next c = None"
  shows "h a = Some c"
proof -
  obtain r where r: "h a = Some r" "previous r = None" "next r = None"
    using assms(1) by (auto simp: conn_list_def)
  have "connection_links.more r = connection_links.more c"
    using assms(2) r(1) unfolding same_payload_def by (drule_tac x = a in spec) simp
  then have "r = c" using r(2,3) assms(3,4) by (intro connection_links.equality) simp_all
  then show ?thesis using r(1) by simp
qed

lemma accept_round:
  assumes "client_of s a c" and "nobody_calls e" and "accept_due e s"
  shows "cache_server_proc fuel e s = Inr (s\<lparr>last_accept_timestamp := time_get_timestamp (te_accept_time e)\<rparr>)"
    and "client_of (s\<lparr>last_accept_timestamp := time_get_timestamp (te_accept_time e)\<rparr>) a c"
  using assms by (simp_all add: cache_server_proc_def accept_connection_def nobody_calls_def client_of_def)

lemma client_round:
  assumes cl: "client_of s a c" and due: "\<not> accept_due e s"
    and proc: "connection_proc (te_conn e) c (sworld s) = Inr (c', w', r)"
    and r: "r \<in> {RESULT_SUCCESS, RESULT_NO_TRANSFER, RESULT_NEW_REQUEST}"
  obtains s' where "cache_server_proc (Suc fuel) e s = Inr s'" and "client_of s' a c'" and "sworld s' = w'"
    and "last_accept_timestamp s' = last_accept_timestamp s"
proof -
  have s: "conn_list (conns s) (served_list s) ([] @ a # [])" "current_connection s = Some a" "conns s a = Some c"
    "lock_release_event c \<noteq> LOCK_EVENT_BLOCKED" "blocked_head (blocked_lists s) = None"
    using cl by (simp_all add: client_of_def)
  have nb: "r \<noteq> RESULT_READ_BLOCKED" "r \<noteq> RESULT_WRITE_BLOCKED" using r by auto
  obtain h ctx where run: "cache_server_proc (Suc fuel) e s =
      Inr (s\<lparr>sworld := w', conns := h, served_list := ctx, current_connection := turn_current r [] a [],
             closed_descriptors := closed_descriptors s @ turn_closed r c'\<rparr>)"
    and L: "conn_list h ctx (turn_list r [] a [])"
    and P: "same_payload ((conns s)(a := if r = RESULT_DISCONNECT then None else Some c')) h"
    using round_outcome [OF s(1,2) due s(3,4,5) proc nb, of fuel] by blast
  have xs: "turn_list r [] a [] = [a]" "turn_current r [] a [] = Some a"
    using r by (auto simp: turn_list_def turn_current_def)
  have k: "place c' = place c" "lock_release_event c' \<noteq> LOCK_EVENT_BLOCKED"
    using proc_keeps [OF proc] s(4) by (simp_all add: keeps_def)
  have "previous c = None" "next c = None" using s(1,3) by (auto simp: conn_list_def)
  then have "h a = Some c'"
    using L P r k(1) unfolding xs by (intro client_exact [of h ctx a "conns s"]) (auto simp: place_def)
  then show ?thesis using that [OF run] L k(2) s(5) by (simp add: client_of_def xs)
qed

text \<open>The rounds of the loop serve the connection, wherever the clock puts the rounds that accept.\<close>

lemma rounds_serve:
  assumes "client_of s a c" and "\<forall>e\<in>set es. nobody_calls e"
    and "serve (turns_of (last_accept_timestamp s) es) c (sworld s) = Inr (c', w', r, [])"
    and "r \<in> {RESULT_SUCCESS, RESULT_NEW_REQUEST}"
  shows "\<exists>s'. serve_rounds (Suc fuel) es s = Inr s' \<and> client_of s' a c' \<and> sworld s' = w'"
  using assms
proof (induction es arbitrary: s c r)
  case (Cons e es)
  have quiet: "nobody_calls e" "\<forall>e\<in>set es. nobody_calls e" using Cons.prems(2) by simp_all
  have current: "current_connection s \<noteq> None" using Cons.prems(1) by (simp add: client_of_def)
  show ?case
  proof (cases "accept_due e s")
    case True
    let ?s = "s\<lparr>last_accept_timestamp := time_get_timestamp (te_accept_time e)\<rparr>"
    have "serve (turns_of (last_accept_timestamp ?s) es) c (sworld ?s) = Inr (c', w', r, [])"
      using Cons.prems(3) True current by (simp add: accept_due_def)
    then show ?thesis
      using Cons.IH [OF accept_round(2) [OF Cons.prems(1) quiet(1) True] quiet(2) _ Cons.prems(4)]
        accept_round(1) [OF Cons.prems(1) quiet(1) True] by simp
  next
    case False
    then have "continue (turns_of (last_accept_timestamp s) es) (connection_proc (te_conn e) c (sworld s)) = Inr (c', w', r, [])"
      using Cons.prems(3) current by (simp add: accept_due_def serve_Cons)
    then obtain c1 w1 r1 where proc: "connection_proc (te_conn e) c (sworld s) = Inr (c1, w1, r1)"
      and cont: "if r1 = RESULT_SUCCESS \<or> r1 = RESULT_NO_TRANSFER
          then serve (turns_of (last_accept_timestamp s) es) c1 w1 = Inr (c', w', r, [])
          else c1 = c' \<and> w1 = w' \<and> r1 = r \<and> turns_of (last_accept_timestamp s) es = []"
      by (auto simp: continue_def elim!: bindE_InrE split: if_splits)
    have r1: "r1 \<in> {RESULT_SUCCESS, RESULT_NO_TRANSFER, RESULT_NEW_REQUEST}"
      using cont Cons.prems(4) by (auto split: if_splits)
    obtain s1 where s1: "cache_server_proc (Suc fuel) e s = Inr s1" "client_of s1 a c1" "sworld s1 = w1"
      "last_accept_timestamp s1 = last_accept_timestamp s"
      using client_round [OF Cons.prems(1) False proc r1] .
    have "\<exists>r'. serve (turns_of (last_accept_timestamp s1) es) c1 (sworld s1) = Inr (c', w', r', []) \<and>
        r' \<in> {RESULT_SUCCESS, RESULT_NEW_REQUEST}"
      using cont Cons.prems(4) s1(3,4) by (auto split: if_splits)
    then show ?thesis using Cons.IH [OF s1(2) quiet(2)] s1(1) by auto
  qed
qed simp

section \<open>The server as a service\<close>

text \<open>An exchange and the rounds of the loop in which it takes place.\<close>

type_synonym server_exchange = "exchange \<times> turn_env list"

definition server_step :: "nat \<Rightarrow> server_exchange \<Rightarrow> server \<Rightarrow> server result" where
  "server_step fuel x s = serve_rounds fuel (snd x) s"

definition server_ready :: "u8 list set \<Rightarrow> int \<Rightarrow> server_exchange \<Rightarrow> server \<Rightarrow> bool" where
  "server_ready K fd x s \<longleftrightarrow> exchange_ready K fd (fst x) (the (conns s (the (current_connection s))), sworld s) \<and>
     (\<forall>e\<in>set (snd x). nobody_calls e) \<and>
     turns_of (last_accept_timestamp s) (snd x) = ex_in (fst x) @ ex_out (fst x)"

definition server_inv :: "u8 list set \<Rightarrow> nat \<Rightarrow> int \<Rightarrow> server \<Rightarrow> bool" where
  "server_inv K b fd s \<longleftrightarrow> (\<exists>a c. client_of s a c \<and> session_inv K b fd (c, sworld s))"

definition server_view :: "int \<Rightarrow> server \<Rightarrow> cache_map \<times> u8 list" where
  "server_view fd s = (contents (sworld s), w_sent (sworld s) fd)"

interpretation program: service "server_inv K b fd" "server_view fd" "server_ready K fd" "server_step (Suc fuel)"
    "\<lambda>x. exchange_spec (fst x)"
  for K b fd fuel
proof unfold_locales
  fix s :: server and x :: server_exchange
  assume "server_inv K b fd s" and ready: "server_ready K fd x s"
  then obtain a c where cl: "client_of s a c" and inv: "session_inv K b fd (c, sworld s)"
    by (auto simp: server_inv_def)
  let ?x = "fst x"
  have ex: "exchange_ready K fd ?x (c, sworld s)" using ready cl by (simp add: server_ready_def client_of_def)
  obtain es where W: "world_ok K b (sworld s) es" and c: "idle c" "file_descriptor c = fd"
    using inv by (auto simp: session_inv_def)
  obtain c' w' es' where run: "serve (ex_in ?x @ ex_out ?x) c (sworld s) = Inr (c', w', final_result (ex_header ?x), [])"
    and w': "w_sent w' = (w_sent (sworld s))(fd := w_sent (sworld s) fd @ concat (answer (ex_request ?x) (contents (sworld s))))"
      "world_ok K b w' es'" "contents w' = effect (ex_request ?x) (contents (sworld s))" "idle c'"
    using request_step [OF W c, of "ex_request ?x" "ex_header ?x" "ex_in ?x" "ex_out ?x" "[]"] ex
    by (auto simp: exchange_ready_def)
  have "final_result (ex_header ?x) = RESULT_NEW_REQUEST" using ex by (simp add: exchange_ready_def final_result_def)
  with run obtain s' where s': "serve_rounds (Suc fuel) (snd x) s = Inr s'" "client_of s' a c'" "sworld s' = w'"
    using rounds_serve [OF cl, of "snd x" c' w' RESULT_NEW_REQUEST fuel] ready by (auto simp: server_ready_def)
  have "session_inv K b fd (c', sworld s')"
    using w'(2,4) serve_keeps [OF run] c(2) s'(3) by (auto simp: session_inv_def keeps_def place_def)
  then show "\<exists>s'. server_step (Suc fuel) x s = Inr s' \<and> server_inv K b fd s' \<and>
      server_view fd s' = exchange_spec ?x (server_view fd s)"
    using s' w' by (auto simp: server_step_def server_inv_def server_view_def exchange_spec_def)
qed

section \<open>The start\<close>

lemma open_world:
  assumes "cache_server_open fuel e s = Inr (s', 0)" and "oe_map_allocs e = (True, True)"
    and "configuration_get_int (oe_options e) ENTRY_CAPACITY_BYTES = Inr (int capacity)"
    and "header_size \<le> capacity" and "capacity < 2 ^ 32" and "memory_wf (w_mem (sworld s))"
  obtains st where "sworld s' = (sworld s)\<lparr>w_store := st\<rparr>" and "contents (sworld s') = Map.empty"
    and "world_ok K (next_block (w_mem (sworld s))) (sworld s') []" and "index_room (index_of (sworld s'))"
    and "queue st = \<lparr>buffer = Ptr (next_block (w_mem (sworld s))) 0, entry_count = 0, occupied_bytes = 0,
           capacity_bytes = capacity, read_index = 0, write_index = 0\<rparr>"
    and "conns s' = conns s" and "conn_list (conns s') (served_list s') []" and "current_connection s' = None"
    and "blocked_lists s' = blocked_lists s"
proof -
  have cap: "unat (word_of_int (int capacity) :: u64) = capacity" using assms(5) by (simp add: unat_of_nat)
  obtain s1 where s1: "open_modules e capacity s = Inr (s1, False)"
    and s': "s' = s1\<lparr>listen_file_descriptor := oe_socket e, current_connection := None, last_accept_timestamp := 0\<rparr>"
    using assms(1,3) cap
    by (auto simp: cache_server_open_def open_failed_def Let_def elim!: bindE_InrE split: if_splits)
  obtain ctx st where ctx: "entry_hash_map_open (True, True) = Inr (ctx, 0)"
    and st: "memory_queue_open capacity True ((w_store (sworld s))\<lparr>index_ctx := ctx\<rparr>) = (st, 0)"
    and s1_eq: "s1 = s\<lparr>served_list := fst connection_list_open, sworld := (sworld s)\<lparr>w_store := st\<rparr>\<rparr>"
    using s1 assms(2) by (auto simp: open_modules_def connection_list_open_def memory_queue_open_def malloc_block_def
        Let_def elim!: bindE_InrE split: if_splits prod.splits)
  note opened = opened_empty [OF assms(6,4,5) ctx st]
  show ?thesis
    by (rule that) (use opened in \<open>simp_all add: s' s1_eq connection_list_open_def conn_list_def\<close>)
qed

text \<open>A client that calls the open server and is accepted.\<close>

definition accepts_client :: "turn_env \<Rightarrow> int \<Rightarrow> bool" where
  "accepts_client e fd \<longleftrightarrow> te_accept e = Done fd \<and> te_alloc e \<and> te_getfl e \<noteq> -1 \<and> te_setfl e \<noteq> -1 \<and>
     length (header_union (te_junk e)) = aggregate_response_size \<and>
     length (arguments_union (te_junk e)) = key_value_arguments_size"

lemma accept_first:
  assumes "accepts_client e fd" and "conn_list (conns s) (served_list s) []" and "current_connection s = None"
    and "blocked_head (blocked_lists s) = None"
  obtains s' c where "cache_server_proc fuel e s = Inr s'" and "client_of s' (te_address e) c"
    and "sworld s' = sworld s" and "idle c" and "file_descriptor c = fd"
    and "last_accept_timestamp s' = time_get_timestamp (te_accept_time e)"
proof -
  let ?c = "init_request ((te_junk e)\<lparr>previous := None, next := None, file_descriptor := fd\<rparr>)"
  let ?h = "(conns s)(te_address e \<mapsto> ?c)"
  have c: "place ?c = (None, None, fd)" "idle ?c"
    using assms(1) by (simp_all add: place_def init_request_idle accepts_client_def del: place_updates)
       (simp_all add: init_request_def)
  have "unlinked ?h (te_address e)" using c(1) by (simp add: unlinked_def place_def)
  then obtain h ctx where ap: "connection_list_append ?h (served_list s) (Some (te_address e)) = Inr (h, ctx)"
    "conn_list h ctx [te_address e]" "same_payload ?h h"
    using append_correct [of ?h "served_list s" "[]" "te_address e" ?c] conn_list_cong [OF assms(2), of ?h] by auto
  have "h (te_address e) = Some ?c"
    using ap(2,3) c(1) by (intro client_exact [of h ctx _ "conns s"]) (simp_all add: place_def)
  then show ?thesis
    using that assms(1,3,4) ap c
    by (simp add: cache_server_proc_def accept_due_def accept_connection_def accepts_client_def connection_init_def
        Let_def client_of_def idle_def place_def)
qed

section \<open>Properties\<close>

text \<open>C32. A round that serves a connection keeps the list of served connections intact, with any number of
  them: whatever the handler results in, short of having to wait, the list is afterwards the same, has
  the connection at its end (a new request) or no longer (a disconnect, which frees it and closes its
  descriptor); the next connection is the head, or the one behind it in turn; and no other connection
  is touched but for its links.\<close>

theorem round_keeps_list:
  assumes "conn_list (conns s) (served_list s) (ys @ a # zs)" and "current_connection s = Some a"
    and "\<not> accept_due e s" and "conns s a = Some c" and "lock_release_event c \<noteq> LOCK_EVENT_BLOCKED"
    and "blocked_head (blocked_lists s) = None" and "connection_proc (te_conn e) c (sworld s) = Inr (c', w', r)"
    and "r \<noteq> RESULT_READ_BLOCKED" and "r \<noteq> RESULT_WRITE_BLOCKED"
  shows "\<exists>s'. cache_server_proc (Suc fuel) e s = Inr s' \<and> sworld s' = w' \<and>
    conn_list (conns s') (served_list s') (turn_list r ys a zs) \<and>
    current_connection s' = turn_current r ys a zs \<and>
    (current_connection s' = None \<longleftrightarrow> turn_list r ys a zs = []) \<and>
    same_payload ((conns s)(a := if r = RESULT_DISCONNECT then None else Some c')) (conns s') \<and>
    closed_descriptors s' = closed_descriptors s @ turn_closed r c'"
proof -
  obtain h ctx where "cache_server_proc (Suc fuel) e s =
      Inr (s\<lparr>sworld := w', conns := h, served_list := ctx, current_connection := turn_current r ys a zs,
             closed_descriptors := closed_descriptors s @ turn_closed r c'\<rparr>)"
    "conn_list h ctx (turn_list r ys a zs)"
    "same_payload ((conns s)(a := if r = RESULT_DISCONNECT then None else Some c')) h"
    using round_outcome [OF assms] .
  moreover have "turn_current r ys a zs = None \<longleftrightarrow> turn_list r ys a zs = []"
    by (cases r) (auto simp: turn_current_def turn_list_def first_of_def split: list.splits)
  ultimately show ?thesis by simp
qed

text \<open>The server opens with an empty cache and no client, and accepting its first client leaves it with
  one connection that waits for a request: the state in which \<open>server_refines_map\<close> starts.\<close>

theorem server_starts_empty:
  assumes "cache_server_open fuel oe s = Inr (s1, 0)" and "oe_map_allocs oe = (True, True)"
    and "configuration_get_int (oe_options oe) ENTRY_CAPACITY_BYTES = Inr (int capacity)"
    and "header_size \<le> capacity" and "capacity < 2 ^ 32" and "memory_wf (w_mem (sworld s))"
    and "blocked_head (blocked_lists s) = None" and "accepts_client e fd"
  shows "\<exists>s2. cache_server_proc fuel e s1 = Inr s2 \<and> server_inv K (next_block (w_mem (sworld s))) fd s2 \<and>
    server_view fd s2 = (Map.empty, w_sent (sworld s) fd)"
proof -
  obtain st where o: "sworld s1 = (sworld s)\<lparr>w_store := st\<rparr>" "contents (sworld s1) = Map.empty"
    "world_ok K (next_block (w_mem (sworld s))) (sworld s1) []" "conn_list (conns s1) (served_list s1) []"
    "current_connection s1 = None" "blocked_lists s1 = blocked_lists s"
    using open_world [OF assms(1-6)] by blast
  have "blocked_head (blocked_lists s1) = None" using o(6) assms(7) by simp
  from accept_first [OF assms(8) o(4,5) this, of fuel]
  obtain s2 c where "cache_server_proc fuel e s1 = Inr s2" "client_of s2 (te_address e) c"
    "sworld s2 = sworld s1" "idle c" "file_descriptor c = fd"
    by blast
  moreover have "w_sent (sworld s1) fd = w_sent (sworld s) fd" using o(1) by simp
  ultimately show ?thesis
    using o(2,3) by (auto simp: server_inv_def session_inv_def server_view_def)
qed

text \<open>C6. The loop of the program refines the map: with one client, a list of requests each of which is ready
  when its turn comes leaves the cache with the contents, and the client with the bytes, that the
  requests have on the map. A request is ready when it asks to keep the connection, is admissible in the
  sense of \<open>request_refines_map\<close> (nothing is evicted, keys from a set without hash collisions, room in the
  table, a lock counter below its capacity), and its parts and its answer are transferred completely
  (none of them is empty); the pieces of these transfers, their spreading over rounds and the rounds in
  between that look for other clients and find none are arbitrary.\<close>

theorem server_refines_map:
  assumes "server_inv K b fd s" and "all_ready (server_ready K fd) (server_step (Suc fuel)) xs s"
  shows "\<exists>s'. run_all (server_step (Suc fuel)) xs s = Inr s' \<and> server_inv K b fd s' \<and>
    server_view fd s' = fold (\<lambda>x. exchange_spec (fst x)) xs (server_view fd s)"
  using assms by (rule program.run_refines)

section \<open>A sample run\<close>

definition sample_open :: open_env where
  "sample_open = \<lparr>oe_options = fill_defaults cleared_context, oe_map_allocs = (True, True), oe_queue_alloc = True,
     oe_socket = 3, oe_getfl = \<lambda>_. 0, oe_setfl = \<lambda>_. 0, oe_bind = \<lambda>_ _ _. 0, oe_listen = \<lambda>_ _. 0\<rparr>"

definition sample_server :: server where
  "sample_server = \<lparr>current_connection = None, last_accept_timestamp = 0, listen_file_descriptor = 0,
     conns = Map.empty, served_list = fst connection_list_open,
     blocked_lists = \<lparr>blocked_head = None, nodes = Map.empty, next_node = 0\<rparr>,
     sworld = \<lparr>w_store = start_store, w_sent = \<lambda>_. []\<rparr>, closed_descriptors = []\<rparr>"

definition sample_round :: "int io \<Rightarrow> env \<Rightarrow> turn_env" where
  "sample_round client e = \<lparr>te_time = (0, 0), te_accept_time = (0, 0), te_accept = client, te_address = 0,
     te_alloc = True, te_getfl = 0, te_setfl = 0, te_junk = sample_connection, te_node_alloc = True, te_conn = e\<rparr>"

lemma default_int:
  assumes "default_values ! type_index t = int64_bytes v" and "- (2 ^ 63) \<le> v" and "v < 2 ^ 63"
  shows "configuration_get_int (fill_defaults cleared_context) t = Inr v"
  using assms int64_bytes_read [of v] fill_defaults_nth [OF type_index_less, of cleared_context t]
  by (simp only: configuration_get_int_def cleared_context_simps option.case) simp

lemma sample_opens:
  obtains s where "cache_server_open 1 sample_open sample_server = Inr (s, 0)"
proof -
  obtain hm :: "ptr hashmap" where hm: "hashmap_new (True, True) 0 0 0 = Inr (Some hm)" using hashmap_new_0 by blast
  have "configuration_get_int (fill_defaults cleared_context) ENTRY_CAPACITY_BYTES = Inr 1048576"
    "configuration_get_int (fill_defaults cleared_context) PORT = Inr 8888"
    by (rule default_int; simp add: default_values_def)+
  then have "\<exists>s. cache_server_open 1 sample_open sample_server = Inr (s, 0)"
    using hm by (simp add: cache_server_open_def sample_open_def open_modules_def connection_list_open_def
        entry_hash_map_open_def memory_queue_open_def malloc_block_def)
  then show ?thesis using that by blast
qed

lemma sample_start:
  "oe_map_allocs sample_open = (True, True)"
  "configuration_get_int (oe_options sample_open) ENTRY_CAPACITY_BYTES = Inr (int 1048576)"
  "memory_wf (w_mem (sworld sample_server))" "blocked_head (blocked_lists sample_server) = None"
  "next_block (w_mem (sworld sample_server)) = 0" "w_sent (sworld sample_server) 5 = []"
  "accepts_client (sample_round (Done 5) e) 5"
proof -
  show "configuration_get_int (oe_options sample_open) ENTRY_CAPACITY_BYTES = Inr (int 1048576)"
    using default_int [of ENTRY_CAPACITY_BYTES 1048576] by (simp add: sample_open_def default_values_def)
  have "idle sample_connection" by (rule sample_connection_idle)
  then show "accepts_client (sample_round (Done 5) e) 5"
    by (simp add: accepts_client_def sample_round_def idle_def)
qed (simp_all add: sample_open_def sample_server_def start_store_def w_mem_def memory_wf_def)

theorem server_starts_empty_witness:
  "\<exists>s1 s2. cache_server_open 1 sample_open sample_server = Inr (s1, 0) \<and>
     cache_server_proc 1 (sample_round (Done 5) (sample_env [])) s1 = Inr s2 \<and> server_view 5 s2 = (Map.empty, [])"
proof -
  obtain s1 where s1: "cache_server_open 1 sample_open sample_server = Inr (s1, 0)" using sample_opens .
  from server_starts_empty [OF s1 sample_start(1,2) _ _ sample_start(3,4,7), of "sample_env []" "{}"]
  show ?thesis using s1 sample_start(6) by (auto simp: header_size_def)
qed

theorem round_keeps_list_witness:
  "\<exists>s'. cache_server_proc 1 (sample_round Would_block ((sample_env [])\<lparr>env_recv := \<lambda>fd n. Would_block\<rparr>))
      (sample_server\<lparr>conns := [0 \<mapsto> sample_connection\<lparr>next := Some 1\<rparr>, 1 \<mapsto> sample_connection\<lparr>previous := Some 0\<rparr>],
         served_list := \<lparr>list_head = Some 0, list_tail = Some 1, list_count = 2\<rparr>, current_connection := Some 0\<rparr>) =
      Inr s' \<and> conn_list (conns s') (served_list s') [0, 1] \<and> current_connection s' = Some 1"
  (is "\<exists>s'. cache_server_proc 1 ?e ?s = _ \<and> _")
proof -
  let ?c = "sample_connection\<lparr>next := Some 1\<rparr>"
  have links: "previous sample_connection = None" "next sample_connection = None"
    by (simp_all add: sample_connection_def init_request_def)
  have c: "idle ?c" using sample_connection_idle(1) by (simp add: idle_def)
  have "conn_list (conns ?s) (served_list ?s) ([] @ 0 # [1])"
    by (simp add: conn_list_def first_of_def last_of_def links)
  moreover have "\<not> accept_due ?e ?s" by (simp add: accept_due_def sample_round_def sample_server_def time_get_timestamp_def ACCEPT_PERIOD_def)
  moreover have "connection_proc (te_conn ?e) ?c (sworld ?s) = Inr (?c, sworld ?s, RESULT_NO_TRANSFER)"
    using c by (simp add: connection_proc_def connection_transfer_def socket_call_def idle_def receiving_def sample_round_def)
  moreover have "lock_release_event ?c \<noteq> LOCK_EVENT_BLOCKED" using c by (simp add: idle_def)
  moreover have "blocked_head (blocked_lists ?s) = None" by (simp add: sample_server_def)
  ultimately show ?thesis
    using round_keeps_list [of ?s "[]" 0 "[1]" ?e ?c ?c "sworld ?s" RESULT_NO_TRANSFER 0]
    by (auto simp: turn_list_def turn_current_def)
qed

theorem server_refines_map_witness:
  "\<exists>s s' s''. cache_server_open 1 sample_open sample_server = Inr (s, 0) \<and>
     cache_server_proc 1 (sample_round (Done 5) (sample_env [])) s = Inr s' \<and>
     run_all (server_step 1) [(sample_put, map (sample_round Would_block) (ex_in sample_put @ ex_out sample_put))] s' =
       Inr s'' \<and> server_view 5 s'' = ([[97] \<mapsto> [98]], [1])"
  (is "\<exists>s s' s''. _ \<and> _ \<and> run_all _ [?x] _ = _ \<and> _")
proof -
  obtain s where s: "cache_server_open 1 sample_open sample_server = Inr (s, 0)" using sample_opens .
  obtain st where o: "sworld s = (sworld sample_server)\<lparr>w_store := st\<rparr>" "contents (sworld s) = Map.empty"
    "world_ok {[97]} 0 (sworld s) []" "index_room (index_of (sworld s))"
    "queue st = \<lparr>buffer = Ptr 0 0, entry_count = 0, occupied_bytes = 0, capacity_bytes = 1048576, read_index = 0, write_index = 0\<rparr>"
    "conn_list (conns s) (served_list s) []" "current_connection s = None" "blocked_lists s = blocked_lists sample_server"
    by (rule open_world [OF s sample_start(1,2) _ _ sample_start(3), of "{[97]}", unfolded sample_start(5)])
       (simp_all add: header_size_def)
  have "blocked_head (blocked_lists s) = None" using o(8) sample_start(4) by simp
  from accept_first [OF sample_start(7) o(6,7) this, of 1 "sample_env []"]
  obtain s' c where s': "cache_server_proc 1 (sample_round (Done 5) (sample_env [])) s = Inr s'" "client_of s' 0 c"
    "sworld s' = sworld s" "idle c" "file_descriptor c = 5" "last_accept_timestamp s' = 0"
    by (auto simp: sample_round_def time_get_timestamp_def)
  have inv: "server_inv {[97]} 0 5 s'"
    using s'(2-5) o(3) by (auto simp: server_inv_def session_inv_def)
  have "allocation_fits (w_store (sworld s)) 18"
    using o(1,5) by (simp add: allocation_fits_def must_clean_def header_size_def)
  then have "admissible {[97]} (sworld s) (ex_request sample_put)"
    using o(3,4) put_sample [of "sworld s"] by blast
  then have "exchange_ready {[97]} 5 sample_put (x, sworld s')" for x
    using s'(3) sample_sent(1) sample_headers(3) sample_taken [of "[[response_code RESPONSE_OK]]"]
    by (simp add: exchange_ready_def sample_put_def)
  moreover have "turns_of 0 (map (sample_round Would_block) es) = es" for es
    by (induction es) (simp_all add: sample_round_def time_get_timestamp_def ACCEPT_PERIOD_def)
  ultimately have "all_ready (server_ready {[97]} 5) (server_step (Suc 0)) [?x] s'"
    using s'(6) unfolding server_ready_def all_ready.simps fst_conv snd_conv
    by (auto simp: nobody_calls_def sample_round_def simp del: map_append)
  with inv obtain s'' where "run_all (server_step (Suc 0)) [?x] s' = Inr s''"
    "server_view 5 s'' = exchange_spec sample_put (server_view 5 s')"
    using server_refines_map [of "{[97]}" 0 5 s' 0 "[?x]"] by auto
  moreover have "server_view 5 s' = (Map.empty, [])"
    using s'(3) o(1,2) sample_start(6) by (simp add: server_view_def)
  ultimately show ?thesis using s s'(1) by (auto simp: exchange_spec_def sample_put_def)
qed

end
