(* ===== verification/Waiting.thy ===== *)
theory Waiting
  imports ServerRounds
begin

text \<open>
  Connections that have to wait for an entry: adding them to the lists of \<open>BlockedConnections\<close>, waking
  the last one of a list, and what becomes of the server that has such a connection.
\<close>

section \<open>Adding to the lists\<close>

text \<open>The list for a first waiting connection.\<close>

lemma init_waiting:
  assumes "h a = Some c"
  shows "blocked_connection_list_init True h (Some a) t =
    Inr (h(a \<mapsto> c\<lparr>previous := None, next := None\<rparr>),
         Some \<lparr>b_next = None, b_head = Some a, b_tail = Some a, b_entry = conn_entry c, b_size = 1, b_type = t\<rparr>)"
  using assms by (simp add: blocked_connection_list_init_def connection_get_entry_header_def)

lemma add_loop_matching:
  assumes "ns x = Some l" and "h a = Some c" and "b_type l = t \<and> b_entry l = conn_entry c"
    and "b_tail l = Some z" and "h z \<noteq> None"
  shows "add_loop fuel h ns (Some x) (Some a) t = Inl No_return"
  using assms
proof (induction fuel arbitrary: h ns l c z)
  case (Suc fuel)
  obtain ct where ct: "h z = Some ct" using Suc.prems(5) by blast
  define h1 where "h1 = h(a \<mapsto> c\<lparr>next := None, previous := None\<rparr>)"
  obtain c1 where c1: "h1 z = Some c1" "a = z \<longrightarrow> conn_entry c1 = conn_entry c"
    using ct by (cases "a = z") (simp_all add: h1_def)
  define h2 where "h2 = h1(z \<mapsto> c1\<lparr>next := Some a\<rparr>)"
  have app: "blocked_connection_list_append h l (Some a) = Inr (h2, l\<lparr>b_tail := Some a, b_size := b_size l + 1\<rparr>)"
    using Suc.prems(2,4) c1 by (simp add: blocked_connection_list_append_def h2_def h1_def)
  obtain c2 where c2: "h2 a = Some c2" "conn_entry c2 = conn_entry c"
    using c1 by (cases "a = z") (auto simp: h2_def h1_def)
  define ns1 where "ns1 = ns(x \<mapsto> l\<lparr>b_tail := Some a, b_size := b_size l + 1\<rparr>)"
  have "add_loop fuel h2 ns1 (Some x) (Some a) t = Inl No_return"
    by (rule Suc.IH [where l = "l\<lparr>b_tail := Some a, b_size := b_size l + 1\<rparr>" and c = c2 and z = a]) (use Suc.prems(3) c2 in \<open>simp_all add: ns1_def\<close>)
  then show ?case
    using Suc.prems(1-3) app by (simp add: node_at_def connection_get_entry_header_def ns1_def)
qed simp

lemma add_loop_other:
  assumes "ns x = Some l" and "h a = Some c" and "\<not> (b_type l = t \<and> b_entry l = conn_entry c)"
  shows "add_loop fuel h ns (Some x) (Some a) t = Inl No_return"
  using assms by (induction fuel) (auto simp: node_at_def connection_get_entry_header_def)

text \<open>C34. \<open>blocked_connections_add\<close> returns if and only if no connection waits yet: its loop over the lists
  does not advance, so with the first list, matching or not, it runs forever.\<close>

theorem blocked_add_returns_iff:
  assumes "h a = Some c"
    and "\<forall>x. blocked_head b = Some x \<longrightarrow> (\<exists>l z. nodes b x = Some l \<and> b_tail l = Some z \<and> h z \<noteq> None)"
  shows "(\<exists>fuel r. blocked_connections_add fuel True h b (Some a) t = Inr r) \<longleftrightarrow> blocked_head b = None"
proof (cases "blocked_head b")
  case None
  obtain h' l where "blocked_connection_list_init True h (Some a) t = Inr (h', Some l)"
    using init_waiting [of h a c t] assms(1) by simp
  then have "blocked_connections_add 1 True h b (Some a) t =
      Inr (h', b\<lparr>blocked_head := Some (next_node b), nodes := (nodes b)(next_node b \<mapsto> l\<lparr>b_next := None\<rparr>),
              next_node := Suc (next_node b)\<rparr>)"
    using None by (simp add: blocked_connections_add_def Let_def)
  then show ?thesis using None by blast
next
  case (Some x)
  obtain l z where l: "nodes b x = Some l" "b_tail l = Some z" "h z \<noteq> None"
    using assms(2) Some by blast
  have "add_loop fuel h (nodes b) (Some x) (Some a) t = Inl No_return" for fuel
    using add_loop_matching [of "nodes b" x l h a c t z fuel] add_loop_other [of "nodes b" x l h a c t fuel] l assms(1)
    by blast
  then show ?thesis using Some by (simp add: blocked_connections_add_def)
qed

theorem blocked_add_returns_iff_witness:
  "\<forall>fuel r. blocked_connections_add fuel True (\<lambda>_. Some sample_connection)
     \<lparr>blocked_head = Some 0, nodes = [0 \<mapsto> \<lparr>b_next = None, b_head = Some 1, b_tail = Some 1, b_entry = Ptr 0 0,
        b_size = 1, b_type = BLOCK_WRITE\<rparr>], next_node = 1\<rparr> (Some 2) BLOCK_READ \<noteq> Inr r"
  using blocked_add_returns_iff [of "\<lambda>_. Some sample_connection" 2 sample_connection
      "\<lparr>blocked_head = Some 0, nodes = [0 \<mapsto> \<lparr>b_next = None, b_head = Some 1, b_tail = Some 1, b_entry = Ptr 0 0,
        b_size = 1, b_type = BLOCK_WRITE\<rparr>], next_node = 1\<rparr>" BLOCK_READ]
  by auto

section \<open>Waking from a list that is not the first\<close>

text \<open>When the last connection of a list that has a predecessor is woken, \<open>blocked_connections_pop\<close> frees the node
  of the list but leaves it linked. The next call that comes to it, for whatever entry, uses freed memory.\<close>

theorem pop_leaves_freed_node_linked:
  assumes "blocked_head b = Some x" and "nodes b x = Some l" and "\<not> (b_type l = t \<and> b_entry l = p)"
    and "b_next l = Some y" and "nodes b y = Some l'" and "b_type l' = t" and "b_entry l' = p"
    and "b_size l' = 1" and "b_head l' = Some a" and "h a \<noteq> None" and "\<not> (b_type l = t' \<and> b_entry l = p')"
  shows "blocked_connections_pop (Suc (Suc fuel)) h b p t = Inr (b\<lparr>nodes := (nodes b)(y := None)\<rparr>, Some a) \<and>
    blocked_connections_pop (Suc (Suc fuel)) h (b\<lparr>nodes := (nodes b)(y := None)\<rparr>) p' t' = Inl Bad_access"
proof -
  have "x \<noteq> y" using assms(2,3,5-7) by auto
  then show ?thesis
    using assms by (auto simp: blocked_connections_pop_def node_at_def blocked_connection_list_pop_def
        blocked_connection_list_deinit_def Let_def)
qed

section \<open>Waiting and the server\<close>

text \<open>A handler that reports that the connection has to wait leaves it in a state without transfers.\<close>

lemma handlers_not_blocked:
  "attempt_memory_read c w = Inr (c', w', RESULT_READ_BLOCKED) \<Longrightarrow> conn_state c' = AWAITING_READ_UNBLOCK"
  "attempt_memory_read c w \<noteq> Inr (c', w', RESULT_WRITE_BLOCKED)"
  "attempt_memory_write e c w = Inr (c', w', RESULT_WRITE_BLOCKED) \<Longrightarrow> conn_state c' = AWAITING_WRITE_UNBLOCK"
  "attempt_memory_write e c w \<noteq> Inr (c', w', RESULT_READ_BLOCKED)"
  "snd (finish_request c) = RESULT_NEW_REQUEST \<or> snd (finish_request c) = RESULT_DISCONNECT"
  by (auto simp: attempt_memory_read_def attempt_memory_write_def finish_request_def Let_def
      elim!: bindE_InrE split: if_splits prod.splits)

lemma sent_not_blocked:
  "event_sent_header c w = Inr (c', w', r) \<Longrightarrow> r \<notin> {RESULT_READ_BLOCKED, RESULT_WRITE_BLOCKED}"
  "event_sent_body c w = Inr (c', w', r) \<Longrightarrow> r \<notin> {RESULT_READ_BLOCKED, RESULT_WRITE_BLOCKED}"
  by (auto simp: event_sent_header_def event_sent_body_def finish_request_def Let_def
      elim!: bindE_InrE split: if_splits option.splits)

lemma proc_blocked:
  assumes "connection_proc e c w = Inr (c', w', r)" and "r \<in> {RESULT_READ_BLOCKED, RESULT_WRITE_BLOCKED}"
  shows "\<not> receiving (conn_state c') \<and> \<not> sending (conn_state c')"
proof -
  obtain c1 w1 where "dispatch e c1 w1 = Inr (c', w', r)"
    using assms by (auto simp: connection_proc_def connection_transfer_def socket_failure_def
        elim!: bindE_InrE split: if_splits io.splits)
  then consider (args) "event_received_arguments e c1 w1 = Inr (c', w', r)"
    | (body) "event_received_body e c1 w1 = Inr (c', w', r)"
    using assms(2) sent_not_blocked by (auto simp: dispatch_def split: connection_state.splits)
  then have "conn_state c' \<in> {AWAITING_READ_UNBLOCK, AWAITING_WRITE_UNBLOCK}"
  proof cases
    case args
    then have "attempt_memory_write e c1 w1 = Inr (c', w', r)"
      using assms(2) by (auto simp: event_received_arguments_def allocate_key_def Let_def elim!: bindE_InrE
          split: option.splits request_type.splits prod.splits if_splits)
    then show ?thesis using assms(2) handlers_not_blocked(3,4) by auto
  next
    case body
    then obtain c2 w2 where "attempt_memory_read c2 w2 = Inr (c', w', r)"
      using assms(2) by (auto simp: event_received_body_def Let_def elim!: bindE_InrE
          split: option.splits request_type.splits)
    then show ?thesis using assms(2) handlers_not_blocked(1,2) by auto
  qed
  then show ?thesis by (auto simp: receiving_def sending_def)
qed

lemma add_first_waiter:
  assumes "blocked_head (blocked_lists s) = None" and "te_node_alloc e" and "conns s a = Some c"
  shows "\<exists>b. server_add_blocked (Suc fuel) e s (Some a) t =
      Inr (s\<lparr>conns := (conns s)(a \<mapsto> c\<lparr>previous := None, next := None\<rparr>), blocked_lists := b\<rparr>) \<and>
    blocked_head b \<noteq> None"
  using assms by (simp add: server_add_blocked_def blocked_connections_add_def blocked_connection_list_init_def
      connection_get_entry_header_def Let_def) (rule exI, rule conjI, rule refl, simp)

lemma waiting_round_faults:
  assumes "current_connection s = Some a" and "conns s a = Some c" and "next c = None"
    and "\<not> receiving (conn_state c)" and "\<not> sending (conn_state c)" and "\<not> accept_due e s"
  shows "cache_server_proc fuel e s = Inl Assert_failed"
  using assms by (simp add: cache_server_proc_def get_next_connection_def on_connection_def connection_proc_def
      connection_transfer_def socket_call_def)

text \<open>C33. A connection that has to wait stops the server: it is taken out of the served connections and put
  on a list of waiting ones, but it stays the current connection, so that the next round that is not
  for accepting gives it a turn in which it can transfer nothing, and fails the assertion of the
  transfer.\<close>

theorem waiting_connection_stops_server:
  assumes "conn_list (conns s) (served_list s) (ys @ a # zs)" and "current_connection s = Some a"
    and "\<not> accept_due e s" and "conns s a = Some c" and "lock_release_event c \<noteq> LOCK_EVENT_BLOCKED"
    and "blocked_head (blocked_lists s) = None" and "connection_proc (te_conn e) c (sworld s) = Inr (c', w', r)"
    and "r = RESULT_READ_BLOCKED \<or> r = RESULT_WRITE_BLOCKED" and "te_node_alloc e"
  shows "\<exists>s'. cache_server_proc (Suc fuel) e s = Inr s' \<and> conn_list (conns s') (served_list s') (ys @ zs) \<and>
    current_connection s' = Some a \<and> blocked_head (blocked_lists s') \<noteq> None \<and>
    (\<forall>e'. \<not> accept_due e' s' \<longrightarrow> cache_server_proc fuel' e' s' = Inl Assert_failed)"
proof -
  define s1 where "s1 = s\<lparr>conns := (conns s)(a \<mapsto> c'), sworld := w'\<rparr>"
  note t = proc_turn [OF assms(1-7), folded s1_def]
  obtain h ctx where rm: "remove_current s1 = Inr (s1\<lparr>conns := h, served_list := ctx\<rparr>)" "conn_list h ctx (ys @ zs)"
    "h a = Some c'"
    using remove_current_ok [OF t(2,3)] t(4) by metis
  let ?t = "if r = RESULT_READ_BLOCKED then BLOCK_READ else BLOCK_WRITE" and ?s = "s1\<lparr>conns := h, served_list := ctx\<rparr>"
  let ?h = "h(a \<mapsto> c'\<lparr>previous := None, next := None\<rparr>)"
  have "finish_turn (Suc fuel) e (Some (hd (zs @ ys @ [a]))) r s1 = server_add_blocked (Suc fuel) e ?s (Some a) ?t"
    using assms(8) rm(1) t(3) by (auto simp: finish_turn_def)
  moreover obtain b where "server_add_blocked (Suc fuel) e ?s (Some a) ?t = Inr (?s\<lparr>conns := ?h, blocked_lists := b\<rparr>)"
    "blocked_head b \<noteq> None"
    using add_first_waiter [of ?s e a c' fuel ?t] assms(6,9) rm(3) by (auto simp: s1_def)
  ultimately have "cache_server_proc (Suc fuel) e s = Inr (?s\<lparr>conns := ?h, blocked_lists := b\<rparr>)"
    using t(1) by simp
  moreover have "conn_list ?h ctx (ys @ zs)"
    using conn_list_cong [OF rm(2), of ?h] assms(1) by (auto simp: conn_list_def)
  moreover have "\<not> receiving (conn_state c')" "\<not> sending (conn_state c')"
    using proc_blocked [OF assms(7)] assms(8) by auto
  then have "cache_server_proc fuel' e' (?s\<lparr>conns := ?h, blocked_lists := b\<rparr>) = Inl Assert_failed"
    if "\<not> accept_due e' (?s\<lparr>conns := ?h, blocked_lists := b\<rparr>)" for e'
    using that t(3) by (intro waiting_round_faults [of _ a "c'\<lparr>previous := None, next := None\<rparr>"]) simp_all
  ultimately show ?thesis using t(3) \<open>blocked_head b \<noteq> None\<close> by auto
qed

text \<open>A writer on a full buffer whose first entry is being read.\<close>

definition full_world :: world where
  "full_world = \<lparr>w_store = \<lparr>mem = put_header \<lparr>next_block = 1, block_size = [0 \<mapsto> 64], bytes = \<lambda>_ _. 0\<rparr> (Ptr 0 0)
       \<lparr>active = False, end_of_buffer = False, expiry = 0, value_size = 48, key_size = 0, locks = 1\<rparr>,
     index_ctx = \<lparr>hashmap_of = None\<rparr>,
     queue = \<lparr>buffer = Ptr 0 0, entry_count = 1, occupied_bytes = 64, capacity_bytes = 64, read_index = 0, write_index = 0\<rparr>\<rparr>,
     w_sent = \<lambda>_. []\<rparr>"

lemma full_blocks:
  "memory_queue_allocate allocs 1 1 t out (w_store full_world) =
     Inr (w_store full_world, MEMORY_QUEUE_WRITE_BLOCKED, Ptr 0 0)"
proof -
  have "force_clean allocs (w_store full_world) = Inr (w_store full_world, MEMORY_QUEUE_WRITE_BLOCKED)"
    by (simp add: force_clean_def remove_entry_def full_world_def load_header_in_bounds load_bit_fields_in_bounds header_size_def Let_def)
  then have "clean_while (must_clean 18) allocs (w_store full_world) = Inr (w_store full_world, MEMORY_QUEUE_WRITE_BLOCKED)"
    by (simp add: clean_while.simps must_clean_def) (simp add: full_world_def add64_def)
  then show ?thesis
    by (simp add: memory_queue_allocate_def Let_def total_size_def wrap32_def header_size_def)
       (simp add: full_world_def add64_def)
qed

theorem waiting_connection_stops_server_witness:
  "\<exists>s e e' s'. cache_server_proc 1 e s = Inr s' \<and> \<not> accept_due e' s' \<and> cache_server_proc 1 e' s' = Inl Assert_failed"
proof -
  let ?data = "encode_key_value_arguments \<lparr>kv_key_size = 1, kv_value_size = 1\<rparr>"
  let ?c0 = "header_arrived sample_connection (sample_request 1 REQUEST_PUT)"
  let ?c = "receive_arguments 6 ?c0" and ?e = "sample_round Would_block (sample_env ?data)"
  let ?s = "sample_server\<lparr>conns := [0 \<mapsto> ?c], served_list := \<lparr>list_head = Some 0, list_tail = Some 0, list_count = 1\<rparr>,
      current_connection := Some 0, sworld := full_world\<rparr>"
  have idle: "idle sample_connection" by (rule sample_connection_idle)
  have len: "length ?data = 6" "?data \<noteq> []" using key_value_wire.length_enc [of "\<lparr>kv_key_size = 1, kv_value_size = 1\<rparr>"]
    by (auto simp: wire_sizes)
  let ?c1 = "?c\<lparr>arguments_union := ?data\<rparr>"
  have "buffer_store ?c full_world ?data = Inr (?c1, full_world)"
    using idle len by (simp add: buffer_store_def overwrite_def receive_arguments_def idle_def wire_sizes)
  from receive_step [of ?c ?data 0 "te_conn ?e", OF _ _ _ _ this]
  have run: "connection_proc (te_conn ?e) ?c (sworld ?s) = dispatch (te_conn ?e) (advance 6 ?c1) full_world"
    using len by (simp add: receive_arguments_def receiving_def sample_round_def sample_env_def)
  have "key_value_arguments_of (advance 6 ?c1) = \<lparr>kv_key_size = 1, kv_value_size = 1\<rparr>"
    using key_value_wire.dec_enc by (simp add: key_value_arguments_of_def)
  then have held: "attempt_memory_write (te_conn ?e) (advance 6 ?c1) full_world =
      Inr ((advance 6 ?c1)\<lparr>conn_entry := Ptr 0 0, conn_state := AWAITING_WRITE_UNBLOCK\<rparr>, full_world, RESULT_WRITE_BLOCKED)"
    using full_blocks sample_options [of ?data]
    by (auto simp: attempt_memory_write_def expiry_configured_def sample_round_def)
  have "request_of (advance 6 ?c1) = sample_request 1 REQUEST_PUT"
    using request_wire.dec_enc by (simp add: request_of_def receive_arguments_def wire_sizes)
  moreover have st: "conn_state (advance 6 ?c1) = RECEIVING_ARGUMENTS" by (simp add: receive_arguments_def)
  ultimately have "dispatch (te_conn ?e) (advance 6 ?c1) full_world = attempt_memory_write (te_conn ?e) (advance 6 ?c1) full_world"
    using is_request_type [OF sample_headers(1)]
    by (simp only: dispatch_def event_received_arguments_def st connection_state.case option.case request_type.case)
  with run held have proc: "connection_proc (te_conn ?e) ?c (sworld ?s) =
      Inr ((advance 6 ?c1)\<lparr>conn_entry := Ptr 0 0, conn_state := AWAITING_WRITE_UNBLOCK\<rparr>, full_world, RESULT_WRITE_BLOCKED)"
    by simp
  have "place ?c = place sample_connection" by (simp add: place_def receive_arguments_def header_arrived_def advance_def)
  then have "previous ?c = None" "next ?c = None"
    by (simp_all add: place_def sample_connection_def init_request_def)
  then have "conn_list (conns ?s) (served_list ?s) ([] @ 0 # [])" by (simp add: conn_list_def last_of_def)
  moreover have "\<not> accept_due ?e ?s" and "blocked_head (blocked_lists ?s) = None"
    by (simp_all add: accept_due_def sample_round_def sample_server_def time_get_timestamp_def ACCEPT_PERIOD_def)
  moreover have "lock_release_event ?c \<noteq> LOCK_EVENT_BLOCKED" using idle by (simp add: idle_def)
  ultimately obtain s' where "cache_server_proc 1 ?e ?s = Inr s'" "current_connection s' = Some 0"
    "\<forall>e'. \<not> accept_due e' s' \<longrightarrow> cache_server_proc 1 e' s' = Inl Assert_failed"
    using waiting_connection_stops_server [of ?s "[]" 0 "[]" ?e ?c _ _ _ 0 1] proc by (auto simp: sample_round_def)
  moreover from this(2) have "\<not> accept_due (?e\<lparr>te_time := (0, uint (last_accept_timestamp s'))\<rparr>) s'"
    by (simp add: accept_due_def time_get_timestamp_def ACCEPT_PERIOD_def)
  ultimately show ?thesis by blast
qed

end
