(* ===== verification/StaleIndex.thy ===== *)
theory StaleIndex
  imports Sessions
begin

text \<open>
  What becomes of the index when the memory queue evicts an entry: nothing. The pointer stays, and a lookup of
  the evicted key ends at whatever lies there by then (\<open>evicted_key_finds_other_entry\<close>).
\<close>

section \<open>Lookup with another memory\<close>

text \<open>The loop stops at the only item with the hash when the comparison with it says equal.\<close>

lemma find_loop_only_item:
  assumes "find_loop fuel compare mk bs h x i = Inr (Some j)" and "mask_of n mk" and "i < n" and "n \<le> length bs"
    and "\<forall>i<n. dib (bs ! i) \<noteq> 0 \<longrightarrow> b_hash (bs ! i) = h \<longrightarrow> b_item (bs ! i) = p" and "compare' y p = Inr 0"
  shows "\<exists>j. find_loop fuel compare' mk bs h y i = Inr (Some j) \<and> j < length bs \<and> b_item (bs ! j) = p"
  using assms(1,3)
proof (induction fuel arbitrary: i)
  case (Suc fuel)
  have i: "i < length bs" "dib (bs ! i) \<noteq> 0" using Suc.prems assms(4) by (auto simp: bucket_at_def)
  show ?case
  proof (cases "b_hash (bs ! i) = h")
    case True
    then have "b_item (bs ! i) = p" using assms(5) Suc.prems(2) i(2) by blast
    then show ?thesis using True i assms(6) by (simp add: bucket_at_def)
  next
    case False
    have "(i + 1) AND mk < n"
      using mask_of_mod [OF assms(2), of "i + 1"] mask_of_ge_2 [OF assms(2)] by simp
    moreover have "find_loop fuel compare mk bs h x ((i + 1) AND mk) = Inr (Some j)"
      using Suc.prems(1) False i by (simp add: bucket_at_def)
    ultimately show ?thesis using Suc.IH False i by (simp add: bucket_at_def)
  qed
qed simp

text \<open>A key is never told apart from a longer one.\<close>

lemma entry_compare_shorter:
  assumes "entry_readable m p" and "entry_readable m q" and "length (entry_key m p) < unat (key_size (header_at m q))"
  shows "entry_compare m p q = Inr 0"
proof -
  note b = entry_readable_bounds [OF assms(1)] entry_readable_bounds [OF assms(2)]
  have "key_size (header_at m p) < key_size (header_at m q)"
    using assms(3) length_entry_key [OF assms(1)] by (simp add: word_less_nat_alt)
  then have "key_size (header_at m p) \<noteq> key_size (header_at m q)" "\<not> key_size (header_at m q) < key_size (header_at m p)"
    by (simp_all add: not_less_iff_gr_or_eq)
  then show ?thesis using b by (simp add: entry_compare_def result_simps)
qed

lemma stale_lookup:
  assumes I: "index_wf K (m, ctx)" and ix: "index_map (m, ctx) k = Some p"
    and p: "entry_readable m' p" "length k < unat (key_size (header_at m' p))"
    and q: "entry_readable m' q" "entry_key m' q = k"
  shows "entry_hash_map_get m' ctx q = Inr p"
proof -
  obtain hm where hm: "hashmap_of ctx = Some hm"
    "hashmap_wf (entry_ok m K) (\<lambda>p. key_hash (entry_key m p)) (entry_key m) 0 0 hm"
    "index_map (m, ctx) = hashmap_map (entry_key m) hm"
    using index_wfD [OF I] by auto
  let ?n = "nbuckets hm" and ?bs = "buckets hm" and ?mask = "map_mask hm" and ?h = "key_hash k"
  note wf = hashmap_wfD [OF hm(2)]
  have item: "p \<in> items ?n ?bs" "entry_key m p = k" using ix hashmap_map_Some [OF hm(2)] hm(3) by simp_all
  have ok: "entry_ok m K x" if "x \<in> items ?n ?bs" for x
    using wf(6) that by (auto simp: items_def occupied_def rh_table_def)
  have start: "unat ?h AND ?mask < ?n"
    using mask_of_mod [OF wf(1), of "unat ?h"] mask_of_ge_2 [OF wf(1)] by simp
  have "card (occupied ?n ?bs) < ?n" using wf(7,9) by simp
  from entries.find_loop_correct [OF wf(6,1) ok [OF item(1)] this] item
  obtain r where r: "find_loop ?n (entry_compare m) ?mask ?bs ?h p (unat ?h AND ?mask) = Inr r"
    "case r of None \<Rightarrow> k \<notin> entry_key m ` items ?n ?bs | Some i \<Rightarrow> i < ?n \<and> dib (?bs ! i) \<noteq> 0 \<and> entry_key m (b_item (?bs ! i)) = k"
    by auto
  then obtain j where j: "find_loop ?n (entry_compare m) ?mask ?bs ?h p (unat ?h AND ?mask) = Inr (Some j)"
    using item by (cases r) auto
  have only: "b_item (?bs ! i) = p" if i: "i < ?n" "dib (?bs ! i) \<noteq> 0" "b_hash (?bs ! i) = ?h" for i
  proof -
    let ?x = "b_item (?bs ! i)"
    have x: "?x \<in> items ?n ?bs" using i(1,2) by (auto simp: items_def occupied_def)
    have "b_hash (?bs ! i) = key_hash (entry_key m ?x)" using wf(6) i(1,2) by (simp add: rh_table_def)
    then have "entry_key m ?x = k"
      using i(3) key_universe_inj [of "entry_key m ?x" K k] ok [OF x] ok [OF item(1)] item(2) by (simp add: entry_ok_def)
    then have "hashmap_map (entry_key m) hm k = Some ?x" "hashmap_map (entry_key m) hm k = Some p"
      using x item hashmap_map_Some [OF hm(2)] by blast+
    then show ?thesis by simp
  qed
  have cmp: "entry_compare m' q p = Inr 0"
    using entry_compare_shorter [OF q(1) p(1)] q(2) p(2) by simp
  have "?n \<le> length ?bs" using wf(6) by (simp add: rh_table_def)
  from find_loop_only_item [where compare' = "entry_compare m'" and y = q, OF j wf(1) start this _ cmp] only
  obtain j' where j': "find_loop ?n (entry_compare m') ?mask ?bs ?h q (unat ?h AND ?mask) = Inr (Some j')"
    "j' < length ?bs" "b_item (?bs ! j') = p"
    by blast
  have "get_hash (entry_hash m') (seed0 hm) (seed1 hm) q = Inr ?h"
    using entry_hash_eq [OF q(1)] q(2) wf(2,3) by (simp add: get_hash_def key_hash_def)
  then show ?thesis
    using j' hm(1) by (simp add: entry_hash_map_get_def context_hashmap_def hashmap_get_def bucket_at_def)
qed

section \<open>Eviction\<close>

lemma same_block_entry:
  assumes s: "same_block b m m'"
  shows "entry_readable m' (Ptr b i) = entry_readable m (Ptr b i)" and "entry_key m' (Ptr b i) = entry_key m (Ptr b i)"
proof -
  have "in_bounds m' (Ptr b i) n = in_bounds m (Ptr b i) n" for n using s by (simp add: same_block_def)
  then show "entry_readable m' (Ptr b i) = entry_readable m (Ptr b i)"
    by (simp only: entry_readable_def same_block_header [OF s])
  show "entry_key m' (Ptr b i) = entry_key m (Ptr b i)"
    by (simp add: entry_key_def key_ptr_def same_block_header [OF s] same_block_bytes [OF s] del: raw_bytes.simps)
qed

text \<open>C39. An allocation does not touch the index, whatever it evicts. When a new entry takes the place \<open>x\<close> of an
  evicted one whose key \<open>k\<close> is shorter than the new key \<open>k'\<close>, a request for \<open>k\<close> (its header is in another block)
  finds the new entry, as soon as its key and value have been written: the client is given the value of another key.\<close>

theorem evicted_key_finds_other_entry:
  assumes W: "world_ok K b w es" and ix: "index_map (index_of w) k = Some (Ptr b x)"
    and fit: "header_size + length k' + length v' + header_size < capacity_bytes (queue (w_store w))"
    and k': "length k' < 2 ^ 16" and longer: "length k < length k'"
    and run: "memory_queue_allocate allocs (of_nat (length k')) (of_nat (length v')) expires out (w_store w) =
      Inr (st, MEMORY_QUEUE_SUCCESS, Ptr b x)"
    and q: "b' \<noteq> b" "entry_readable (w_mem w) (Ptr b' i)" "entry_key (w_mem w) (Ptr b' i) = k"
  shows "let m = write_raw (mem st) (Ptr b (x + header_size)) (k' @ v') in
    entry_hash_map_get m (index_ctx st) (Ptr b' i) = Inr (Ptr b x) \<and>
    entry_key m (Ptr b x) = k' \<and> entry_value m (Ptr b x) = v'"
proof -
  let ?m = "write_raw (mem st) (Ptr b (x + header_size)) (k' @ v')" and ?h = "header_at (mem st) (Ptr b x)"
  have Q: "queue_wf b (w_store w) es" using W by (simp add: world_ok_def)
  have "length v' < 2 ^ 32" using fit queue_fieldsD(3) [OF world_okD(2) [OF W]] by simp
  then have sizes: "unat (of_nat (length k') :: u16) = length k'" "unat (of_nat (length v') :: u32) = length v'"
    using k' by (simp_all add: unat_of_nat)
  obtain n where a: "evicted b (w_store w) es n st" "queue_wf b st (drop n es @ [x])"
    "key_size ?h = of_nat (length k')" "value_size ?h = of_nat (length v')"
    using allocate_correct [OF Q, of "of_nat (length k')" "of_nat (length v')" allocs expires out] fit run sizes by auto
  have "in_bounds (mem st) (Ptr b x) (entry_size ?h)"
    using entry_in_bounds(1) [of b st "drop n es @ [x]" x] a(2) by (simp add: queue_wf_def)
  note new = payload_written [OF refl _ _ this, of k' v']
  have "same_block b' (w_mem w) (mem st)" using a(1) q(1) by (simp add: evicted_def)
  also have "same_block b' (mem st) ?m" using q(1) by (simp del: write_raw.simps)
  finally have q': "entry_readable ?m (Ptr b' i)" "entry_key ?m (Ptr b' i) = k"
    using q(2,3) by (simp_all add: same_block_entry)
  have "entry_hash_map_get ?m (index_ctx (w_store w)) (Ptr b' i) = Inr (Ptr b x)"
    by (rule stale_lookup [OF _ _ _ _ q'])
      (use world_okD(3) [OF W] ix new(1,2) a(3,4) sizes longer in \<open>simp_all add: index_of_def\<close>)
  then show ?thesis using new(3,4) a sizes by (simp add: evicted_def Let_def)
qed

text \<open>In a buffer of 1000 bytes, a PUT of 960 bytes under the key \<open>[98, 98]\<close> evicts the entry at offset 0 that holds
  \<open>[98]\<close> under the key \<open>[97]\<close>, and takes its place. A GET of \<open>[97]\<close> finds these 960 bytes.\<close>

lemma second_put_evicts:
  assumes W: "world_ok {[97]} 0 w [0]" and free: "locks (header_at (w_mem w) (Ptr 0 0)) = 0"
    and cap: "capacity_bytes (queue (w_store w)) = 1000"
  shows "\<exists>st. memory_queue_allocate (True, True) 2 960 0 Null (w_store w) = Inr (st, MEMORY_QUEUE_SUCCESS, Ptr 0 0)"
proof -
  have Q: "queue_wf 0 (w_store w) [0]" using W by (simp add: world_ok_def)
  then have "queue_layout (w_mem w) 0 1000 (read_index (queue (w_store w))) (write_index (queue (w_store w))) [0]"
    using queue_fieldsD(7) [of 0 "w_store w" "[0]"] cap by (simp add: queue_wf_def)
  then have "write_index (queue (w_store w)) = 0 \<or> header_size \<le> write_index (queue (w_store w))"
    by (auto simp: queue_layout_def Cons_eq_append_conv)
  then have wi: "x = 0" if "x \<in> {0, write_index (queue (w_store w))}" "x + 994 \<le> 1000" for x
    using that by (auto simp: header_size_def)
  have "header_size + unat (2 :: u16) + unat (960 :: u32) + header_size < capacity_bytes (queue (w_store w))"
    using cap by (simp add: header_size_def)
  from allocate_correct [OF Q this, of "(True, True)" 0 Null]
  show ?thesis
  proof (elim exE conjE disjE)
    fix n st r out x
    assume "memory_queue_allocate (True, True) 2 960 0 Null (w_store w) = Inr (st, r, out)"
      "r = MEMORY_QUEUE_SUCCESS" "out = Ptr 0 x" "x \<in> {0, write_index (queue (w_store w))}"
      "x + (header_size + unat (2 :: u16) + unat (960 :: u32)) + header_size \<le> capacity_bytes (queue (w_store w))"
    then show ?thesis using wi [of x] cap by (simp add: header_size_def)
  next
    fix n st r out
    assume "blocked_at 0 (w_store w) (drop n [0]) st out"
    then show ?thesis using free by (cases n) (simp_all add: blocked_at_def)
  qed
qed

theorem evicted_key_finds_other_entry_witness:
  "\<exists>w st q. contents w [97] = Some [98] \<and> entry_key (w_mem w) q = [97] \<and>
     memory_queue_allocate (True, True) 2 960 0 Null (w_store w) = Inr (st, MEMORY_QUEUE_SUCCESS, Ptr 0 0) \<and>
     (let m = write_raw (mem st) (Ptr 0 header_size) ([98, 98] @ replicate 960 99) in
      entry_hash_map_get m (index_ctx st) q = Inr (Ptr 0 0) \<and> entry_value m (Ptr 0 0) = replicate 960 99)"
proof -
  obtain w where w: "world_ok {[97]} 0 w [0]" "index_map (index_of w) [97] = Some (Ptr 0 0)"
    "locks (header_at (w_mem w) (Ptr 0 0)) = 0" "capacity_bytes (queue (w_store w)) = 1000" "contents w [97] = Some [98]" "w_sent w 5 = [1]"
    by (rule sample_entry)
  let ?w = "set_mem w (key_memory w [97])" and ?b = "next_block (w_mem w)"
  note key = key_memory_same(1,2) [OF w(1), of "[97]"]
  note W = world_other_block [OF w(1) key]
  have b: "?b \<noteq> 0" using world_okD(1,5) [OF w(1)] by (auto simp: memory_wf_def)
  have cap: "capacity_bytes (queue (w_store ?w)) = 1000" using w(4) by (simp add: set_mem_def)
  have "locks (header_at (w_mem ?w) (Ptr 0 0)) = 0" using w(3) same_block_header [OF key(1)] by simp
  then obtain st where st: "memory_queue_allocate (True, True) 2 960 0 Null (w_store ?w) = Inr (st, MEMORY_QUEUE_SUCCESS, Ptr 0 0)"
    using second_put_evicts [OF W(1) _ cap] by blast
  have "header_size + length [98, 98 :: u8] + length (replicate 960 (99 :: u8)) + header_size < capacity_bytes (queue (w_store ?w))"
    using cap by (simp add: header_size_def)
  from evicted_key_finds_other_entry [OF W(1) _ this _ _ _ b, of "[97]" 0 "(True, True)" 0 Null st 0]
  show ?thesis using w(2,5) W(2,3) st key_memory_entry [of "[97]" w]
    by (intro exI [of _ ?w] exI [of _ st] exI [of _ "Ptr ?b 0"]) (simp add: Let_def del: write_raw.simps)
qed

end
