(* ===== verification/ClientStates.thy ===== *)
theory ClientStates
  imports ServerRounds
begin

text \<open>
  Many clients at once: what a connection in the middle of a request relies on while other connections
  have their turns. \<open>conn_ok\<close> is the consistency of one connection with the cache, \<open>got\<close> the part of its
  request that has arrived, \<open>owed\<close> the part of its answer that has not been sent; \<open>parse_request\<close> and
  \<open>feed\<close> are the cache as its clients see it, a map that is fed with bytes.
\<close>

section \<open>The cache as its clients see it\<close>

datatype parsed = Partial | Refused response_type | Full cache_request

text \<open>The request that the bytes of one client make up, when they make up one.\<close>

definition parse_key :: "(u8 list \<Rightarrow> cache_request) \<Rightarrow> u8 list \<Rightarrow> parsed" where
  "parse_key req bs =
     (let n = unat (arg_key_size (decode_key_arguments (take key_arguments_size bs)));
          body = drop key_arguments_size bs
      in if length bs < key_arguments_size \<or> n = 0 \<or> length body < n then Partial else Full (req body))"

definition parse_pair :: "u8 list \<Rightarrow> parsed" where
  "parse_pair bs =
     (let a = decode_key_value_arguments (take key_value_arguments_size bs);
          n = unat (kv_key_size a); k = unat (kv_value_size a); body = drop key_value_arguments_size bs
      in if length bs < key_value_arguments_size \<or> n + k = 0 \<or> length body < n + k then Partial
         else Full (Put (take n body) (drop n body)))"

definition parse_request :: "u8 list \<Rightarrow> parsed" where
  "parse_request bs =
     (if length bs < request_header_size then Partial
      else
        let r = decode_request_header (take request_header_size bs); rest = drop request_header_size bs in
        if is_simple r then Refused (simple_response r)
        else if req_type r = request_code REQUEST_PUT then parse_pair rest
        else if req_type r = request_code REQUEST_GET then parse_key Get rest
        else parse_key Delete rest)"

type_synonym client_view = "cache_map \<times> u8 list \<times> u8 list"

text \<open>The map, the bytes received and the bytes to send: what receiving more bytes does to them.\<close>

definition feed :: "u8 list \<Rightarrow> client_view \<Rightarrow> client_view" where
  "feed bs = (\<lambda>(m, inp, out).
     (case parse_request (inp @ bs) of
        Partial \<Rightarrow> (m, inp @ bs, out)
      | Refused t \<Rightarrow> (m, [], out @ [response_code t])
      | Full q \<Rightarrow> (effect q m, [], out @ concat (answer q m))))"

section \<open>A connection in the middle of a request\<close>

definition part_size :: "connection \<Rightarrow> nat" where
  "part_size c = unat (remaining_bytes c) + unat (buffer_index c)"

definition kind_of :: "connection \<Rightarrow> request_type option" where
  "kind_of c = request_type_of (req_type (request_of c))"

definition arguments_size :: "connection \<Rightarrow> nat" where
  "arguments_size c = (if kind_of c = Some REQUEST_PUT then key_value_arguments_size else key_arguments_size)"

text \<open>A key is received behind the header in block \<open>p\<close>; a pair is received into the entry at \<open>e\<close>.\<close>

definition takes_key :: "nat \<Rightarrow> world \<Rightarrow> connection \<Rightarrow> nat \<Rightarrow> bool" where
  "takes_key b w c p \<longleftrightarrow>
     (let n = key_size (header_at (w_mem w) (Ptr p 0)) in
      p \<noteq> b \<and> conn_entry c = Ptr p 0 \<and> conn_buffer c = In_memory (Ptr p header_size) \<and>
      block_size (w_mem w) p = Some (header_size + unat n) \<and> part_size c = unat n \<and>
      n = arg_key_size (key_arguments_of c))"

definition takes_pair :: "nat \<Rightarrow> nat list \<Rightarrow> world \<Rightarrow> connection \<Rightarrow> nat \<Rightarrow> bool" where
  "takes_pair b es w c e \<longleftrightarrow>
     (let h = header_at (w_mem w) (Ptr b e); a = key_value_arguments_of c in
      e \<in> set es \<and> conn_entry c = Ptr b e \<and> conn_buffer c = In_memory (Ptr b (e + header_size)) \<and>
      part_size c = unat (key_size h) + unat (value_size h) \<and> key_size h = kv_key_size a \<and>
      value_size h = kv_value_size a \<and> locks h = 0 \<and> Ptr b e \<notin> ran (index_map (index_of w)))"

text \<open>The value of the entry at \<open>e\<close> is being sent, under its read lock.\<close>

definition sends_value :: "nat \<Rightarrow> nat list \<Rightarrow> world \<Rightarrow> connection \<Rightarrow> nat \<Rightarrow> bool" where
  "sends_value b es w c e \<longleftrightarrow>
     (let h = header_at (w_mem w) (Ptr b e) in
      e \<in> set es \<and> conn_entry c = Ptr b e \<and> header_union c = value_header (value_size h) \<and>
      (conn_state c = SENDING_HEADER \<and> conn_buffer c = Header_union \<and> part_size c = aggregate_response_size \<or>
       conn_state c = SENDING_BODY \<and> part_size c = unat (value_size h) \<and>
       conn_buffer c = In_memory (Ptr b (e + header_size + unat (key_size h)))))"

definition sends_code :: "connection \<Rightarrow> bool" where
  "sends_code c \<longleftrightarrow> conn_buffer c = Header_union \<and> part_size c = response_header_size \<and>
     (\<exists>t. header_union c ! 0 = response_code t \<and> t \<noteq> RESPONSE_NONE \<and> t \<noteq> RESPONSE_VALUE)"

definition state_ok :: "nat \<Rightarrow> nat list \<Rightarrow> world \<Rightarrow> connection \<Rightarrow> bool" where
  "state_ok b es w c \<longleftrightarrow>
     (case conn_state c of
        RECEIVING_HEADER \<Rightarrow> conn_buffer c = Header_union \<and> part_size c = request_header_size
      | RECEIVING_ARGUMENTS \<Rightarrow> conn_buffer c = Arguments_union \<and> part_size c = arguments_size c \<and>
          \<not> is_simple (request_of c)
      | RECEIVING_BODY \<Rightarrow> \<not> is_simple (request_of c) \<and>
          (if kind_of c = Some REQUEST_PUT then \<exists>e. takes_pair b es w c e else \<exists>p. takes_key b w c p)
      | SENDING_HEADER \<Rightarrow> sends_code c \<or> (\<exists>e. sends_value b es w c e)
      | SENDING_BODY \<Rightarrow> (\<exists>e. sends_value b es w c e)
      | _ \<Rightarrow> False)"

definition conn_ok :: "nat \<Rightarrow> nat list \<Rightarrow> world \<Rightarrow> connection \<Rightarrow> bool" where
  "conn_ok b es w c \<longleftrightarrow> length (header_union c) = aggregate_response_size \<and>
     length (arguments_union c) = key_value_arguments_size \<and> lock_release_event c = LOCK_EVENT_NONE \<and>
     state_ok b es w c"

text \<open>What has arrived of the request, and what is still to be sent of the answer.\<close>

definition got :: "world \<Rightarrow> connection \<Rightarrow> u8 list" where
  "got w c =
     (case conn_state c of
        RECEIVING_HEADER \<Rightarrow> take (unat (buffer_index c)) (header_union c)
      | RECEIVING_ARGUMENTS \<Rightarrow> take request_header_size (header_union c) @ take (unat (buffer_index c)) (arguments_union c)
      | RECEIVING_BODY \<Rightarrow> take request_header_size (header_union c) @ take (arguments_size c) (arguments_union c) @
          (case conn_buffer c of In_memory p \<Rightarrow> raw_bytes (w_mem w) p (unat (buffer_index c)) | _ \<Rightarrow> [])
      | _ \<Rightarrow> [])"

definition holds_lock :: "connection \<Rightarrow> bool" where
  "holds_lock c \<longleftrightarrow> conn_state c = SENDING_BODY \<or>
     conn_state c = SENDING_HEADER \<and> header_union c ! 0 = response_code RESPONSE_VALUE"

definition owed :: "world \<Rightarrow> connection \<Rightarrow> u8 list" where
  "owed w c =
     (case conn_state c of
        SENDING_HEADER \<Rightarrow> drop (unat (buffer_index c)) (take (part_size c) (header_union c)) @
          (if holds_lock c then entry_value (w_mem w) (conn_entry c) else [])
      | SENDING_BODY \<Rightarrow> drop (unat (buffer_index c)) (entry_value (w_mem w) (conn_entry c))
      | _ \<Rightarrow> [])"

section \<open>Turns of others\<close>

text \<open>The value of an entry and its layout are the same, whatever happened to its lock.\<close>

definition same_value :: "memory \<Rightarrow> memory \<Rightarrow> ptr \<Rightarrow> bool" where
  "same_value m m' p \<longleftrightarrow> key_size (header_at m' p) = key_size (header_at m p) \<and>
     value_size (header_at m' p) = value_size (header_at m p) \<and> entry_value m' p = entry_value m p"

text \<open>A turn of another connection leaves alone what \<open>d\<close> relies on.\<close>

definition undisturbed :: "nat \<Rightarrow> world \<Rightarrow> world \<Rightarrow> connection \<Rightarrow> bool" where
  "undisturbed b w w' d \<longleftrightarrow>
     (\<forall>q i. conn_entry d = Ptr q i \<longrightarrow>
        (conn_state d = RECEIVING_BODY \<longrightarrow> q \<noteq> b \<longrightarrow> same_block q (w_mem w) (w_mem w')) \<and>
        (conn_state d = RECEIVING_BODY \<longrightarrow> q = b \<longrightarrow> same_entries b (w_mem w) (w_mem w') [i] \<and>
           (Ptr b i \<notin> ran (index_map (index_of w)) \<longrightarrow> Ptr b i \<notin> ran (index_map (index_of w')))) \<and>
        (holds_lock d \<longrightarrow> same_value (w_mem w) (w_mem w') (Ptr q i)))"

lemma undisturbedI:
  assumes "\<And>q i. conn_state d = RECEIVING_BODY \<Longrightarrow> conn_entry d = Ptr q i \<Longrightarrow> q \<noteq> b \<Longrightarrow> same_block q (w_mem w) (w_mem w')"
    and "\<And>i. conn_state d = RECEIVING_BODY \<Longrightarrow> conn_entry d = Ptr b i \<Longrightarrow> same_entries b (w_mem w) (w_mem w') [i]"
    and "\<And>i. conn_state d = RECEIVING_BODY \<Longrightarrow> conn_entry d = Ptr b i \<Longrightarrow>
      Ptr b i \<notin> ran (index_map (index_of w)) \<Longrightarrow> Ptr b i \<notin> ran (index_map (index_of w'))"
    and "\<And>q i. holds_lock d \<Longrightarrow> conn_entry d = Ptr q i \<Longrightarrow> same_value (w_mem w) (w_mem w') (Ptr q i)"
  shows "undisturbed b w w' d"
  using assms by (simp add: undisturbed_def)

lemma sends_value_holds: "sends_value b es w c e \<Longrightarrow> holds_lock c"
  by (auto simp: sends_value_def holds_lock_def Let_def value_header_eq)

lemma sends_code_free: "sends_code c \<Longrightarrow> conn_state c = SENDING_HEADER \<Longrightarrow> \<not> holds_lock c"
  by (auto simp: sends_code_def holds_lock_def) (rename_tac t; case_tac t; simp)

lemma undisturbed_refl: "index_of w' = index_of w \<Longrightarrow> undisturbed b w w' d"
  by (simp add: undisturbed_def index_of_def same_block_def same_value_def)

lemma conn_ok_undisturbed:
  assumes ok: "conn_ok b es w d" and u: "undisturbed b w w' d" and sub: "set es \<subseteq> set es'"
  shows "conn_ok b es' w' d" and "got w' d = got w d" and "owed w' d = owed w d"
proof -
  have key: "takes_key b w' d p \<and> got w' d = got w d"
    if "conn_state d = RECEIVING_BODY" "takes_key b w d p" for p
  proof -
    have p: "same_block p (w_mem w) (w_mem w')" using that u by (simp add: undisturbed_def takes_key_def Let_def)
    then show ?thesis
      using that same_block_header [OF p] same_block_bytes [OF p]
      by (simp add: takes_key_def got_def Let_def same_block_def del: raw_bytes.simps)
  qed
  have pair: "takes_pair b es' w' d e \<and> got w' d = got w d"
    if "conn_state d = RECEIVING_BODY" "takes_pair b es w d e" for e
  proof -
    have e: "same_entries b (w_mem w) (w_mem w') [e]" "Ptr b e \<notin> ran (index_map (index_of w'))"
      using that u by (auto simp: undisturbed_def takes_pair_def Let_def)
    let ?h = "header_at (w_mem w) (Ptr b e)" and ?i = "unat (buffer_index d)"
    have h: "header_at (w_mem w') (Ptr b e) = ?h" using e(1) by (simp add: same_entries_def)
    have le: "?i \<le> unat (key_size ?h) + unat (value_size ?h)"
      using that(2) unfolding takes_pair_def part_size_def Let_def by linarith
    have split: "raw_bytes m (Ptr b e) (entry_size ?h) = raw_bytes m (Ptr b e) header_size @
        raw_bytes m (Ptr b (e + header_size)) ?i @
        raw_bytes m (Ptr b (e + header_size + ?i)) (unat (key_size ?h) + unat (value_size ?h) - ?i)" for m
      using raw_bytes_append [of "Ptr b e" m header_size "unat (key_size ?h) + unat (value_size ?h)"]
        raw_bytes_append [of "Ptr b (e + header_size)" m ?i "unat (key_size ?h) + unat (value_size ?h) - ?i"] le
      by (simp add: add.assoc del: raw_bytes.simps)
    have "raw_bytes (w_mem w') (Ptr b e) (entry_size ?h) = raw_bytes (w_mem w) (Ptr b e) (entry_size ?h)"
      using e(1) by (simp add: same_entries_def del: raw_bytes.simps)
    then have "raw_bytes (w_mem w') (Ptr b (e + header_size)) ?i = raw_bytes (w_mem w) (Ptr b (e + header_size)) ?i"
      by (simp only: split append_eq_append_conv length_raw_bytes ptr.distinct not_False_eq_True simp_thms)
    then show ?thesis
      using that e(2) h sub by (auto simp: takes_pair_def got_def Let_def simp del: raw_bytes.simps)
  qed
  have send: "sends_value b es' w' d e \<and> owed w' d = owed w d" if "sends_value b es w d e" for e
  proof -
    have "conn_entry d = Ptr b e" "holds_lock d"
      using that sends_value_holds [OF that] by (simp_all add: sends_value_def Let_def)
    moreover from this have "same_value (w_mem w) (w_mem w') (Ptr b e)" using u by (simp add: undisturbed_def)
    ultimately show ?thesis
      using that sub by (auto simp: sends_value_def same_value_def owed_def Let_def)
  qed
  have code: "owed w' d = owed w d" if "sends_code d" "conn_state d = SENDING_HEADER"
    using sends_code_free [OF that] that(2) by (simp add: owed_def)
  note parts = ok [unfolded conn_ok_def]
  show "conn_ok b es' w' d"
    using parts key pair send by (cases "conn_state d") (auto simp: conn_ok_def state_ok_def split: if_splits)
  show "got w' d = got w d"
    using parts key pair by (cases "conn_state d") (auto simp: state_ok_def got_def split: if_splits)
  show "owed w' d = owed w d"
    using parts send code by (cases "conn_state d") (auto simp: state_ok_def owed_def)
qed

section \<open>Changes of memory\<close>

lemma same_entry_value:
  assumes "world_ok K b w es" and "e \<in> set es" and "same_entries b (w_mem w) m' [e]" and "block_size m' b = block_size (w_mem w) b"
  shows "same_value (w_mem w) m' (Ptr b e)"
proof -
  have i: "in_bounds (w_mem w) (Ptr b e) (entry_size (header_at (w_mem w) (Ptr b e)))"
    using world_entry(1) [OF assms(1,2)] .
  have "in_bounds m' (Ptr b e) (entry_size (header_at (w_mem w) (Ptr b e)))" using i assms(4) by simp
  from same_range [OF i this] show ?thesis
    using assms(3) by (simp add: same_value_def same_entries_def del: raw_bytes.simps)
qed

text \<open>A change inside the entry at \<open>e\<close>.\<close>

lemma changed_entry:
  assumes W: "world_ok K b w es" and e: "e \<in> set es" and ch: "changed_in_entry b (w_mem w) m' e"
    and f: "f \<in> set es" "f \<noteq> e"
  shows "same_entries b (w_mem w) m' [f]" and "same_value (w_mem w) m' (Ptr b f)"
proof -
  have q: "queue_wf b (w_store w) es" using W by (simp add: world_ok_def)
  have raw: "raw_bytes m' (Ptr b f) (entry_size (header_at (w_mem w) (Ptr b f))) =
      raw_bytes (w_mem w) (Ptr b f) (entry_size (header_at (w_mem w) (Ptr b f)))"
    using queue_wf_changed(2) [OF q e, of m' f] ch f by simp
  have i: "in_bounds (w_mem w) (Ptr b f) (entry_size (header_at (w_mem w) (Ptr b f)))"
    using world_entry(1) [OF W f(1)] .
  have "in_bounds m' (Ptr b f) (entry_size (header_at (w_mem w) (Ptr b f)))"
    using i ch by (simp add: changed_in_entry_def)
  note same_range [OF i this raw]
  then show "same_entries b (w_mem w) m' [f]" "same_value (w_mem w) m' (Ptr b f)"
    using raw by (simp_all add: same_entries_def same_value_def del: raw_bytes.simps)
qed


text \<open>The connection whose turn it is, and another one, have different things in memory.\<close>

definition apart :: "connection \<Rightarrow> connection \<Rightarrow> bool" where
  "apart c d \<longleftrightarrow> (conn_state c = RECEIVING_BODY \<longrightarrow> conn_state d = RECEIVING_BODY \<or> holds_lock d \<longrightarrow>
     conn_entry d \<noteq> conn_entry c)"

lemma ok_entry:
  assumes "conn_ok b es w d" and "conn_entry d = Ptr q i"
  shows "conn_state d = RECEIVING_BODY \<Longrightarrow> q = b \<Longrightarrow> i \<in> set es"
    and "conn_state d = RECEIVING_BODY \<Longrightarrow> q \<noteq> b \<Longrightarrow> i = 0 \<and> block_size (w_mem w) q \<noteq> None"
    and "holds_lock d \<Longrightarrow> q = b \<and> i \<in> set es"
  using assms sends_code_free [of d]
  by (auto simp: conn_ok_def state_ok_def takes_pair_def takes_key_def sends_value_def holds_lock_def Let_def
      split: if_splits)

lemma undisturbed_other_block:
  assumes W: "world_ok K b w es" and ok: "conn_ok b es w d" and p: "p \<noteq> b" "conn_state d = RECEIVING_BODY \<Longrightarrow> conn_entry d \<noteq> Ptr p 0"
    and m: "\<forall>q. q \<noteq> p \<longrightarrow> same_block q (w_mem w) (w_mem w')"
    and sub: "ran (index_map (index_of w')) \<subseteq> ran (index_map (index_of w))"
  shows "undisturbed b w w' d"
proof -
  have b: "same_block b (w_mem w) (w_mem w')" using m p(1) by auto
  have v: "same_value (w_mem w) (w_mem w') (Ptr b i)" if "i \<in> set es" for i
    using same_entry_value [OF W that, of "w_mem w'"] same_block_entries [OF b] b by (simp add: same_block_def)
  show ?thesis
  proof (rule undisturbedI)
    fix q i
    assume d: "conn_state d = RECEIVING_BODY" "conn_entry d = Ptr q i" "q \<noteq> b"
    then have "q \<noteq> p" using ok_entry(2) [OF ok d(2,1,3)] p(2) by auto
    then show "same_block q (w_mem w) (w_mem w')" using m by simp
  next
    fix i
    show "same_entries b (w_mem w) (w_mem w') [i]" using same_block_entries [OF b] .
    show "Ptr b i \<notin> ran (index_map (index_of w)) \<Longrightarrow> Ptr b i \<notin> ran (index_map (index_of w'))" using sub by blast
  next
    fix q i
    assume "holds_lock d" "conn_entry d = Ptr q i"
    then show "same_value (w_mem w) (w_mem w') (Ptr q i)" using ok_entry(3) [OF ok] v by blast
  qed
qed

lemma undisturbed_entry:
  assumes W: "world_ok K b w es" and ok: "conn_ok b es w d" and e: "e \<in> set es"
    and ch: "changed_in_entry b (w_mem w) (w_mem w') e" and m: "\<forall>q. q \<noteq> b \<longrightarrow> same_block q (w_mem w) (w_mem w')"
    and d: "conn_state d = RECEIVING_BODY \<Longrightarrow> conn_entry d \<noteq> Ptr b e"
    and v: "holds_lock d \<Longrightarrow> conn_entry d = Ptr b e \<Longrightarrow> same_value (w_mem w) (w_mem w') (Ptr b e)"
    and sub: "ran (index_map (index_of w')) \<subseteq> ran (index_map (index_of w))"
  shows "undisturbed b w w' d"
proof (rule undisturbedI)
  fix q i
  assume "q \<noteq> b"
  then show "same_block q (w_mem w) (w_mem w')" using m by simp
next
  fix i
  assume i: "conn_state d = RECEIVING_BODY" "conn_entry d = Ptr b i"
  then have "i \<in> set es" "i \<noteq> e" using ok_entry(1) [OF ok i(2,1)] d by auto
  then show "same_entries b (w_mem w) (w_mem w') [i]" using changed_entry(1) [OF W e ch] by blast
  show "Ptr b i \<notin> ran (index_map (index_of w)) \<Longrightarrow> Ptr b i \<notin> ran (index_map (index_of w'))" using sub by blast
next
  fix q i
  assume i: "holds_lock d" "conn_entry d = Ptr q i"
  then have "q = b" "i \<in> set es" using ok_entry(3) [OF ok] by auto
  then show "same_value (w_mem w) (w_mem w') (Ptr q i)"
    using changed_entry(2) [OF W e ch, of i] v i by (cases "i = e") auto
qed

end
