(* ===== verification/ClientTransfers.thy ===== *)
theory ClientTransfers
  imports ClientStates
begin

text \<open>
  A turn of one connection among many. Each lemma follows one transfer or one handler from a
  consistent connection to the next one; together they say that a turn feeds the bytes it received
  to the view that the client has of the cache, and leaves every other connection alone.
\<close>

section \<open>Transfers\<close>

lemma raw_bytes_extended:
  assumes "p \<noteq> Null"
  shows "raw_bytes (write_raw m (ptr_add p i) bs) p (i + length bs) = raw_bytes m p i @ bs"
proof -
  obtain b j where p: "p = Ptr b j" using assms by (cases p) auto
  have "raw_bytes (write_raw m (ptr_add p i) bs) p i = raw_bytes m p i"
    using raw_bytes_write_other [of "ptr_add p i" bs p i m] p by (simp del: raw_bytes.simps write_raw.simps)
  moreover have "raw_bytes (write_raw m (ptr_add p i) bs) (ptr_add p i) (length bs) = bs"
    using raw_bytes_write_same [of "ptr_add p i" m bs] p by (simp del: raw_bytes.simps write_raw.simps)
  ultimately show ?thesis
    using raw_bytes_append [OF assms, of "write_raw m (ptr_add p i) bs" i "length bs"]
    by (simp del: raw_bytes.simps write_raw.simps)
qed

lemma changed_entry_world:
  assumes W: "world_ok K b w es" and e: "e \<in> set es" and ch: "changed_in_entry b (w_mem w) m' e"
    and item: "Ptr b e \<in> ran (index_map (index_of w)) \<Longrightarrow> same_item (w_mem w) m' (Ptr b e)"
    and nb: "next_block m' = next_block (w_mem w)"
  shows "world_ok K b (set_mem w m') es" and "contents (set_mem w m') = contents w"
    and "index_map (index_of (set_mem w m')) = index_map (index_of w)"
proof -
  have sz: "block_size m' = block_size (w_mem w)" using ch by (simp add: changed_in_entry_def)
  have wf: "memory_wf m'" using world_okD(1) [OF W] sz nb by (simp add: memory_wf_def)
  have "same_item (w_mem w) m' p" if pr: "p \<in> ran (index_map (index_of w))" for p
  proof -
    obtain f where f: "f \<in> set es" "p = Ptr b f" using W pr unfolding world_ok_def by blast
    show ?thesis
    proof (cases "f = e")
      case True
      then show ?thesis using item pr f(2) by simp
    next
      case False
      then show ?thesis
        using same_entries_item [OF W f(1)] changed_entry(1) [OF W e ch f(1)] sz f(2) by simp
    qed
  qed
  moreover have "queue_wf b ((w_store w)\<lparr>mem := m'\<rparr>) es"
    using queue_wf_changed(1) [of b "w_store w" es e m'] W e ch by (simp add: world_ok_def)
  ultimately show "world_ok K b (set_mem w m') es" "contents (set_mem w m') = contents w"
    "index_map (index_of (set_mem w m')) = index_map (index_of w)"
    using world_frame_items [OF W _ wf, of "(w_store w)\<lparr>mem := m'\<rparr>" es] by (simp_all add: set_mem_def)
qed

text \<open>What a turn of \<open>c\<close> must leave to the others, and the read locks it may change.\<close>

definition lets_others :: "nat \<Rightarrow> nat list \<Rightarrow> world \<Rightarrow> world \<Rightarrow> connection \<Rightarrow> bool" where
  "lets_others b es w w' c \<longleftrightarrow> (\<forall>d. conn_ok b es w d \<longrightarrow> apart c d \<longrightarrow> undisturbed b w w' d) \<and>
     (\<forall>fd. fd \<noteq> file_descriptor c \<longrightarrow> w_sent w' fd = w_sent w fd)"

definition reads_entry :: "nat \<Rightarrow> connection \<Rightarrow> nat \<Rightarrow> nat" where
  "reads_entry b c e = (if holds_lock c \<and> conn_entry c = Ptr b e then 1 else 0)"

definition lock_at :: "nat \<Rightarrow> world \<Rightarrow> nat \<Rightarrow> nat" where
  "lock_at b w e = unat (locks (header_at (w_mem w) (Ptr b e)))"

text \<open>The view of the client at \<open>c\<close>.\<close>

definition view_of :: "world \<Rightarrow> connection \<Rightarrow> client_view" where
  "view_of w c = (contents w, got w c, w_sent w (file_descriptor c) @ owed w c)"

lemma part_size_advance:
  assumes "n \<le> unat (remaining_bytes c)" and "part_size c < 2 ^ 32"
  shows "part_size (advance n c) = part_size c" and "unat (buffer_index (advance n c)) = unat (buffer_index c) + n"
    and "(remaining_bytes (advance n c) = 0) = (n = unat (remaining_bytes c))"
proof -
  have r: "unat (remaining_bytes (advance n c)) = unat (remaining_bytes c) - n"
    using unat_minus_of_nat [of "remaining_bytes c" n "unat (remaining_bytes c) - n"] assms(1)
    by (simp add: advance_def)
  show i: "unat (buffer_index (advance n c)) = unat (buffer_index c) + n"
    using unat_plus_of_nat [of "buffer_index c" n] assms by (simp add: part_size_def advance_def)
  show "part_size (advance n c) = part_size c" using r i assms(1) by (simp add: part_size_def)
  show "(remaining_bytes (advance n c) = 0) = (n = unat (remaining_bytes c))"
    using r assms(1) by (simp flip: unat_eq_0) auto
qed

lemma part_size_small:
  assumes "world_ok K b w es" and "conn_ok b es w c"
  shows "part_size c < 2 ^ 32"
proof -
  have small: "unat (n :: u16) < 2 ^ 32" "unat (m :: u32) < 2 ^ 32" for n m
    using unsigned_less [of n, where ?'a = nat] unsigned_less [of m, where ?'a = nat] by simp_all
  have pair: "part_size c < 2 ^ 32" if "takes_pair b es w c e" for e
  proof -
    let ?h = "header_at (w_mem w) (Ptr b e)"
    have "e \<in> set es" and n: "part_size c = unat (key_size ?h) + unat (value_size ?h)"
      using that by (auto simp: takes_pair_def Let_def)
    then show ?thesis
      using world_entry(1) [OF assms(1)] world_okD(5) [OF assms(1)] queue_fieldsD(3) [OF world_okD(2) [OF assms(1)]]
      by fastforce
  qed
  have "part_size c < 2 ^ 32" if "takes_key b w c p \<or> sends_value b es w c p \<or> sends_code c" for p
    using that small by (auto simp: takes_key_def sends_value_def sends_code_def wire_sizes Let_def)
  then show ?thesis
    using assms(2) pair
    by (auto simp: conn_ok_def state_ok_def wire_sizes arguments_size_def split: connection_state.splits if_splits)
qed


lemma undisturbed_trans:
  assumes "undisturbed b w w1 d" and "undisturbed b w1 w2 d"
  shows "undisturbed b w w2 d"
proof (rule undisturbedI)
  fix q i
  assume "conn_state d = RECEIVING_BODY" "conn_entry d = Ptr q i" "q \<noteq> b"
  then show "same_block q (w_mem w) (w_mem w2)"
    using assms same_block_trans unfolding undisturbed_def by blast
next
  fix i
  assume d: "conn_state d = RECEIVING_BODY" "conn_entry d = Ptr b i"
  then have "same_entries b (w_mem w) (w_mem w1) [i]" "same_entries b (w_mem w1) (w_mem w2) [i]"
    using assms unfolding undisturbed_def by blast+
  then show "same_entries b (w_mem w) (w_mem w2) [i]" by (rule same_entries_trans) simp
  show "Ptr b i \<notin> ran (index_map (index_of w)) \<Longrightarrow> Ptr b i \<notin> ran (index_map (index_of w2))"
    using d assms unfolding undisturbed_def by blast
next
  fix q i
  assume "holds_lock d" "conn_entry d = Ptr q i"
  then show "same_value (w_mem w) (w_mem w2) (Ptr q i)"
    using assms unfolding undisturbed_def same_value_def by simp
qed

text \<open>A transfer leaves the cache as it is.\<close>

definition same_cache :: "u8 list set \<Rightarrow> nat \<Rightarrow> nat list \<Rightarrow> world \<Rightarrow> world \<Rightarrow> bool" where
  "same_cache K b es w w' \<longleftrightarrow> world_ok K b w' es \<and> contents w' = contents w \<and>
     index_map (index_of w') = index_map (index_of w) \<and> index_ctx (w_store w') = index_ctx (w_store w) \<and>
     queue (w_store w') = queue (w_store w) \<and> next_block (w_mem w') = next_block (w_mem w) \<and>
     (\<forall>e\<in>set es. lock_at b w' e = lock_at b w e)"

lemma same_cache_refl: "world_ok K b w es \<Longrightarrow> same_cache K b es w w"
  by (simp add: same_cache_def)

lemma lets_others_refl: "lets_others b es w w c"
  by (simp add: lets_others_def undisturbed_refl)

definition received :: "u8 list set \<Rightarrow> nat \<Rightarrow> nat list \<Rightarrow> connection \<Rightarrow> world \<Rightarrow> u8 list \<Rightarrow> connection \<Rightarrow> world \<Rightarrow> bool" where
  "received K b es c w bs c1 w1 \<longleftrightarrow> buffer_store c w bs = Inr (c1, w1) \<and> same_cache K b es w w1 \<and>
     lets_others b es w w1 c \<and> w_sent w1 = w_sent w \<and> conn_ok b es w1 (advance (length bs) c1) \<and>
     got w1 (advance (length bs) c1) = got w c @ bs"

lemma receive_header_part:
  assumes W: "world_ok K b w es" and ok: "conn_ok b es w c" and st: "conn_state c = RECEIVING_HEADER"
    and n: "length bs \<le> unat (remaining_bytes c)"
  shows "\<exists>c1 w1. received K b es c w bs c1 w1"
proof -
  let ?i = "unat (buffer_index c)"
  let ?c = "c\<lparr>header_union := take ?i (header_union c) @ bs @ drop (?i + length bs) (header_union c)\<rparr>"
  note adv = part_size_advance [of "length bs" ?c]
  have c: "conn_buffer c = Header_union" "part_size c = request_header_size" "length (header_union c) = aggregate_response_size"
    "length (arguments_union c) = key_value_arguments_size" "lock_release_event c = LOCK_EVENT_NONE"
    using ok st by (simp_all add: conn_ok_def state_ok_def)
  have p: "part_size ?c = part_size c" by (simp add: part_size_def)
  have le: "?i + length bs \<le> request_header_size" using c(2) n by (simp add: part_size_def)
  have "buffer_store c w bs = Inr (?c, w)"
    using c(1,3) le by (simp add: buffer_store_def overwrite_def wire_sizes Let_def)
  moreover have "conn_ok b es w (advance (length bs) ?c)"
    using c le p adv(1) n part_size_small [OF W ok] st by (simp add: conn_ok_def state_ok_def wire_sizes)
  moreover have "got w (advance (length bs) ?c) = got w c @ bs"
    using adv(2) p n part_size_small [OF W ok] st c(3) le by (simp add: got_def wire_sizes)
  ultimately show ?thesis
    using same_cache_refl [OF W] lets_others_refl by (auto simp: received_def)
qed


lemma receive_arguments_part:
  assumes W: "world_ok K b w es" and ok: "conn_ok b es w c" and st: "conn_state c = RECEIVING_ARGUMENTS"
    and n: "length bs \<le> unat (remaining_bytes c)"
  shows "\<exists>c1 w1. received K b es c w bs c1 w1"
proof -
  let ?i = "unat (buffer_index c)"
  let ?c = "c\<lparr>arguments_union := take ?i (arguments_union c) @ bs @ drop (?i + length bs) (arguments_union c)\<rparr>"
  note adv = part_size_advance [of "length bs" ?c]
  have c: "conn_buffer c = Arguments_union" "part_size c = arguments_size c" "length (header_union c) = aggregate_response_size"
    "length (arguments_union c) = key_value_arguments_size" "lock_release_event c = LOCK_EVENT_NONE" "\<not> is_simple (request_of c)"
    using ok st by (simp_all add: conn_ok_def state_ok_def)
  have p: "part_size ?c = part_size c" by (simp add: part_size_def)
  have k: "request_of (advance n ?c) = request_of c" "kind_of (advance n ?c) = kind_of c" "arguments_size (advance n ?c) = arguments_size c" for n
    by (simp_all add: arguments_size_def kind_of_def request_of_def)
  have le: "?i + length bs \<le> arguments_size c" "arguments_size c \<le> key_value_arguments_size"
    using c(2) n by (simp_all add: part_size_def arguments_size_def wire_sizes)
  have "buffer_store c w bs = Inr (?c, w)"
    using c(1,4) le by (simp add: buffer_store_def overwrite_def wire_sizes Let_def)
  moreover have "conn_ok b es w (advance (length bs) ?c)"
    using c le p k adv(1) n part_size_small [OF W ok] st by (simp add: conn_ok_def state_ok_def wire_sizes)
  moreover have "got w (advance (length bs) ?c) = got w c @ bs"
    using adv(2) p n part_size_small [OF W ok] st c(4) le by (simp add: got_def wire_sizes)
  ultimately show ?thesis
    using same_cache_refl [OF W] lets_others_refl by (auto simp: received_def)
qed

lemma advance_pair [simp]:
  "kind_of (advance n c) = kind_of c" "arguments_size (advance n c) = arguments_size c"
  "key_arguments_of (advance n c) = key_arguments_of c" "key_value_arguments_of (advance n c) = key_value_arguments_of c"
  by (simp_all add: kind_of_def arguments_size_def key_arguments_of_def key_value_arguments_of_def)

lemma header_write_other:
  "q \<noteq> b \<or> i + header_size \<le> j \<Longrightarrow> header_at (write_raw m (Ptr b j) bs) (Ptr q i) = header_at m (Ptr q i)"
  unfolding header_at_def by (subst raw_bytes_write_other) auto

lemma receive_key_part:
  assumes W: "world_ok K b w es" and ok: "conn_ok b es w c" and st: "conn_state c = RECEIVING_BODY"
    and key: "kind_of c \<noteq> Some REQUEST_PUT" and n: "length bs \<le> unat (remaining_bytes c)"
  shows "\<exists>c1 w1. received K b es c w bs c1 w1"
proof -
  let ?i = "unat (buffer_index c)" and ?m = "w_mem w"
  obtain p where t: "takes_key b w c p" using ok st key by (auto simp: conn_ok_def state_ok_def)
  let ?n = "key_size (header_at ?m (Ptr p 0))" and ?m1 = "write_raw ?m (Ptr p (header_size + ?i)) bs"
  let ?w = "set_mem w ?m1" and ?c = "advance (length bs) c"
  have p: "p \<noteq> b" "conn_entry c = Ptr p 0" "conn_buffer c = In_memory (Ptr p header_size)"
    "block_size ?m p = Some (header_size + unat ?n)" "part_size c = unat ?n"
    using t by (simp_all add: takes_key_def Let_def)
  note adv = part_size_advance [OF n part_size_small [OF W ok]]
  have "?i + length bs \<le> unat ?n" using p(5) n by (simp add: part_size_def)
  then have "buffer_store c w bs = Inr (c, ?w)"
    using p(3,4) by (simp add: buffer_store_def store_bytes_def Let_def del: write_raw.simps)
  moreover have b: "same_block q ?m ?m1" if "q \<noteq> p" for q using that by (rule same_block_write)
  have wf: "memory_wf ?m1" using world_okD(1) [OF W] by blast
  have "same_cache K b es w ?w"
    using world_other_block [OF W b wf] p(1) header_write_other [of b p]
    by (simp add: same_cache_def lock_at_def del: write_raw.simps)
  moreover have "undisturbed b w ?w d" if "conn_ok b es w d" "apart c d" for d
    using that st p(1,2) b world_other_block(3) [OF W b wf]
    by (intro undisturbed_other_block [OF W, of d p]) (auto simp: apart_def simp del: write_raw.simps)
  then have "lets_others b es w ?w c" by (simp add: lets_others_def)
  moreover have "takes_key b ?w ?c p"
    using t adv(1) header_write_other [of p p 0 "header_size + ?i" ?m bs]
    by (simp add: takes_key_def Let_def del: write_raw.simps)
  then have "conn_ok b es ?w ?c" using ok st key by (auto simp: conn_ok_def state_ok_def)
  moreover have "raw_bytes ?m1 (Ptr p header_size) (?i + length bs) = raw_bytes ?m (Ptr p header_size) ?i @ bs"
    using raw_bytes_extended [of "Ptr p header_size" ?m ?i bs] by (simp del: raw_bytes.simps write_raw.simps)
  then have "got ?w ?c = got w c @ bs"
    using st p(3) adv(2) by (simp add: got_def del: raw_bytes.simps write_raw.simps)
  moreover have "w_sent ?w = w_sent w" by simp
  ultimately show ?thesis unfolding received_def by blast
qed

lemma receive_pair_part:
  assumes W: "world_ok K b w es" and ok: "conn_ok b es w c" and st: "conn_state c = RECEIVING_BODY"
    and pair: "kind_of c = Some REQUEST_PUT" and n: "length bs \<le> unat (remaining_bytes c)"
  shows "\<exists>c1 w1. received K b es c w bs c1 w1"
proof -
  let ?i = "unat (buffer_index c)" and ?m = "w_mem w"
  obtain e where t: "takes_pair b es w c e" using ok st pair by (auto simp: conn_ok_def state_ok_def)
  let ?h = "header_at ?m (Ptr b e)" and ?m1 = "write_raw ?m (Ptr b (e + header_size + ?i)) bs"
  let ?w = "set_mem w ?m1" and ?c = "advance (length bs) c"
  have e: "e \<in> set es" "conn_entry c = Ptr b e" "conn_buffer c = In_memory (Ptr b (e + header_size))"
    "part_size c = unat (key_size ?h) + unat (value_size ?h)" "Ptr b e \<notin> ran (index_map (index_of w))"
    using t by (simp_all add: takes_pair_def Let_def)
  note adv = part_size_advance [OF n part_size_small [OF W ok]]
  have le: "?i + length bs \<le> unat (key_size ?h) + unat (value_size ?h)" using e(4) n by (simp add: part_size_def)
  have "in_bounds ?m (ptr_add (Ptr b e) (header_size + ?i)) (length bs)"
    using in_bounds_add [OF world_entry(1) [OF W e(1)], of "header_size + ?i" "length bs"] le by simp
  then have "buffer_store c w bs = Inr (c, ?w)"
    using e(3) by (simp add: buffer_store_def store_in_bounds Let_def add.assoc del: write_raw.simps in_bounds.simps)
  moreover have ch: "changed_in_entry b ?m ?m1 e" using le by (intro changed_by_payload) simp_all
  have h: "header_at ?m1 (Ptr b e) = ?h" by (rule header_write_other) simp
  have "lock_at b ?w f = lock_at b w f" if "f \<in> set es" for f
    using changed_entry(1) [OF W e(1) ch that] h by (cases "f = e") (simp_all add: lock_at_def same_entries_def)
  then have "same_cache K b es w ?w"
    using changed_entry_world [OF W e(1) ch] e(5) by (simp add: same_cache_def)
  moreover have "undisturbed b w ?w d" if "conn_ok b es w d" "apart c d" for d
    using that st e(2,5) ch changed_entry_world(3) [OF W e(1) ch]
    by (intro undisturbed_entry [OF W _ e(1)]) (auto simp: apart_def simp del: write_raw.simps)
  then have "lets_others b es w ?w c" by (simp add: lets_others_def)
  moreover have "takes_pair b es ?w ?c e"
    using t adv(1) h changed_entry_world(3) [OF W e(1) ch] e(5)
    by (simp add: takes_pair_def Let_def del: write_raw.simps)
  then have "conn_ok b es ?w ?c" using ok st pair by (auto simp: conn_ok_def state_ok_def)
  moreover have "raw_bytes ?m1 (Ptr b (e + header_size)) (?i + length bs) = raw_bytes ?m (Ptr b (e + header_size)) ?i @ bs"
    using raw_bytes_extended [of "Ptr b (e + header_size)" ?m ?i bs] by (simp del: raw_bytes.simps write_raw.simps)
  then have "got ?w ?c = got w c @ bs"
    using st e(3) adv(2) by (simp add: got_def del: raw_bytes.simps write_raw.simps)
  moreover have "w_sent ?w = w_sent w" by simp
  ultimately show ?thesis unfolding received_def by blast
qed

lemma receive_part:
  assumes "world_ok K b w es" and "conn_ok b es w c" and "receiving (conn_state c)"
    and "length bs \<le> unat (remaining_bytes c)"
  shows "\<exists>c1 w1. received K b es c w bs c1 w1"
proof (cases "conn_state c = RECEIVING_BODY")
  case True
  then show ?thesis using receive_key_part [OF assms(1,2) True _ assms(4)] receive_pair_part [OF assms(1,2) True _ assms(4)]
    by blast
next
  case False
  then show ?thesis
    using assms receive_header_part [OF assms(1,2) _ assms(4)] receive_arguments_part [OF assms(1,2) _ assms(4)]
    by (auto simp: receiving_def)
qed


section \<open>Parsing\<close>

lemma parse_parts:
  assumes "\<not> is_simple (request_of c)" and "length (header_union c) = aggregate_response_size"
  shows "parse_request (take request_header_size (header_union c) @ rest) =
    (if kind_of c = Some REQUEST_PUT then parse_pair rest
     else parse_key (if kind_of c = Some REQUEST_GET then Get else Delete) rest)"
  using assms request_type_of_Some [of "req_type (request_of c)"]
  by (auto simp: parse_request_def Let_def wire_sizes request_of_def kind_of_def)

lemma parse_key_parts:
  assumes "length (arguments_union c) = key_value_arguments_size"
  shows "parse_key req (take key_arguments_size (arguments_union c) @ body) =
    (if unat (arg_key_size (key_arguments_of c)) = 0 \<or> length body < unat (arg_key_size (key_arguments_of c))
     then Partial else Full (req body))"
  using assms by (simp add: parse_key_def Let_def key_arguments_of_def wire_sizes)

lemma parse_pair_parts:
  assumes "length (arguments_union c) = key_value_arguments_size"
  shows "parse_pair (take key_value_arguments_size (arguments_union c) @ body) =
    (let a = key_value_arguments_of c; n = unat (kv_key_size a); k = unat (kv_value_size a) in
     if n + k = 0 \<or> length body < n + k then Partial else Full (Put (take n body) (drop n body)))"
  using assms by (simp add: parse_pair_def Let_def key_value_arguments_of_def wire_sizes)

text \<open>A connection that still waits for bytes, unless there are none to wait for.\<close>

definition unfinished :: "connection \<Rightarrow> bool" where
  "unfinished c \<longleftrightarrow> part_size c = 0 \<or> remaining_bytes c \<noteq> 0"

lemma unfinished_index: "unfinished c \<Longrightarrow> part_size c = 0 \<or> unat (buffer_index c) < part_size c"
  by (auto simp: unfinished_def part_size_def unat_eq_0)

text \<open>The body that has arrived.\<close>

lemma got_key:
  assumes "conn_state c = RECEIVING_BODY" and "takes_key b w c p" and "kind_of c \<noteq> Some REQUEST_PUT"
  shows "got w c = take request_header_size (header_union c) @ take key_arguments_size (arguments_union c) @
    raw_bytes (w_mem w) (Ptr p header_size) (unat (buffer_index c))"
  using assms by (simp add: got_def takes_key_def arguments_size_def Let_def del: raw_bytes.simps)

lemma got_pair:
  assumes "conn_state c = RECEIVING_BODY" and "takes_pair b es w c e" and "kind_of c = Some REQUEST_PUT"
  shows "got w c = take request_header_size (header_union c) @ take key_value_arguments_size (arguments_union c) @
    raw_bytes (w_mem w) (Ptr b (e + header_size)) (unat (buffer_index c))"
  using assms by (simp add: got_def takes_pair_def arguments_size_def Let_def del: raw_bytes.simps)

lemma parse_nothing: "length bs < request_header_size \<Longrightarrow> parse_request bs = Partial"
  by (simp add: parse_request_def)

lemma parse_unfinished:
  assumes ok: "conn_ok b es w c" and un: "unfinished c"
  shows "parse_request (got w c) = Partial"
proof -
  let ?i = "unat (buffer_index c)"
  have len: "length (header_union c) = aggregate_response_size" "length (arguments_union c) = key_value_arguments_size"
    using ok by (simp_all add: conn_ok_def)
  consider "conn_state c = RECEIVING_HEADER" "part_size c = request_header_size"
    | "conn_state c = RECEIVING_ARGUMENTS" "part_size c = arguments_size c" "\<not> is_simple (request_of c)"
    | p where "conn_state c = RECEIVING_BODY" "kind_of c \<noteq> Some REQUEST_PUT" "takes_key b w c p" "\<not> is_simple (request_of c)"
    | e where "conn_state c = RECEIVING_BODY" "kind_of c = Some REQUEST_PUT" "takes_pair b es w c e" "\<not> is_simple (request_of c)"
    | "got w c = []"
    using ok by (cases "conn_state c") (auto simp: conn_ok_def state_ok_def got_def split: if_splits)
  then show ?thesis
  proof cases
    case 1
    then show ?thesis using unfinished_index [OF un] by (intro parse_nothing) (simp add: got_def wire_sizes)
  next
    case 2
    then have "got w c = take request_header_size (header_union c) @ take ?i (arguments_union c)" by (simp add: got_def)
    moreover have "?i < arguments_size c" using unfinished_index [OF un] 2(2) by (auto simp: arguments_size_def wire_sizes)
    ultimately show ?thesis
      using len by (simp add: parse_parts [OF 2(3) len(1)])
        (simp add: parse_pair_def parse_key_def arguments_size_def Let_def wire_sizes split: if_splits)
  next
    case 3
    have "part_size c = unat (arg_key_size (key_arguments_of c))" using 3(3) by (simp add: takes_key_def Let_def)
    then show ?thesis
      using unfinished_index [OF un]
      by (simp add: got_key [OF 3(1,3,2)] parse_parts [OF 3(4) len(1)] parse_key_parts [OF len(2)] 3(2) del: raw_bytes.simps)
  next
    case 4
    have "part_size c = unat (kv_key_size (key_value_arguments_of c)) + unat (kv_value_size (key_value_arguments_of c))"
      using 4(3) by (simp add: takes_pair_def Let_def)
    then show ?thesis
      using unfinished_index [OF un]
      by (simp add: got_pair [OF 4(1,3,2)] parse_parts [OF 4(4) len(1)] parse_pair_parts [OF len(2)] 4(2) Let_def del: raw_bytes.simps)
  next
    case 5
    then show ?thesis by (simp add: parse_nothing wire_sizes)
  qed
qed

section \<open>Sending\<close>

lemma send_part:
  assumes W: "world_ok K b w es" and ok: "conn_ok b es w c" and st: "sending (conn_state c)"
    and k: "k \<le> unat (remaining_bytes c)"
  shows "\<exists>bs rest. buffer_load c w (unat (remaining_bytes c)) = Inr bs \<and> length bs = unat (remaining_bytes c) \<and>
    owed w c = bs @ rest \<and> owed w (advance k c) = drop k bs @ rest \<and> conn_ok b es w (advance k c)"
proof -
  let ?i = "unat (buffer_index c)" and ?n = "unat (remaining_bytes c)"
  note adv = part_size_advance [OF k part_size_small [OF W ok]]
  have ni: "part_size c = ?i + ?n" by (simp add: part_size_def)
  have len: "length (header_union c) = aggregate_response_size" using ok by (simp add: conn_ok_def)
  have lock: "holds_lock (advance k c) = holds_lock c" by (simp add: holds_lock_def)
  have "sends_code (advance k c) = sends_code c" "sends_value b es w (advance k c) = sends_value b es w c"
    by (simp_all add: sends_code_def sends_value_def adv(1) fun_eq_iff)
  then have ok': "conn_ok b es w (advance k c)"
    using ok st by (auto simp: conn_ok_def state_ok_def sending_def)
  show ?thesis
  proof (cases "conn_state c = SENDING_HEADER")
    case True
    have c: "conn_buffer c = Header_union" "part_size c \<le> aggregate_response_size"
      using ok True by (auto simp: conn_ok_def state_ok_def sends_code_def sends_value_def wire_sizes Let_def)
    let ?bs = "take ?n (drop ?i (header_union c))" and ?rest = "if holds_lock c then entry_value (w_mem w) (conn_entry c) else []"
    have "buffer_load c w ?n = Inr ?bs" using c len ni by (simp add: buffer_load_def slice_def Let_def)
    moreover have "owed w c = ?bs @ ?rest" using True ni by (simp add: owed_def drop_take)
    moreover have "owed w (advance k c) = drop k ?bs @ ?rest"
      using True ni adv(1,2) lock by (simp add: owed_def drop_take add.commute)
    ultimately show ?thesis using ok' len c(2) ni by auto
  next
    case False
    then have body: "conn_state c = SENDING_BODY" using st by (simp add: sending_def)
    then obtain e where e: "sends_value b es w c e" using ok by (auto simp: conn_ok_def state_ok_def)
    let ?v = "entry_value (w_mem w) (Ptr b e)" and ?h = "header_at (w_mem w) (Ptr b e)"
    have c: "e \<in> set es" "conn_entry c = Ptr b e" "part_size c = unat (value_size ?h)"
      "conn_buffer c = In_memory (Ptr b (e + header_size + unat (key_size ?h)))"
      using e body by (simp_all add: sends_value_def Let_def)
    let ?q = "Ptr b (e + header_size + unat (key_size ?h))"
    have v: "length ?v = ?i + ?n" "load_bytes (w_mem w) ?q (?i + ?n) = Inr ?v"
      using entry_value_loads(1) [OF W c(1), of ?h] entry_value_loads(2) [OF W c(1)] c(3) ni by (simp_all add: add.assoc)
    then have "load_bytes (w_mem w) (ptr_add ?q (length (take ?i ?v))) (length (drop ?i ?v)) = Inr (drop ?i ?v)"
      using load_bytes_append [of "w_mem w" ?q "take ?i ?v" "drop ?i ?v"] by simp
    then have "buffer_load c w ?n = Inr (drop ?i ?v)" using v(1) c(4) by (simp add: buffer_load_def Let_def)
    moreover have "owed w c = drop ?i ?v @ []" using body c(2) by (simp add: owed_def)
    moreover have "owed w (advance k c) = drop k (drop ?i ?v) @ []"
      using body c(2) adv(2) by (simp add: owed_def add.commute)
    ultimately show ?thesis using ok' v(1) by auto
  qed
qed

end
