(* ===== verification/ClientSteps.thy ===== *)
theory ClientSteps
  imports ClientTransfers
begin

text \<open>
  A turn of one connection among many: the transfer and the handler that may follow it. \<open>turned\<close> says
  that it feeds the bytes it received to what the client sees of the cache, that it leaves every other
  connection alone, and that the read lock of an entry still counts the connections that read it.
\<close>

section \<open>What a turn does\<close>

definition fresh :: "nat \<Rightarrow> nat list \<Rightarrow> world \<Rightarrow> ptr \<Rightarrow> bool" where
  "fresh b es w p \<longleftrightarrow> p = Ptr (next_block (w_mem w)) 0 \<and> next_block (w_mem w) \<noteq> b \<or> (\<exists>x. p = Ptr b x \<and> x \<notin> set es)"

text \<open>The entry that a connection fills afterwards is new or the one it filled before, and so for reading.\<close>

definition claims :: "nat \<Rightarrow> nat list \<Rightarrow> world \<Rightarrow> connection \<Rightarrow> connection \<Rightarrow> bool" where
  "claims b es w c c' \<longleftrightarrow>
     (conn_state c' = RECEIVING_BODY \<longrightarrow>
        conn_state c = RECEIVING_BODY \<and> conn_entry c' = conn_entry c \<or> fresh b es w (conn_entry c')) \<and>
     (holds_lock c' \<longrightarrow>
        holds_lock c \<and> conn_entry c' = conn_entry c \<or> conn_entry c' \<in> ran (index_map (index_of w)))"

definition counts :: "nat \<Rightarrow> nat list \<Rightarrow> world \<Rightarrow> connection \<Rightarrow> world \<Rightarrow> (nat \<Rightarrow> nat) \<Rightarrow> nat list \<Rightarrow> bool" where
  "counts b es w c w' reads es' \<longleftrightarrow>
     (\<forall>e\<in>set es'. lock_at b w' e + reads_entry b c e = (if e \<in> set es then lock_at b w e else 0) + reads e)"

definition turned :: "u8 list set \<Rightarrow> nat \<Rightarrow> nat list \<Rightarrow> world \<Rightarrow> connection \<Rightarrow> u8 list \<Rightarrow>
    connection \<times> world \<times> connection_result \<Rightarrow> nat list \<Rightarrow> bool" where
  "turned K b es w c bs res es' \<longleftrightarrow> (case res of (c', w', r) \<Rightarrow>
     world_ok K b w' es' \<and> set es \<subseteq> set es' \<and> view_of w' c' = feed bs (view_of w c) \<and>
     file_descriptor c' = file_descriptor c \<and> lets_others b es w w' c \<and>
     counts b es w c w' (if r = RESULT_DISCONNECT then \<lambda>_. 0 else reads_entry b c') es' \<and>
     (r = RESULT_DISCONNECT \<and> got w' c' = [] \<and> owed w' c' = [] \<or>
      (r = RESULT_SUCCESS \<or> r = RESULT_NO_TRANSFER \<or> r = RESULT_NEW_REQUEST) \<and>
        conn_ok b es' w' c' \<and> unfinished c' \<and> claims b es w c c'))"

text \<open>The state after a transfer.\<close>

definition transferred :: "u8 list set \<Rightarrow> nat \<Rightarrow> nat list \<Rightarrow> world \<Rightarrow> connection \<Rightarrow> u8 list \<Rightarrow> connection \<Rightarrow> world \<Rightarrow> bool" where
  "transferred K b es w c bs c1 w1 \<longleftrightarrow> same_cache K b es w w1 \<and> lets_others b es w w1 c \<and> conn_ok b es w1 c1 \<and>
     view_of w1 c1 = (contents w, got w c @ bs, w_sent w (file_descriptor c) @ owed w c) \<and>
     conn_state c1 = conn_state c \<and> conn_entry c1 = conn_entry c \<and> file_descriptor c1 = file_descriptor c \<and>
     holds_lock c1 = holds_lock c"

lemma feed_append: "feed bs (m, inp, out) = feed [] (m, inp @ bs, out)"
  by (simp add: feed_def split: parsed.split)

lemma feed_partial: "parse_request inp = Partial \<Longrightarrow> feed [] (m, inp, out) = (m, inp, out)"
  by (simp add: feed_def)

lemma lets_others_trans:
  assumes "lets_others b es w w1 c" and "lets_others b es w1 w2 c1"
    and "conn_state c1 = conn_state c" "conn_entry c1 = conn_entry c" "file_descriptor c1 = file_descriptor c"
  shows "lets_others b es w w2 c"
  unfolding lets_others_def
proof (intro conjI allI impI)
  fix d
  assume d: "conn_ok b es w d" "apart c d"
  then have u: "undisturbed b w w1 d" using assms(1) by (simp add: lets_others_def)
  have "conn_ok b es w1 d" using conn_ok_undisturbed(1) [OF d(1) u] by simp
  moreover have "apart c1 d" using d(2) assms(3,4) by (simp add: apart_def)
  ultimately have "undisturbed b w1 w2 d" using assms(2) by (simp add: lets_others_def)
  with u show "undisturbed b w w2 d" by (rule undisturbed_trans)
next
  fix fd
  assume "fd \<noteq> file_descriptor c"
  then show "w_sent w2 fd = w_sent w fd" using assms(1,2,5) by (simp add: lets_others_def)
qed

lemma reads_entry_cong:
  "holds_lock c1 = holds_lock c \<Longrightarrow> conn_entry c1 = conn_entry c \<Longrightarrow> reads_entry b c1 = reads_entry b c"
  by (simp add: reads_entry_def fun_eq_iff)

lemma turned_after:
  assumes t: "transferred K b es w c bs c1 w1" and d: "turned K b es w1 c1 [] res es'"
  shows "turned K b es w c bs res es'"
proof -
  obtain c' w' r where res: "res = (c', w', r)" by (cases res)
  note t' = t [unfolded transferred_def same_cache_def]
  have "lets_others b es w w' c"
    using lets_others_trans [of b es w w1 c w' c1] t' d by (simp add: turned_def res)
  moreover have "view_of w' c' = feed bs (view_of w c)"
    using d t' feed_append [of bs "contents w" "got w c"] by (simp add: turned_def res view_of_def [of w c])
  moreover have "counts b es w c w' n es' = counts b es w1 c1 w' n es'" for n
    using t' reads_entry_cong [of c1 c b] by (auto simp: counts_def)
  moreover have "claims b es w c c'" if "claims b es w1 c1 c'"
    using that t' by (simp add: claims_def fresh_def)
  ultimately show ?thesis using d t' by (auto simp: turned_def res)
qed

lemma turned_partial:
  assumes t: "transferred K b es w c bs c1 w1" and un: "unfinished c1" and r: "r = RESULT_SUCCESS \<or> r = RESULT_NO_TRANSFER"
  shows "turned K b es w c bs (c1, w1, r) es"
proof -
  note t' = t [unfolded transferred_def same_cache_def]
  have "parse_request (got w1 c1) = Partial" using parse_unfinished [OF _ un] t' by blast
  then have "parse_request (got w c @ bs) = Partial" using t' by (simp add: view_of_def)
  then have "view_of w1 c1 = feed bs (view_of w c)" using t' by (simp add: view_of_def [of w c] feed_def)
  moreover have "counts b es w c w1 (reads_entry b c1) es"
    using t' reads_entry_cong [of c1 c b] by (simp add: counts_def)
  ultimately show ?thesis using t' un r by (auto simp: turned_def claims_def)
qed


lemma receiving_free:
  assumes "receiving (conn_state c)"
  shows "owed w c = []" and "\<not> holds_lock c" and "reads_entry b c = (\<lambda>_. 0)"
proof -
  show "\<not> holds_lock c" using assms by (auto simp: receiving_def holds_lock_def)
  then show "reads_entry b c = (\<lambda>_. 0)" by (simp add: reads_entry_def fun_eq_iff)
  show "owed w c = []" using assms by (auto simp: receiving_def owed_def)
qed

text \<open>A handler that waits for the next part of the request.\<close>

lemma turned_waiting:
  assumes "world_ok K b w' es'" and "set es \<subseteq> set es'" and "contents w' = contents w" and "w_sent w' = w_sent w"
    and "got w' c' = got w c" and "receiving (conn_state c)" and "receiving (conn_state c')"
    and "conn_ok b es' w' c'" and "unfinished c'" and "file_descriptor c' = file_descriptor c"
    and "lets_others b es w w' c" and "conn_state c' = RECEIVING_BODY \<Longrightarrow> fresh b es w (conn_entry c')"
    and "\<forall>e\<in>set es'. lock_at b w' e = (if e \<in> set es then lock_at b w e else 0)"
  shows "turned K b es w c [] (c', w', RESULT_SUCCESS) es'"
proof -
  note free = receiving_free [OF assms(6)] and free' = receiving_free [OF assms(7)]
  have "parse_request (got w c) = Partial" using parse_unfinished [OF assms(8,9)] assms(5) by simp
  then have "view_of w' c' = feed [] (view_of w c)"
    using assms(3-5,10) free(1) free'(1) by (simp add: view_of_def feed_partial)
  then show ?thesis
    using assms free free' by (simp add: turned_def claims_def counts_def)
qed

section \<open>The request header has arrived\<close>

lemma complete_index: "remaining_bytes c = 0 \<Longrightarrow> unat (buffer_index c) = part_size c"
  by (simp add: part_size_def)

lemma receive_arguments_fields [simp]:
  "conn_state (receive_arguments n c) = RECEIVING_ARGUMENTS" "conn_buffer (receive_arguments n c) = Arguments_union"
  "buffer_index (receive_arguments n c) = 0" "header_union (receive_arguments n c) = header_union c"
  "arguments_union (receive_arguments n c) = arguments_union c" "file_descriptor (receive_arguments n c) = file_descriptor c"
  "lock_release_event (receive_arguments n c) = lock_release_event c" "remaining_bytes (receive_arguments n c) = of_nat n"
  by (simp_all add: receive_arguments_def)

text \<open>A response of one byte, after which nothing but this byte is owed.\<close>

lemma code_response:
  assumes "length (header_union c) = aggregate_response_size" and "t \<noteq> RESPONSE_NONE" and "t \<noteq> RESPONSE_VALUE"
  shows "sends_code (send_header c t)" and "owed w (send_header c t) = [response_code t]"
    and "\<not> holds_lock (send_header c t)" and "unfinished (send_header c t)" and "got w (send_header c t) = []"
proof -
  have hd: "(header_union c)[0 := response_code t] ! 0 = response_code t" using assms(1) by (simp add: wire_sizes)
  show s: "sends_code (send_header c t)"
    using hd assms(2,3) by (auto simp: sends_code_def part_size_def wire_sizes)
  show free: "\<not> holds_lock (send_header c t)" using sends_code_free [OF s] by simp
  have "take 1 ((header_union c)[0 := response_code t]) = [response_code t]"
    using assms(1) by (cases "header_union c") (simp_all add: wire_sizes)
  then show "owed w (send_header c t) = [response_code t]"
    using free by (simp add: owed_def part_size_def)
  show "unfinished (send_header c t)" by (simp add: unfinished_def)
  show "got w (send_header c t) = []" by (simp add: got_def)
qed

lemma code_conn_ok:
  assumes "conn_ok b es w c" and "t \<noteq> RESPONSE_NONE" and "t \<noteq> RESPONSE_VALUE"
    and "header_union c' = header_union c" and "arguments_union c' = arguments_union c"
    and "lock_release_event c' = LOCK_EVENT_NONE"
  shows "conn_ok b es' w' (send_header c' t)"
  using assms code_response(1) [of c' t] by (simp add: conn_ok_def state_ok_def)

lemma turned_code:
  assumes ok: "conn_ok b es w c" and rec: "receiving (conn_state c)"
    and c': "header_union c' = header_union c" "arguments_union c' = arguments_union c"
      "lock_release_event c' = LOCK_EVENT_NONE" "file_descriptor c' = file_descriptor c"
    and t: "t \<noteq> RESPONSE_NONE" "t \<noteq> RESPONSE_VALUE"
    and w': "world_ok K b w' es" "w_sent w' = w_sent w" "lets_others b es w w' c"
      "\<forall>e\<in>set es. lock_at b w' e = lock_at b w e"
    and feed: "\<And>out. feed [] (contents w, got w c, out) = (contents w', [], out @ [response_code t])"
  shows "turned K b es w c [] (send_header c' t, w', RESULT_SUCCESS) es"
proof -
  have len: "length (header_union c') = aggregate_response_size" using ok c'(1) by (simp add: conn_ok_def)
  note code = code_response [OF len t]
  have "view_of w' (send_header c' t) = feed [] (view_of w c)"
    using feed code w'(2) c'(4) receiving_free(1) [OF rec] by (simp add: view_of_def)
  then show ?thesis
    using w' code code_conn_ok [OF ok t c'(1-3)] c'(4) receiving_free [OF rec]
    by (simp add: turned_def claims_def counts_def reads_entry_def)
qed

lemma header_turn:
  assumes W: "world_ok K b w es" and ok: "conn_ok b es w c" and st: "conn_state c = RECEIVING_HEADER"
    and full: "remaining_bytes c = 0"
  shows "turned K b es w c [] (event_received_header c, w, RESULT_SUCCESS) es"
proof -
  have c: "length (header_union c) = aggregate_response_size" "length (arguments_union c) = key_value_arguments_size"
    "lock_release_event c = LOCK_EVENT_NONE" "unat (buffer_index c) = request_header_size"
    using ok st complete_index [OF full] by (simp_all add: conn_ok_def state_ok_def)
  have got: "got w c = take request_header_size (header_union c)" using st c(4) by (simp add: got_def)
  have rec: "receiving (conn_state c)" using st by (simp add: receiving_def)
  note locks = lets_others_refl [of b es w c]
  let ?c = "if req_flags (request_of c) AND REQUEST_FLAG_KEEP_ALIVE \<noteq> 0 then set_flag FLAG_KEEP_ALIVE c else c"
  show ?thesis
  proof (cases "is_simple (request_of c)")
    case True
    have "parse_request (got w c) = Refused (simple_response (request_of c))"
      using True c(1) by (simp add: got parse_request_def request_of_def wire_sizes Let_def)
    moreover have "simple_response (request_of c) \<noteq> RESPONSE_NONE" "simple_response (request_of c) \<noteq> RESPONSE_VALUE"
      by (simp_all add: simple_response_def)
    ultimately show ?thesis
      unfolding simple_request_dispatch [OF True refl] using c(3) W locks
      by (intro turned_code [OF ok rec]) (simp_all add: feed_def)
  next
    case False
    define n where "n = (if kind_of c = Some REQUEST_PUT then key_value_arguments_size else key_arguments_size)"
    have ev: "event_received_header c = receive_arguments n ?c"
      using False by (auto simp: is_simple_def event_received_header_def kind_of_def n_def Let_def)
    have kind: "request_of (receive_arguments n ?c) = request_of c" "kind_of (receive_arguments n ?c) = kind_of c"
      by (simp_all add: kind_of_def request_of_def)
    have part: "part_size (receive_arguments n ?c) = n" "(of_nat n :: u32) \<noteq> 0"
      by (simp_all add: part_size_def n_def wire_sizes)
    show ?thesis
      unfolding ev
    proof (rule turned_waiting [OF W])
      show "conn_ok b es w (receive_arguments n ?c)"
        using c(1-3) kind part False by (simp add: conn_ok_def state_ok_def arguments_size_def n_def)
      show "got w (receive_arguments n ?c) = got w c" unfolding got by (simp add: got_def)
      show "unfinished (receive_arguments n ?c)" using part(2) by (simp add: unfinished_def)
    qed (use rec locks in \<open>simp_all add: receiving_def\<close>)
  qed
qed


section \<open>The arguments have arrived\<close>

text \<open>What a turn needs of the environment and the cache when the bytes \<open>inp\<close> have arrived.\<close>

definition announced :: "u8 list \<Rightarrow> nat option" where
  "announced inp =
     (let r = decode_request_header (take request_header_size inp);
          a = decode_key_value_arguments (drop request_header_size inp)
      in if length inp = request_header_size + key_value_arguments_size \<and> \<not> is_simple r \<and>
            req_type r = request_code REQUEST_PUT
         then Some (header_size + unat (kv_key_size a) + unat (kv_value_size a)) else None)"

definition servable :: "u8 list set \<Rightarrow> env \<Rightarrow> world \<Rightarrow> u8 list \<Rightarrow> bool" where
  "servable K e w inp \<longleftrightarrow> env_malloc e \<and> env_map_allocs e = (True, True) \<and> expiry_configured e \<and>
     index_room (index_of w) \<and> (\<forall>n. announced inp = Some n \<longrightarrow> allocation_fits (w_store w) n) \<and>
     (\<forall>q. parse_request inp = Full q \<longrightarrow> request_key q \<in> key_universe K \<and>
        (\<forall>k p. q = Get k \<longrightarrow> index_map (index_of w) k = Some p \<longrightarrow> locks (header_at (w_mem w) p) \<noteq> 0xFFFF))"

lemma servableD:
  assumes "servable K e w inp"
  shows "env_malloc e" and "env_map_allocs e = (True, True)" and "expiry_configured e" and "index_room (index_of w)"
    and "announced inp = Some n \<Longrightarrow> allocation_fits (w_store w) n"
    and "parse_request inp = Full q \<Longrightarrow> request_key q \<in> key_universe K"
    and "parse_request inp = Full (Get k) \<Longrightarrow> index_map (index_of w) k = Some p \<Longrightarrow>
      locks (header_at (w_mem w) p) \<noteq> 0xFFFF"
  using assms unfolding servable_def by blast+

text \<open>A block that was not allocated before is nothing to the other connections.\<close>

lemma fresh_block:
  assumes "world_ok K b w es"
  shows "next_block (w_mem w) \<noteq> b" and "block_size (w_mem w) (next_block (w_mem w)) = None"
  using world_okD(1,5) [OF assms] by (auto simp: memory_wf_def)

lemma lets_others_fresh:
  assumes W: "world_ok K b w es" and m: "\<forall>q. q \<noteq> next_block (w_mem w) \<longrightarrow> same_block q (w_mem w) m" and wf: "memory_wf m"
  shows "lets_others b es w (set_mem w m) c"
proof -
  note new = fresh_block [OF W]
  have b: "same_block b (w_mem w) m" using m new(1) by auto
  have "undisturbed b w (set_mem w m) d" if d: "conn_ok b es w d" for d
  proof (rule undisturbed_other_block [OF W d new(1)])
    show "conn_entry d \<noteq> Ptr (next_block (w_mem w)) 0" if "conn_state d = RECEIVING_BODY"
      using ok_entry(2) [OF d _ that, of "next_block (w_mem w)" 0] new by auto
  qed (use m world_other_block(3) [OF W b wf] in simp_all)
  then show ?thesis by (simp add: lets_others_def)
qed

lemma key_block_blocks:
  assumes "world_ok K b w es"
  shows "q \<noteq> next_block (w_mem w) \<Longrightarrow> same_block q (w_mem w) (key_block w n)" and "memory_wf (key_block w n)"
    and "header_at (key_block w n) (Ptr (next_block (w_mem w)) 0) =
      (header_at (w_mem w) (Ptr (next_block (w_mem w)) 0))\<lparr>key_size := n\<rparr>"
    and "block_size (key_block w n) (next_block (w_mem w)) = Some (header_size + unat n)"
proof -
  show "q \<noteq> next_block (w_mem w) \<Longrightarrow> same_block q (w_mem w) (key_block w n)"
    by (simp add: same_block_def key_block_def Let_def put_header_def)
  show "memory_wf (key_block w n)"
    using world_okD(1) [OF assms] by (auto simp: memory_wf_def key_block_def Let_def less_Suc_eq split: if_splits)
  show "header_at (key_block w n) (Ptr (next_block (w_mem w)) 0) =
      (header_at (w_mem w) (Ptr (next_block (w_mem w)) 0))\<lparr>key_size := n\<rparr>"
    by (simp add: key_block_def Let_def) (simp add: header_at_def)
  show "block_size (key_block w n) (next_block (w_mem w)) = Some (header_size + unat n)"
    by (simp add: key_block_def Let_def)
qed

lemma got_arguments:
  assumes "conn_ok b es w c" and "conn_state c = RECEIVING_ARGUMENTS" and "remaining_bytes c = 0"
  shows "got w c = take request_header_size (header_union c) @ take (arguments_size c) (arguments_union c)"
  using assms complete_index [OF assms(3)] by (simp add: got_def conn_ok_def state_ok_def)

lemma unat_ucast_u32 [simp]: "unat (ucast (n :: u16) :: u32) = unat n" "(ucast n :: u32) = 0 \<longleftrightarrow> n = 0"
proof -
  have *: "unat (ucast n :: u32) = unat n" for n :: u16
    using unsigned_less [of n, where ?'a = nat] by (simp add: unsigned_ucast_eq take_bit_nat_eq_self)
  then show "unat (ucast n :: u32) = unat n" .
  show "(ucast n :: u32) = 0 \<longleftrightarrow> n = 0" using * [of n] by (metis unat_eq_0)
qed

lemma key_arguments_turn:
  assumes W: "world_ok K b w es" and ok: "conn_ok b es w c" and st: "conn_state c = RECEIVING_ARGUMENTS"
    and full: "remaining_bytes c = 0" and kind: "kind_of c \<noteq> Some REQUEST_PUT" and e: "env_malloc e"
  shows "\<exists>res. event_received_arguments e c w = Inr res \<and> turned K b es w c [] res es"
proof -
  let ?nb = "next_block (w_mem w)"
  define n where "n = arg_key_size (key_arguments_of c)"
  define c' where "c' = set_flag FLAG_ALLOCATED_BUFFER c\<lparr>conn_entry := Ptr ?nb 0, conn_buffer := In_memory (Ptr ?nb header_size),
      remaining_bytes := ucast n, buffer_index := 0, conn_state := RECEIVING_BODY\<rparr>"
  let ?w = "set_mem w (key_block w n)"
  have c: "length (header_union c) = aggregate_response_size" "length (arguments_union c) = key_value_arguments_size"
    "lock_release_event c = LOCK_EVENT_NONE" "\<not> is_simple (request_of c)"
    using ok st by (simp_all add: conn_ok_def state_ok_def)
  have "event_received_arguments e c w = allocate_key e c w"
    using c(4) kind by (auto simp: is_simple_def event_received_arguments_def kind_of_def)
  then have run: "event_received_arguments e c w = Inr (c', ?w, RESULT_SUCCESS)"
    using allocate_key_ok [OF e n_def] by (simp add: c'_def)
  note blocks = key_block_blocks [OF W] and new = fresh_block [OF W]
  have b: "same_block b (w_mem w) (key_block w n)" using blocks(1) new(1) by simp
  have fields: "conn_state c' = RECEIVING_BODY" "conn_entry c' = Ptr ?nb 0" "conn_buffer c' = In_memory (Ptr ?nb header_size)"
    "remaining_bytes c' = ucast n" "buffer_index c' = 0" "header_union c' = header_union c"
    "arguments_union c' = arguments_union c" "file_descriptor c' = file_descriptor c"
    "lock_release_event c' = lock_release_event c" "request_of c' = request_of c"
    by (simp_all add: c'_def request_of_def)
  then have part: "part_size c' = unat n" "kind_of c' = kind_of c" "key_arguments_of c' = key_arguments_of c"
    by (simp_all add: part_size_def kind_of_def key_arguments_of_def)
  have key: "takes_key b ?w c' ?nb"
    using new(1) fields part blocks(3,4) by (simp add: takes_key_def Let_def n_def)
  have "turned K b es w c [] (c', ?w, RESULT_SUCCESS) es"
  proof (rule turned_waiting)
    show "conn_ok b es ?w c'"
      using c fields part kind key by (auto simp: conn_ok_def state_ok_def)
    show "got ?w c' = got w c"
      using got_key [OF fields(1) key] part(2) kind got_arguments [OF ok st full] fields
      by (simp add: arguments_size_def)
    show "unfinished c'" using part(1) fields(4) by (simp add: unfinished_def)
    show "lets_others b es w ?w c" using lets_others_fresh [OF W _ blocks(2)] blocks(1) by blast
    show "\<forall>e\<in>set es. lock_at b ?w e = (if e \<in> set es then lock_at b w e else 0)"
      using same_block_header [OF b] by (simp add: lock_at_def)
  qed (use world_other_block [OF W b blocks(2)] st fields new(1) in \<open>simp_all add: receiving_def fresh_def\<close>)
  then show ?thesis using run by blast
qed


text \<open>A new entry behind those that are there.\<close>

lemma lets_others_append:
  assumes W: "world_ok K b w es" and same: "same_entries b (w_mem w) (mem st) es"
    and m: "mem st = put_header (w_mem w) (Ptr b x) h" and ix: "index_map (mem st, index_ctx st) = index_map (index_of w)"
  shows "lets_others b es w (w\<lparr>w_store := st\<rparr>) c"
proof -
  let ?w = "w\<lparr>w_store := st\<rparr>"
  have one: "same_entries b (w_mem w) (mem st) [i]" if "i \<in> set es" for i
    using same that by (simp add: same_entries_def)
  have "undisturbed b w ?w d" if d: "conn_ok b es w d" for d
  proof (rule undisturbedI)
    fix q i
    assume "q \<noteq> b"
    then show "same_block q (w_mem w) (w_mem ?w)" by (simp add: m put_header_def del: write_raw.simps)
  next
    fix i
    assume "conn_state d = RECEIVING_BODY" "conn_entry d = Ptr b i"
    then show "same_entries b (w_mem w) (w_mem ?w) [i]" using one [OF ok_entry(1) [OF d]] by simp
    show "Ptr b i \<notin> ran (index_map (index_of w)) \<Longrightarrow> Ptr b i \<notin> ran (index_map (index_of ?w))" using ix by simp
  next
    fix q i
    assume "holds_lock d" "conn_entry d = Ptr q i"
    then have "q = b" "i \<in> set es" using ok_entry(3) [OF d] by auto
    then show "same_value (w_mem w) (w_mem ?w) (Ptr q i)"
      using same_entry_value [OF W _ one, of i] m by simp
  qed
  then show ?thesis by (simp add: lets_others_def)
qed

lemma pair_arguments_turn:
  assumes W: "world_ok K b w es" and ok: "conn_ok b es w c" and st: "conn_state c = RECEIVING_ARGUMENTS"
    and full: "remaining_bytes c = 0" and kind: "kind_of c = Some REQUEST_PUT" and e: "expiry_configured e"
    and fits: "allocation_fits (w_store w) (header_size + unat (kv_key_size (key_value_arguments_of c)) +
      unat (kv_value_size (key_value_arguments_of c)))"
  shows "\<exists>res es'. event_received_arguments e c w = Inr res \<and> turned K b es w c [] res es'"
proof -
  let ?k = "kv_key_size (key_value_arguments_of c)" and ?v = "kv_value_size (key_value_arguments_of c)"
  obtain micros where micros: "configuration_get_int (env_options e) ENTRY_EXPIRY_MICROS = Inr micros"
    using e by (auto simp: expiry_configured_def)
  let ?now = "time_get_timestamp (env_time e) + of_int micros"
  define x where "x = write_index (queue (w_store w))"
  define h where "h = new_header ?k ?v ?now"
  have q: "queue_wf b (w_store w) es" using W by (simp add: world_ok_def)
  obtain qs where qs: "memory_queue_allocate (env_map_allocs e) ?k ?v ?now (conn_entry c) (w_store w) =
      Inr (qs, MEMORY_QUEUE_SUCCESS, Ptr b x)"
    "queue_wf b qs (es @ [x])" "same_entries b (w_mem w) (mem qs) es"
    "mem qs = put_header (w_mem w) (Ptr b x) h" "index_ctx qs = index_ctx (w_store w)"
    using allocate_fits [OF q fits] unfolding x_def h_def by (metis w_store_simps(2))
  define c' where "c' = c\<lparr>conn_entry := Ptr b x, remaining_bytes := ucast ?k + ?v, buffer_index := 0,
     conn_buffer := In_memory (Ptr b (x + header_size)), conn_state := RECEIVING_BODY\<rparr>"
  let ?w = "w\<lparr>w_store := qs\<rparr>"
  have c: "length (header_union c) = aggregate_response_size" "length (arguments_union c) = key_value_arguments_size"
    "lock_release_event c = LOCK_EVENT_NONE" "\<not> is_simple (request_of c)"
    using ok st by (simp_all add: conn_ok_def state_ok_def)
  have run: "event_received_arguments e c w = Inr (c', ?w, RESULT_SUCCESS)"
    using micros qs(1) kind
    by (simp add: event_received_arguments_def kind_of_def attempt_memory_write_def Let_def c'_def)
  have x: "x \<notin> set es" using layout_distinct [OF queue_fieldsD(7), of b qs "es @ [x]"] qs(2) by (simp add: queue_wf_def)
  have wf: "memory_wf (mem qs)" using world_okD(1) [OF W] by (simp add: qs(4) memory_wf_def)
  have sz: "block_size (mem qs) b = block_size (w_mem w) b" by (simp add: qs(4))
  have sub: "set es \<subseteq> set (es @ [x])" by auto
  note frame = world_frame [OF W sz qs(3) wf refl qs(5,2) sub]
  have "unat ?k + unat ?v < 2 ^ 32"
    using fits queue_fieldsD(3) [OF world_okD(2) [OF W]] by (simp add: allocation_fits_def)
  then have part: "part_size c' = unat ?k + unat ?v" by (simp add: part_size_def c'_def unat_word_ariths)
  have fields: "conn_state c' = RECEIVING_BODY" "conn_entry c' = Ptr b x" "conn_buffer c' = In_memory (Ptr b (x + header_size))"
    "buffer_index c' = 0" "header_union c' = header_union c" "arguments_union c' = arguments_union c"
    "file_descriptor c' = file_descriptor c" "lock_release_event c' = lock_release_event c" "request_of c' = request_of c"
    by (simp_all add: c'_def request_of_def)
  then have kinds: "kind_of c' = kind_of c" "key_value_arguments_of c' = key_value_arguments_of c"
    by (simp_all add: kind_of_def key_value_arguments_of_def)
  have hx: "header_at (w_mem ?w) (Ptr b x) = h" by (simp add: qs(4))
  have "Ptr b x \<notin> ran (index_map (index_of w))" using W x by (auto simp: world_ok_def)
  then have pair: "takes_pair b (es @ [x]) ?w c' x"
    using frame(3) fields part kinds hx by (simp add: takes_pair_def Let_def h_def new_header_def)
  have "turned K b es w c [] (c', ?w, RESULT_SUCCESS) (es @ [x])"
  proof (rule turned_waiting)
    show "conn_ok b (es @ [x]) ?w c'"
      using c fields kinds kind pair by (auto simp: conn_ok_def state_ok_def)
    show "got ?w c' = got w c"
      using got_pair [OF fields(1) pair] kinds(1) kind got_arguments [OF ok st full] fields
      by (simp add: arguments_size_def)
    show "unfinished c'" using part fields(4) by (auto simp: unfinished_def part_size_def)
    show "lets_others b es w ?w c" using lets_others_append [OF W qs(3,4)] frame(3) by simp
    have "lock_at b ?w e = lock_at b w e" if "e \<in> set es" for e
      using qs(3) that by (simp add: lock_at_def same_entries_def)
    then show "\<forall>e\<in>set (es @ [x]). lock_at b ?w e = (if e \<in> set es then lock_at b w e else 0)"
      using x hx by (simp add: lock_at_def h_def new_header_def)
  qed (use frame(1,2) st fields x in \<open>auto simp: receiving_def fresh_def\<close>)
  then show ?thesis using run by blast
qed

lemma arguments_announced:
  assumes ok: "conn_ok b es w c" and st: "conn_state c = RECEIVING_ARGUMENTS" and full: "remaining_bytes c = 0"
    and True: "kind_of c = Some REQUEST_PUT"
  shows "announced (got w c) = Some (header_size + unat (kv_key_size (key_value_arguments_of c)) +
      unat (kv_value_size (key_value_arguments_of c)))"
proof -
  have c: "length (header_union c) = aggregate_response_size" "length (arguments_union c) = key_value_arguments_size"
    "\<not> is_simple (request_of c)"
    using ok st by (simp_all add: conn_ok_def state_ok_def)
  have "req_type (request_of c) = request_code REQUEST_PUT"
    using True request_type_of_Some [of "req_type (request_of c)" REQUEST_PUT] by (simp add: kind_of_def)
  moreover have "take request_header_size (got w c) = take request_header_size (header_union c)"
    "drop request_header_size (got w c) = arguments_union c"
    "length (got w c) = request_header_size + key_value_arguments_size"
    using got_arguments [OF ok st full] c(1,2) True by (simp_all add: arguments_size_def wire_sizes)
  ultimately show ?thesis
    using c(3) by (simp add: announced_def Let_def request_of_def key_value_arguments_of_def)
qed

lemma arguments_turn:
  assumes W: "world_ok K b w es" and ok: "conn_ok b es w c" and st: "conn_state c = RECEIVING_ARGUMENTS"
    and full: "remaining_bytes c = 0" and s: "servable K e w (got w c)"
  shows "\<exists>res es'. event_received_arguments e c w = Inr res \<and> turned K b es w c [] res es'"
proof (cases "kind_of c = Some REQUEST_PUT")
  case True
  have "allocation_fits (w_store w) (header_size + unat (kv_key_size (key_value_arguments_of c)) +
      unat (kv_value_size (key_value_arguments_of c)))"
    by (rule servableD(5) [OF s arguments_announced [OF ok st full True]])
  from pair_arguments_turn [OF W ok st full True servableD(3) [OF s] this] show ?thesis .
next
  case False
  from key_arguments_turn [OF W ok st full False servableD(1) [OF s]] show ?thesis by blast
qed

end
