(* ===== verification/ClientHandlers.thy ===== *)
theory ClientHandlers
  imports ClientSteps
begin

text \<open>
  The handlers that use the cache, in a turn of one connection among many: a body that has arrived, and a
  response that has been sent.
\<close>

section \<open>Read locks\<close>

text \<open>A new value of the lock of an entry.\<close>

lemma lock_changed:
  fixes l :: u16
  assumes W: "world_ok K b w es" and e: "e \<in> set es"
  defines "h \<equiv> header_at (w_mem w) (Ptr b e)"
  fixes m'
  assumes m'_def: "m' = put_header (w_mem w) (Ptr b e) (h\<lparr>locks := l\<rparr>)"
  shows "world_ok K b (set_mem w m') es" and "contents (set_mem w m') = contents w"
    and "index_map (index_of (set_mem w m')) = index_map (index_of w)"
    and "same_value (w_mem w) m' (Ptr b e)" and "changed_in_entry b (w_mem w) m' e"
    and "f \<in> set es \<Longrightarrow> lock_at b (set_mem w m') f = (if f = e then unat l else lock_at b w f)"
proof -
  have h': "header_at m' (Ptr b e) = h\<lparr>locks := l\<rparr>" by (simp add: m'_def)
  show ch: "changed_in_entry b (w_mem w) m' e"
    unfolding m'_def by (rule changed_by_header) (simp_all add: h_def)
  have key: "entry_key m' (Ptr b e) = entry_key (w_mem w) (Ptr b e)"
    using h' by (simp add: entry_key_def key_ptr_def m'_def raw_bytes_put_other h_def del: raw_bytes.simps)
  have val: "entry_value m' (Ptr b e) = entry_value (w_mem w) (Ptr b e)"
    using h' by (simp add: entry_value_def m'_def raw_bytes_put_other h_def del: raw_bytes.simps)
  show "same_value (w_mem w) m' (Ptr b e)" using h' val by (simp add: same_value_def h_def)
  have "entry_readable m' (Ptr b e)"
    unfolding entry_readable_def h' using world_entry(1) [OF W e]
    by (auto simp: m'_def h_def elim!: in_bounds_mono simp del: in_bounds.simps)
  then have item: "same_item (w_mem w) m' (Ptr b e)" using key val by (simp add: same_item_def)
  have nb: "next_block m' = next_block (w_mem w)" by (simp add: m'_def)
  note world = changed_entry_world [OF W e ch item nb]
  show "world_ok K b (set_mem w m') es" "contents (set_mem w m') = contents w"
    "index_map (index_of (set_mem w m')) = index_map (index_of w)"
    using world by simp_all
  show "f \<in> set es \<Longrightarrow> lock_at b (set_mem w m') f = (if f = e then unat l else lock_at b w f)"
    using changed_entry(1) [OF W e ch, of f] h' by (simp add: lock_at_def same_entries_def)
qed

lemma lets_others_lock:
  assumes W: "world_ok K b w es" and e: "e \<in> set es"
    and nobody: "\<And>d. conn_ok b es w d \<Longrightarrow> conn_state d = RECEIVING_BODY \<Longrightarrow> conn_entry d \<noteq> Ptr b e"
  shows "lets_others b es w (set_mem w (put_header (w_mem w) (Ptr b e) ((header_at (w_mem w) (Ptr b e))\<lparr>locks := l\<rparr>))) c"
    (is "lets_others b es w (set_mem w ?m) c")
proof -
  note ch = lock_changed [where l = l, OF W e refl]
  have "undisturbed b w (set_mem w ?m) d" if d: "conn_ok b es w d" for d
  proof (rule undisturbed_entry [OF W d e])
    show "\<forall>q. q \<noteq> b \<longrightarrow> same_block q (w_mem w) (w_mem (set_mem w ?m))"
      by (simp add: put_header_def del: write_raw.simps)
  qed (use ch nobody [OF d] in simp_all)
  then show ?thesis by (simp add: lets_others_def)
qed

lemma unat_lock_Suc: "(l :: u16) \<noteq> 0xFFFF \<Longrightarrow> unat (l + 1) = unat l + 1"
proof -
  assume l: "l \<noteq> 0xFFFF"
  have "unat l \<noteq> 0xFFFF"
  proof
    assume "unat l = 0xFFFF"
    then have "(of_nat (unat l) :: u16) = of_nat 0xFFFF" by (rule arg_cong)
    then show False using l by simp
  qed
  then have "unat l + 1 < 2 ^ 16" using unsigned_less [of l, where ?'a = nat] by simp
  then show "unat (l + 1) = unat l + 1" by (simp add: unat_word_ariths)
qed

text \<open>Nobody fills an entry that is in the index or that is being read.\<close>

lemma filling_elsewhere:
  assumes "conn_ok b es w d" and "conn_state d = RECEIVING_BODY" and "conn_entry d = Ptr b e"
  shows "Ptr b e \<notin> ran (index_map (index_of w))" and "lock_at b w e = 0"
  using assms by (auto simp: conn_ok_def state_ok_def takes_key_def takes_pair_def lock_at_def Let_def split: if_splits)


section \<open>A key has arrived\<close>

lemma key_complete:
  assumes ok: "conn_ok b es w c" and st: "conn_state c = RECEIVING_BODY"
    and kind: "kind_of c \<noteq> Some REQUEST_PUT" and full: "remaining_bytes c = 0" "part_size c \<noteq> 0"
  obtains p k where "conn_entry c = Ptr p 0" and "p \<noteq> b" and "holds_key b w p k"
    and "parse_request (got w c) = Full ((if kind_of c = Some REQUEST_GET then Get else Delete) k)"
    and "kind_of c = Some REQUEST_GET \<or> kind_of c = Some REQUEST_DELETE"
proof -
  obtain p where t: "takes_key b w c p" and r: "\<not> is_simple (request_of c)"
    using ok st kind by (auto simp: conn_ok_def state_ok_def)
  have len: "length (header_union c) = aggregate_response_size" "length (arguments_union c) = key_value_arguments_size"
    using ok by (simp_all add: conn_ok_def)
  let ?n = "key_size (header_at (w_mem w) (Ptr p 0))" and ?k = "entry_key (w_mem w) (Ptr p 0)"
  have p: "p \<noteq> b" "conn_entry c = Ptr p 0" "block_size (w_mem w) p = Some (header_size + unat ?n)" "part_size c = unat ?n"
    "?n = arg_key_size (key_arguments_of c)"
    using t by (simp_all add: takes_key_def Let_def)
  have k: "?k = raw_bytes (w_mem w) (Ptr p header_size) (unat (buffer_index c))"
    using p(4) complete_index [OF full(1)] by (simp add: entry_key_def key_ptr_def del: raw_bytes.simps)
  have "parse_request (got w c) = Full ((if kind_of c = Some REQUEST_GET then Get else Delete) ?k)"
    using p(4,5) full(2) complete_index [OF full(1)]
    by (simp add: got_key [OF st t kind] parse_parts [OF r len(1)] parse_key_parts [OF len(2)] kind k del: raw_bytes.simps)
  moreover have "holds_key b w p ?k" using p by (simp add: holds_key_def entry_readable_def)
  moreover have "kind_of c = Some REQUEST_GET \<or> kind_of c = Some REQUEST_DELETE"
    using r kind by (auto simp: is_simple_def kind_of_def)
  ultimately show ?thesis using that p(1,2) by blast
qed

text \<open>A block that only the connection itself was filling is given back.\<close>

lemma block_returned:
  assumes W: "world_ok K b w es" and p: "p \<noteq> b" and c: "conn_state c = RECEIVING_BODY" "conn_entry c = Ptr p 0"
    and m: "\<forall>q. q \<noteq> p \<longrightarrow> same_block q (w_mem w) (w_mem w')"
    and sub: "ran (index_map (index_of w')) \<subseteq> ran (index_map (index_of w))" and sent: "w_sent w' = w_sent w"
  shows "lets_others b es w w' c" and "lock_at b w' e = lock_at b w e"
proof -
  have "undisturbed b w w' d" if "conn_ok b es w d" "apart c d" for d
    using that c undisturbed_other_block [OF W that(1) p _ m sub] by (auto simp: apart_def)
  then show "lets_others b es w w' c" using sent by (simp add: lets_others_def)
  have "same_block b (w_mem w) (w_mem w')" using m p by auto
  then show "lock_at b w' e = lock_at b w e" by (simp add: lock_at_def same_block_header)
qed

lemma delete_turn:
  assumes W: "world_ok K b w es" and ok: "conn_ok b es w c" and st: "conn_state c = RECEIVING_BODY"
    and kind: "kind_of c = Some REQUEST_DELETE" and full: "remaining_bytes c = 0" "part_size c \<noteq> 0"
    and s: "servable K e w (got w c)"
  shows "\<exists>res. event_received_body e c w = Inr res \<and> turned K b es w c [] res es"
proof -
  obtain p k where p: "conn_entry c = Ptr p 0" "p \<noteq> b" "holds_key b w p k" "parse_request (got w c) = Full (Delete k)"
    using key_complete [OF ok st _ full] kind by auto
  have k: "k \<in> key_universe K" using servableD(6) [OF s p(4)] by simp
  obtain m where m: "free_block (w_mem w) (Ptr p 0) = Inr m" "\<forall>q. q \<noteq> p \<longrightarrow> same_block q (w_mem w) m" "memory_wf m"
    using holds_key_free [OF W p(3)] by blast
  obtain w' where w': "event_received_body e c w = Inr (send_header c RESPONSE_OK, w', RESULT_SUCCESS)"
    "world_ok K b w' es" "w_sent w' = w_sent w" "contents w' = (contents w)(k := None)"
    "w_mem w' = m" "index_map (index_of w') = (index_map (index_of w))(k := None)"
    using delete_key [OF W servableD(4) [OF s] p(3) k _ p(1) m, of e] kind by (auto simp: kind_of_def)
  have "ran (index_map (index_of w')) \<subseteq> ran (index_map (index_of w))"
    using w'(6) by (auto simp: ran_def)
  note others = block_returned [OF W p(2) st p(1) _ this w'(3)]
  have "turned K b es w c [] (send_header c RESPONSE_OK, w', RESULT_SUCCESS) es"
  proof (rule turned_code [OF ok])
    show "lets_others b es w w' c" "\<forall>e\<in>set es. lock_at b w' e = lock_at b w e" using others m(2) w'(5) by auto
    show "feed [] (contents w, got w c, out) = (contents w', [], out @ [response_code RESPONSE_OK])" for out
      using p(4) w'(4) by (simp add: feed_def)
  qed (use st ok w'(2,3) in \<open>simp_all add: receiving_def conn_ok_def\<close>)
  then show ?thesis using w'(1) by blast
qed


lemma value_response_unions [simp]:
  "arguments_union (value_response c n) = arguments_union c"
  "lock_release_event (value_response c n) = lock_release_event c"
  by (simp_all add: value_response_def set_response_value_size_def)

text \<open>The connection that starts to send the value of the entry at \<open>i\<close>.\<close>

lemma value_conn_ok:
  assumes "length (header_union c) = aggregate_response_size" and "length (arguments_union c) = key_value_arguments_size"
    and "lock_release_event c = LOCK_EVENT_NONE" and "conn_entry c = Ptr b i" and "i \<in> set es"
    and "value_size (header_at (w_mem w) (Ptr b i)) = n"
  shows "conn_ok b es w (value_response c n)" and "holds_lock (value_response c n)"
    and "owed w (value_response c n) = value_header n @ entry_value (w_mem w) (Ptr b i)"
    and "got w (value_response c n) = []" and "unfinished (value_response c n)"
proof -
  have h: "header_union (value_response c n) = value_header n" using assms(1) by (intro value_response_fields) (auto simp: wire_sizes)
  have part: "part_size (value_response c n) = aggregate_response_size" by (simp add: part_size_def wire_sizes)
  have v: "sends_value b es w (value_response c n) i"
    using assms(4-6) h part by (simp add: sends_value_def Let_def)
  then show "conn_ok b es w (value_response c n)"
    using assms(2,3) h by (auto simp: conn_ok_def state_ok_def wire_sizes)
  show l: "holds_lock (value_response c n)" using sends_value_holds [OF v] .
  show "owed w (value_response c n) = value_header n @ entry_value (w_mem w) (Ptr b i)"
    using h l part assms(4) by (simp add: owed_def wire_sizes)
  show "got w (value_response c n) = []" "unfinished (value_response c n)" by (simp_all add: got_def unfinished_def)
qed

lemma found_turn:
  assumes W: "world_ok K b w es" and ok: "conn_ok b es w c" and st: "conn_state c = RECEIVING_BODY"
    and w1: "world_ok K b w1 es" "same_block b (w_mem w) (w_mem w1)" "contents w1 = contents w"
      "index_map (index_of w1) = index_map (index_of w)" "lets_others b es w w1 c" "w_sent w1 = w_sent w"
    and get: "parse_request (got w c) = Full (Get k)" and i: "i \<in> set es" "index_map (index_of w) k = Some (Ptr b i)"
    and free: "locks (header_at (w_mem w) (Ptr b i)) \<noteq> 0xFFFF"
    and c1: "conn_entry c1 = Ptr b i" "header_union c1 = header_union c" "arguments_union c1 = arguments_union c"
      "lock_release_event c1 = lock_release_event c" "file_descriptor c1 = file_descriptor c"
  shows "\<exists>res. attempt_memory_read c1 w1 = Inr res \<and> turned K b es w c [] res es"
proof -
  let ?p = "Ptr b i" and ?m = "w_mem w1"
  let ?h = "header_at ?m ?p"
  let ?c = "value_response c1 (value_size ?h)" and ?w = "set_mem w1 (put_header ?m ?p (?h\<lparr>locks := locks ?h + 1\<rparr>))"
  have h: "header_at (w_mem w) ?p = ?h" using same_block_header [OF w1(2)] by simp
  have run: "attempt_memory_read c1 w1 = Inr (?c, ?w, RESULT_SUCCESS)"
    using attempt_read_unlocked [OF c1(1) world_entry(2) [OF w1(1) i(1)]] free h by simp
  note lk = lock_changed [where l = "locks ?h + 1", OF w1(1) i(1) refl]
  have "conn_entry d \<noteq> ?p" if "conn_ok b es w1 d" "conn_state d = RECEIVING_BODY" for d
    using filling_elsewhere(1) [OF that] i(2) w1(4) by (auto simp: ran_def)
  then have "lets_others b es w1 ?w c" by (rule lets_others_lock [OF w1(1) i(1)])
  with w1(5) have others: "lets_others b es w ?w c" by (rule lets_others_trans) simp_all
  have len: "length (header_union c1) = aggregate_response_size" "length (arguments_union c1) = key_value_arguments_size"
    "lock_release_event c1 = LOCK_EVENT_NONE"
    using ok c1 by (simp_all add: conn_ok_def)
  have "value_size (header_at (w_mem ?w) ?p) = value_size ?h" by simp
  note val = value_conn_ok [OF len c1(1) i(1) this]
  have lock1: "unat (locks ?h + 1) = unat (locks ?h) + 1"
    using free h unat_lock_Suc by simp
  have v: "contents w k = Some (entry_value ?m ?p)" using w1(3,4) i(2) by (simp add: contents_def [of w1] flip: w1(3))
  have n: "of_nat (length (entry_value ?m ?p)) = value_size ?h"
    using entry_value_loads(2) [OF w1(1) i(1)] by simp
  have e: "entry_value (w_mem ?w) ?p = entry_value ?m ?p" using lk(4) by (simp add: same_value_def)
  have "view_of ?w ?c = feed [] (view_of w c)"
    using get v n e val(3,4) lk(2) w1(3,6) c1(5) receiving_free(1) [of c w] st
    by (simp add: view_of_def feed_def get_reply_def receiving_def)
  moreover have "counts b es w c ?w (reads_entry b ?c) es"
    using lk(6) lock1 val(2) c1(1) receiving_free(3) [of c b] st same_block_header [OF w1(2)]
    by (auto simp: counts_def reads_entry_def receiving_def lock_at_def)
  moreover have "claims b es w c ?c" using i(2) c1(1) by (auto simp: claims_def ran_def)
  ultimately have "turned K b es w c [] (?c, ?w, RESULT_SUCCESS) es"
    using lk(1) others val c1(5) by (simp add: turned_def)
  with run show ?thesis by blast
qed

lemma get_turn:
  assumes W: "world_ok K b w es" and ok: "conn_ok b es w c" and st: "conn_state c = RECEIVING_BODY"
    and kind: "kind_of c = Some REQUEST_GET" and full: "remaining_bytes c = 0" "part_size c \<noteq> 0"
    and s: "servable K e w (got w c)"
  shows "\<exists>res. event_received_body e c w = Inr res \<and> turned K b es w c [] res es"
proof -
  obtain p k where p: "conn_entry c = Ptr p 0" "p \<noteq> b" "holds_key b w p k" "parse_request (got w c) = Full (Get k)"
    using key_complete [OF ok st _ full] kind by auto
  have k: "k \<in> key_universe K" using servableD(6) [OF s p(4)] by simp
  obtain m where m: "free_block (w_mem w) (Ptr p 0) = Inr m" "\<forall>q. q \<noteq> p \<longrightarrow> same_block q (w_mem w) m" "memory_wf m"
    using holds_key_free [OF W p(3)] by blast
  let ?w = "set_mem w m"
  have b: "same_block b (w_mem w) m" using m(2) p(2) by auto
  note W' = world_other_block [OF W b m(3)]
  have "\<forall>q. q \<noteq> p \<longrightarrow> same_block q (w_mem w) (w_mem ?w)" "ran (index_map (index_of ?w)) \<subseteq> ran (index_map (index_of w))"
    using m(2) W'(3) by simp_all
  note others = block_returned [OF W p(2) st p(1) this]
  define c1 where "c1 = clear_flag FLAG_ALLOCATED_BUFFER c\<lparr>conn_entry := case index_map (index_of w) k of None \<Rightarrow> Null | Some p \<Rightarrow> p\<rparr>"
  have run: "event_received_body e c w = attempt_memory_read c1 ?w"
    using lookup_key [OF W p(3) k _ p(1) m(1)] kind by (simp add: kind_of_def c1_def)
  have c1: "header_union c1 = header_union c" "arguments_union c1 = arguments_union c"
    "lock_release_event c1 = lock_release_event c" "file_descriptor c1 = file_descriptor c"
    by (simp_all add: c1_def)
  show ?thesis
  proof (cases "index_map (index_of w) k")
    case None
    have "turned K b es w c [] (send_header c1 RESPONSE_NOT_FOUND, ?w, RESULT_SUCCESS) es"
    proof (rule turned_code [OF ok])
      show "feed [] (contents w, got w c, out) = (contents ?w, [], out @ [response_code RESPONSE_NOT_FOUND])" for out
        using p(4) None W'(2) by (simp add: feed_def get_reply_def contents_def [of w])
    qed (use st ok W' others c1 in \<open>simp_all add: receiving_def conn_ok_def\<close>)
    then show ?thesis using None by (simp add: run attempt_memory_read_def c1_def)
  next
    case (Some q)
    then obtain i where i: "i \<in> set es" "q = Ptr b i" using world_okD(4) [OF W] by blast
    have "conn_entry c1 = Ptr b i" using Some i(2) by (simp add: c1_def)
    moreover have "locks (header_at (w_mem w) (Ptr b i)) \<noteq> 0xFFFF"
      using servableD(7) [OF s p(4)] Some i(2) by simp
    ultimately show ?thesis
      using found_turn [OF W ok st W'(1) _ W'(2,3) others(1) _ p(4) i(1)] Some i(2) b c1 run by simp
  qed
qed


section \<open>A key and its value have arrived\<close>

lemma entries_apart:
  assumes W: "world_ok K b w es" and x: "x \<in> set es" "e \<in> set es"
  shows "entry_readable (w_mem w) (Ptr b x)" and "entry_apart (w_mem w) (Ptr b x) (Ptr b e)"
proof -
  have r: "entry_readable (w_mem w) (Ptr b f)" if "f \<in> set es" for f
    unfolding entry_readable_def using world_entry(1) [OF W that] by (auto elim!: in_bounds_mono simp del: in_bounds.simps)
  then show "entry_readable (w_mem w) (Ptr b x)" using x(1) .
  show "entry_apart (w_mem w) (Ptr b x) (Ptr b e)"
  proof (cases "x = e")
    case True
    then show ?thesis by (simp add: entry_apart_def)
  next
    case False
    then show ?thesis
      using layout_disjoint [OF queue_fieldsD(7) [OF world_okD(2) [OF W]] x] length_entry_key [OF r [OF x(1)]]
        length_entry_key [OF r [OF x(2)]]
      by (auto simp: entry_apart_def)
  qed
qed

lemma pair_complete:
  assumes ok: "conn_ok b es w c" and st: "conn_state c = RECEIVING_BODY"
    and kind: "kind_of c = Some REQUEST_PUT" and full: "remaining_bytes c = 0" "part_size c \<noteq> 0"
  obtains e where "e \<in> set es" and "conn_entry c = Ptr b e" and "Ptr b e \<notin> ran (index_map (index_of w))"
    and "parse_request (got w c) = Full (Put (entry_key (w_mem w) (Ptr b e)) (entry_value (w_mem w) (Ptr b e)))"
proof -
  obtain e where t: "takes_pair b es w c e" and r: "\<not> is_simple (request_of c)"
    using ok st kind by (auto simp: conn_ok_def state_ok_def)
  have len: "length (header_union c) = aggregate_response_size" "length (arguments_union c) = key_value_arguments_size"
    using ok by (simp_all add: conn_ok_def)
  let ?h = "header_at (w_mem w) (Ptr b e)" and ?a = "key_value_arguments_of c"
  have e: "e \<in> set es" "conn_entry c = Ptr b e" "part_size c = unat (key_size ?h) + unat (value_size ?h)"
    "key_size ?h = kv_key_size ?a" "value_size ?h = kv_value_size ?a" "Ptr b e \<notin> ran (index_map (index_of w))"
    using t by (simp_all add: takes_pair_def Let_def)
  let ?body = "raw_bytes (w_mem w) (Ptr b (e + header_size)) (unat (key_size ?h) + unat (value_size ?h))"
  have "?body = entry_key (w_mem w) (Ptr b e) @ entry_value (w_mem w) (Ptr b e)"
    using raw_bytes_append [of "Ptr b (e + header_size)" "w_mem w" "unat (key_size ?h)" "unat (value_size ?h)"]
    by (simp add: entry_key_def entry_value_def key_ptr_def add.assoc del: raw_bytes.simps)
  moreover have "length (entry_key (w_mem w) (Ptr b e)) = unat (kv_key_size ?a)"
    using e(4) by (simp add: entry_key_def key_ptr_def)
  moreover have "length (entry_value (w_mem w) (Ptr b e)) = unat (kv_value_size ?a)"
    using e(5) by (simp add: entry_value_def)
  ultimately have "parse_request (got w c) = Full (Put (entry_key (w_mem w) (Ptr b e)) (entry_value (w_mem w) (Ptr b e)))"
    using e(3-5) full(2) complete_index [OF full(1)]
    by (simp add: got_pair [OF st t kind] parse_parts [OF r len(1)] parse_pair_parts [OF len(2)] kind Let_def
        del: raw_bytes.simps)
  then show ?thesis using that e(1,2,6) by blast
qed

lemma put_turn:
  assumes W: "world_ok K b w es" and ok: "conn_ok b es w c" and st: "conn_state c = RECEIVING_BODY"
    and kind: "kind_of c = Some REQUEST_PUT" and full: "remaining_bytes c = 0" "part_size c \<noteq> 0"
    and s: "servable K e w (got w c)"
  shows "\<exists>res. event_received_body e c w = Inr res \<and> turned K b es w c [] res es"
proof -
  obtain x where x: "x \<in> set es" "conn_entry c = Ptr b x" "Ptr b x \<notin> ran (index_map (index_of w))"
    "parse_request (got w c) = Full (Put (entry_key (w_mem w) (Ptr b x)) (entry_value (w_mem w) (Ptr b x)))"
    using pair_complete [OF ok st kind full] .
  let ?k = "entry_key (w_mem w) (Ptr b x)" and ?v = "entry_value (w_mem w) (Ptr b x)"
  have k: "?k \<in> key_universe K" using servableD(6) [OF s x(4)] by simp
  have apart: "\<forall>q\<in>ran (index_map (index_of w)). entry_apart (w_mem w) (Ptr b x) q"
    using W entries_apart(2) [OF W x(1)] by (auto simp: world_ok_def)
  obtain w' where w': "event_received_body e c w = Inr (send_header c RESPONSE_OK, w', RESULT_SUCCESS)"
    "world_ok K b w' es" "w_sent w' = w_sent w" "contents w' = (contents w)(?k \<mapsto> ?v)" "w_mem w' = w_mem w"
    "index_map (index_of w') = (index_map (index_of w))(?k \<mapsto> Ptr b x)"
    using put_inserts [OF W servableD(4) [OF s] x(1) entries_apart(1) [OF W x(1,1)] refl k apart _ x(2) servableD(2) [OF s]]
      kind by (auto simp: kind_of_def)
  have "undisturbed b w w' d" if d: "apart c d" for d
  proof (rule undisturbedI)
    fix i
    assume "conn_state d = RECEIVING_BODY" "conn_entry d = Ptr b i" "Ptr b i \<notin> ran (index_map (index_of w))"
    then show "Ptr b i \<notin> ran (index_map (index_of w'))"
      using d st x(2) w'(6) by (auto simp: apart_def ran_def split: if_splits)
  qed (simp_all add: w'(5) same_block_def same_value_def)
  then have others: "lets_others b es w w' c" using w'(3) by (simp add: lets_others_def)
  have "turned K b es w c [] (send_header c RESPONSE_OK, w', RESULT_SUCCESS) es"
  proof (rule turned_code [OF ok])
    show "feed [] (contents w, got w c, out) = (contents w', [], out @ [response_code RESPONSE_OK])" for out
      using x(4) w'(4) by (simp add: feed_def)
  qed (use st ok w'(2,3,5) others in \<open>simp_all add: receiving_def conn_ok_def lock_at_def\<close>)
  then show ?thesis using w'(1) by blast
qed

lemma body_turn:
  assumes "world_ok K b w es" and "conn_ok b es w c" and "conn_state c = RECEIVING_BODY"
    and "remaining_bytes c = 0" and "part_size c \<noteq> 0" and "servable K e w (got w c)"
  shows "\<exists>res. event_received_body e c w = Inr res \<and> turned K b es w c [] res es"
proof -
  consider "kind_of c = Some REQUEST_GET" | "kind_of c = Some REQUEST_DELETE" | "kind_of c = Some REQUEST_PUT"
    using assms(2,3) by (auto simp: conn_ok_def state_ok_def is_simple_def kind_of_def split: if_splits)
  then show ?thesis
    using get_turn [OF assms(1-3) _ assms(4-6)] delete_turn [OF assms(1-3) _ assms(4-6)]
      put_turn [OF assms(1-3) _ assms(4-6)]
    by cases blast+
qed


section \<open>A response has been sent\<close>

lemma init_request_fields [simp]:
  "conn_state (init_request c) = RECEIVING_HEADER" "conn_buffer (init_request c) = Header_union"
  "buffer_index (init_request c) = 0" "remaining_bytes (init_request c) = 4"
  "header_union (init_request c) = header_union c" "arguments_union (init_request c) = arguments_union c"
  "file_descriptor (init_request c) = file_descriptor c" "lock_release_event (init_request c) = LOCK_EVENT_NONE"
  by (simp_all add: init_request_def wire_sizes)

text \<open>The answer has been sent in full; the connection is closed or waits for the next request.\<close>

lemma turned_finished:
  assumes ok: "conn_ok b es w c" and fin: "finish_request c0 = (c', r)"
    and c0: "header_union c0 = header_union c" "arguments_union c0 = arguments_union c"
      "file_descriptor c0 = file_descriptor c"
    and done0: "got w c = []" "owed w c = []" "got w' c0 = []" "owed w' c0 = []"
    and w': "world_ok K b w' es" "contents w' = contents w" "w_sent w' = w_sent w" "lets_others b es w w' c"
    and released: "\<forall>e\<in>set es. lock_at b w' e + reads_entry b c e = lock_at b w e"
  shows "turned K b es w c [] (c', w', r) es"
proof -
  have v: "view_of w c = (contents w, [], w_sent w (file_descriptor c))" using done0(1,2) by (simp add: view_of_def)
  have f: "feed [] (view_of w c) = view_of w c" unfolding v by (rule feed_partial) (simp add: parse_nothing wire_sizes)
  have r0: "reads_entry b (init_request c0) = (\<lambda>_. 0)" "owed w' (init_request c0) = []" "\<not> holds_lock (init_request c0)"
    using receiving_free [of "init_request c0"] by (simp_all add: receiving_def)
  have i0: "got w' (init_request c0) = []" by (simp add: got_def)
  have ok0: "conn_ok b es w' (init_request c0)" "unfinished (init_request c0)"
    using ok c0(1,2) by (simp_all add: conn_ok_def state_ok_def unfinished_def part_size_def wire_sizes)
  consider "c' = init_request c0" "r = RESULT_NEW_REQUEST" | "c' = c0" "r = RESULT_DISCONNECT"
    using fin by (auto simp: finish_request_def split: if_splits)
  then show ?thesis
  proof cases
    case 1
    have "claims b es w c (init_request c0)" using r0(3) by (simp add: claims_def)
    then show ?thesis using 1 w' released r0 i0 ok0 c0(3) f v by (simp add: turned_def counts_def view_of_def [of w'])
  next
    case 2
    then show ?thesis using w' released done0(3,4) c0(3) f v by (simp add: turned_def counts_def view_of_def [of w'])
  qed
qed

lemma sent_code_turn:
  assumes W: "world_ok K b w es" and ok: "conn_ok b es w c" and st: "conn_state c = SENDING_HEADER"
    and code: "sends_code c" and full: "remaining_bytes c = 0"
  shows "\<exists>res. event_sent_header c w = Inr res \<and> turned K b es w c [] res es"
proof -
  obtain t where t: "header_union c ! 0 = response_code t" "t \<noteq> RESPONSE_NONE" "t \<noteq> RESPONSE_VALUE"
    using code by (auto simp: sends_code_def)
  have "header_union c \<noteq> []" using ok by (auto simp: conn_ok_def wire_sizes)
  then have ty: "response_type_of (resp_type (agg_header (response_of c))) = Some t"
    using response_type_sent [of c t] t(1) by simp
  let ?c = "if ends_connection t then clear_flag FLAG_KEEP_ALIVE c else c"
  obtain c' r where fin: "finish_request ?c = (c', r)" by (cases "finish_request ?c")
  have free: "\<not> holds_lock c" using sends_code_free [OF code st] .
  have "owed w c = []" "owed w ?c = []"
    using free st complete_index [OF full] by (simp_all add: owed_def part_size_def holds_lock_def)
  moreover have "got w c = []" "got w ?c = []" using st by (simp_all add: got_def)
  ultimately have "turned K b es w c [] (c', w, r) es"
    using W lets_others_refl [of b es w c] free
    by (intro turned_finished [OF ok fin]) (simp_all add: reads_entry_def)
  moreover have "event_sent_header c w = Inr (c', w, r)" using ty t(2,3) fin by (simp add: event_sent_header_def)
  ultimately show ?thesis by blast
qed

lemma sends_value_type:
  "sends_value b es w c e \<Longrightarrow> response_type_of (resp_type (agg_header (response_of c))) = Some RESPONSE_VALUE"
  using value_type [of c] response_type_of_code [of RESPONSE_VALUE] unfolding sends_value_def Let_def by metis

lemma sent_value_header_turn:
  assumes W: "world_ok K b w es" and ok: "conn_ok b es w c" and st: "conn_state c = SENDING_HEADER"
    and val: "sends_value b es w c e" and full: "remaining_bytes c = 0"
  shows "\<exists>res. event_sent_header c w = Inr res \<and> turned K b es w c [] res es"
proof -
  let ?h = "header_at (w_mem w) (Ptr b e)"
  define c' where "c' = c\<lparr>conn_buffer := In_memory (Ptr b (e + (header_size + unat (key_size ?h)))),
     remaining_bytes := value_size ?h, buffer_index := 0, conn_state := SENDING_BODY\<rparr>"
  have e: "e \<in> set es" "conn_entry c = Ptr b e" "header_union c = value_header (value_size ?h)" "part_size c = aggregate_response_size"
    using val st by (auto simp: sends_value_def Let_def)
  have run: "event_sent_header c w = Inr (c', w, RESULT_SUCCESS)"
    using sends_value_type [OF val] e(2) world_entry(2) [OF W e(1)]
    by (simp add: event_sent_header_def load_header_in_bounds c'_def del: in_bounds.simps)
  have val': "sends_value b es w c' e"
    using e by (simp add: sends_value_def Let_def c'_def part_size_def add.assoc)
  have lock: "holds_lock c" "holds_lock c'" using sends_value_holds val val' by blast+
  have ce: "conn_entry c' = conn_entry c" by (simp add: c'_def)
  have "owed w c = entry_value (w_mem w) (Ptr b e)"
    using st lock(1) e(2,4) complete_index [OF full] by (simp add: owed_def wire_sizes e(3))
  moreover have "owed w c' = entry_value (w_mem w) (Ptr b e)" using e(2) by (simp add: owed_def c'_def)
  moreover have "got w c = []" "got w c' = []" using st by (simp_all add: got_def c'_def)
  ultimately have "view_of w c' = feed [] (view_of w c)"
    by (simp add: view_of_def feed_partial parse_nothing wire_sizes) (simp add: c'_def)
  moreover have "conn_ok b es w c'" using ok val' by (auto simp: conn_ok_def state_ok_def c'_def)
  moreover have "unfinished c'" by (auto simp: unfinished_def part_size_def c'_def)
  moreover have "reads_entry b c' = reads_entry b c" using lock ce by (intro reads_entry_cong) simp_all
  moreover have "claims b es w c c'" using lock ce by (simp add: claims_def) (simp add: c'_def)
  moreover have "file_descriptor c' = file_descriptor c" by (simp add: c'_def)
  ultimately have "turned K b es w c [] (c', w, RESULT_SUCCESS) es"
    using W lets_others_refl [of b es w c] by (simp add: turned_def counts_def)
  with run show ?thesis by blast
qed

lemma unat_lock_pred: "1 \<le> unat (l :: u16) \<Longrightarrow> unat (l - 1) + 1 = unat l"
  by (metis One_nat_def Suc_pred' add.commute le_simps(3) plus_1_eq_Suc unat_1 unat_eq_0 unat_minus_one
      word_less_nat_alt not_less_eq_eq le_zero_eq One_nat_def)

text \<open>The connection that sends the value of an entry gives the lock back.\<close>

lemma lock_returned:
  assumes W: "world_ok K b w es" and val: "sends_value b es w c e" and held: "\<forall>e\<in>set es. reads_entry b c e \<le> lock_at b w e"
  defines "h \<equiv> header_at (w_mem w) (Ptr b e)"
  defines "w' \<equiv> set_mem w (put_header (w_mem w) (Ptr b e) (h\<lparr>locks := locks h - 1\<rparr>))"
  obtains ev where "entry_header_release_lock (w_mem w) (conn_entry c) = Inr (w_mem w', ev)"
    and "world_ok K b w' es" and "contents w' = contents w" and "lets_others b es w w' c"
    and "\<forall>f\<in>set es. lock_at b w' f + reads_entry b c f = lock_at b w f"
    and "same_value (w_mem w) (w_mem w') (conn_entry c)"
proof -
  have e: "e \<in> set es" "conn_entry c = Ptr b e" using val by (simp_all add: sends_value_def Let_def)
  have reads: "reads_entry b c f = (if f = e then 1 else 0)" for f
    using sends_value_holds [OF val] e(2) by (simp add: reads_entry_def)
  then have pos: "1 \<le> lock_at b w e" using held e(1) by force
  obtain ev where rel: "entry_header_release_lock (w_mem w) (conn_entry c) = Inr (w_mem w', ev)"
    using release_lock_eq [OF world_entry(2) [OF W e(1)]] e(2) by (simp add: w'_def h_def)
  note lk = lock_changed [where l = "locks h - 1", OF W e(1) refl, folded h_def, folded w'_def]
  have "conn_entry d \<noteq> Ptr b e" if "conn_ok b es w d" "conn_state d = RECEIVING_BODY" for d
    using filling_elsewhere(2) [OF that] pos by auto
  note others = lets_others_lock [OF W e(1) this, of "locks h - 1" c, folded h_def, folded w'_def]
  have "\<forall>f\<in>set es. lock_at b w' f + reads_entry b c f = lock_at b w f"
    using lk(6) reads unat_lock_pred [of "locks h"] pos by (simp add: lock_at_def h_def)
  moreover have "same_value (w_mem w) (w_mem w') (conn_entry c)" using lk(4) e(2) by (simp add: w'_def)
  ultimately show ?thesis by (intro that [OF rel lk(1,2) others])
qed

lemma sent_body_turn:
  assumes W: "world_ok K b w es" and ok: "conn_ok b es w c" and st: "conn_state c = SENDING_BODY"
    and full: "remaining_bytes c = 0" and held: "\<forall>e\<in>set es. reads_entry b c e \<le> lock_at b w e"
  shows "\<exists>res. event_sent_body c w = Inr res \<and> turned K b es w c [] res es"
proof -
  obtain e where val: "sends_value b es w c e" using ok st by (auto simp: conn_ok_def state_ok_def)
  let ?p = "Ptr b e"
  let ?h = "header_at (w_mem w) ?p"
  let ?w = "set_mem w (put_header (w_mem w) ?p (?h\<lparr>locks := locks ?h - 1\<rparr>))"
  have e: "e \<in> set es" "conn_entry c = ?p" "part_size c = unat (value_size ?h)"
    using val st by (auto simp: sends_value_def Let_def)
  obtain ev where ret: "entry_header_release_lock (w_mem w) (conn_entry c) = Inr (w_mem ?w, ev)"
    "world_ok K b ?w es" "contents ?w = contents w" "lets_others b es w ?w c"
    "\<forall>f\<in>set es. lock_at b ?w f + reads_entry b c f = lock_at b w f" "same_value (w_mem w) (w_mem ?w) (conn_entry c)"
    by (rule lock_returned [OF W val held])
  let ?c = "clear_flag FLAG_LOCK_ACQUIRED (c\<lparr>lock_release_event := ev\<rparr>)"
  obtain c' r where fin: "finish_request ?c = (c', r)" by (cases "finish_request ?c")
  have run: "event_sent_body c w = Inr (c', ?w, r)"
    using sends_value_type [OF val] ret(1) fin by (simp add: event_sent_body_def)
  have "length (entry_value (w_mem w) ?p) = unat (buffer_index c)"
    using entry_value_loads(2) [OF W e(1)] e(3) complete_index [OF full] by simp
  moreover have "entry_value (w_mem ?w) ?p = entry_value (w_mem w) ?p" using ret(6) e(2) by (simp add: same_value_def)
  ultimately have "owed w c = []" "owed ?w ?c = []" using st e(2) by (simp_all add: owed_def)
  moreover have "got w c = []" "got ?w ?c = []" using st by (simp_all add: got_def)
  ultimately have "turned K b es w c [] (c', ?w, r) es"
    using ret(2-5) by (intro turned_finished [OF ok fin]) simp_all
  with run show ?thesis by blast
qed

end
