(* ===== verification/ClientTurn.thy ===== *)
theory ClientTurn
  imports ClientHandlers
begin

text \<open>
  A turn of one connection among many, put together: \<open>client_turn\<close> says that whatever part of a message the
  socket gives or takes, the turn feeds the bytes that arrived to the view of the client.
\<close>

section \<open>A turn\<close>

lemma dispatch_turn:
  assumes W: "world_ok K b w es" and ok: "conn_ok b es w c" and full: "remaining_bytes c = 0" "part_size c \<noteq> 0"
    and s: "receiving (conn_state c) \<Longrightarrow> servable K e w (got w c)"
    and held: "\<forall>e\<in>set es. reads_entry b c e \<le> lock_at b w e"
  shows "\<exists>res es'. dispatch e c w = Inr res \<and> turned K b es w c [] res es'"
proof (cases "conn_state c")
  case RECEIVING_HEADER
  then show ?thesis using header_turn [OF W ok _ full(1)] by (auto simp: dispatch_def)
next
  case RECEIVING_ARGUMENTS
  then show ?thesis using arguments_turn [OF W ok _ full(1), of e] s by (auto simp: dispatch_def receiving_def)
next
  case RECEIVING_BODY
  then show ?thesis using body_turn [OF W ok _ full, of e] s by (auto simp: dispatch_def receiving_def)
next
  case SENDING_HEADER
  then have "sends_code c \<or> (\<exists>e. sends_value b es w c e)" using ok by (simp add: conn_ok_def state_ok_def)
  then have "\<exists>res. event_sent_header c w = Inr res \<and> turned K b es w c [] res es"
    using sent_code_turn [OF W ok SENDING_HEADER _ full(1)] sent_value_header_turn [OF W ok SENDING_HEADER _ full(1)]
    by blast
  then show ?thesis by (auto simp: dispatch_def SENDING_HEADER)
next
  case SENDING_BODY
  then show ?thesis using sent_body_turn [OF W ok _ full(1) held] by (auto simp: dispatch_def)
qed (use ok in \<open>simp_all add: conn_ok_def state_ok_def\<close>)

text \<open>The bytes that the socket gives in this turn, and a socket that does not fail.\<close>

definition arrived :: "env \<Rightarrow> connection \<Rightarrow> u8 list" where
  "arrived e c =
     (if receiving (conn_state c) then
        (case env_recv e (file_descriptor c) (unat (remaining_bytes c)) of Done bs \<Rightarrow> bs | _ \<Rightarrow> [])
      else [])"

definition reliable :: "env \<Rightarrow> bool" where
  "reliable e \<longleftrightarrow> env_ok e \<and> (\<forall>fd n. env_recv e fd n \<noteq> Io_error) \<and> (\<forall>fd bs. env_send e fd bs \<noteq> Io_error)"

lemma advance_0 [simp]: "advance 0 c = c"
  by (simp add: advance_def)

lemma received_transferred:
  assumes r: "received K b es c w bs c1 w1" and rec: "receiving (conn_state c)"
  shows "transferred K b es w c bs (advance (length bs) c1) w1" and "remaining_bytes c1 = remaining_bytes c"
    and "part_size c1 = part_size c"
proof -
  note r' = r [unfolded received_def]
  obtain h a where c1: "c1 = c\<lparr>header_union := h, arguments_union := a\<rparr>"
    using buffer_store_frame r' by metis
  then have st: "conn_state (advance (length bs) c1) = conn_state c" by simp
  then have "owed w1 (advance (length bs) c1) = []" "\<not> holds_lock (advance (length bs) c1)"
    using receiving_free [of "advance (length bs) c1"] rec by simp_all
  then show "transferred K b es w c bs (advance (length bs) c1) w1"
    using r' c1 st receiving_free(1,2) [OF rec] by (simp add: transferred_def view_of_def same_cache_def)
  show "remaining_bytes c1 = remaining_bytes c" "part_size c1 = part_size c" by (simp_all add: c1 part_size_def)
qed

lemma servable_same:
  assumes "same_cache K b es w w1" and "servable K e w inp" and "world_ok K b w es"
  shows "servable K e w1 inp"
proof -
  note sc = assms(1) [unfolded same_cache_def]
  have "locks (header_at (w_mem w1) p) \<noteq> 0xFFFF"
    if "parse_request inp = Full (Get k)" "index_map (index_of w1) k = Some p" for k p
  proof -
    have ix: "index_map (index_of w) k = Some p" using that(2) sc by simp
    then obtain i where i: "i \<in> set es" "p = Ptr b i" using world_okD(4) [OF assms(3)] by blast
    then have "unat (locks (header_at (w_mem w1) p)) = unat (locks (header_at (w_mem w) p))"
      using sc by (simp add: lock_at_def)
    then show ?thesis using servableD(7) [OF assms(2) that(1) ix] by (simp add: word_unat_eq_iff)
  qed
  moreover have "index_room (index_of w1)" using servableD(4) [OF assms(2)] sc by (simp add: index_room_def)
  moreover have "allocation_fits (w_store w1) n" if "announced inp = Some n" for n
    using servableD(5) [OF assms(2) that] sc by (simp add: allocation_fits_def)
  ultimately show ?thesis using servableD(1-3,6) [OF assms(2)] unfolding servable_def by blast
qed

text \<open>After a transfer that completed a part, its handler runs; after any other the connection waits.\<close>

lemma handled_turn:
  assumes W: "world_ok K b w es" and t: "transferred K b es w c bs c1 w1"
    and un: "remaining_bytes c1 = 0 \<Longrightarrow> part_size c1 \<noteq> 0"
    and s: "receiving (conn_state c) \<Longrightarrow> servable K e w (got w c @ bs)"
    and held: "\<forall>e\<in>set es. reads_entry b c e \<le> lock_at b w e"
  shows "\<exists>res es'. (if remaining_bytes c1 \<noteq> 0 then Inr (c1, w1, RESULT_SUCCESS) else dispatch e c1 w1) = Inr res \<and>
    turned K b es w c bs res es'"
proof (cases "remaining_bytes c1 = 0")
  case False
  then show ?thesis using turned_partial [OF t, of RESULT_SUCCESS] by (auto simp: unfinished_def)
next
  case True
  note t' = t [unfolded transferred_def]
  have W1: "world_ok K b w1 es" using t' by (simp add: same_cache_def)
  have "got w1 c1 = got w c @ bs" using t' by (simp add: view_of_def)
  then have "servable K e w1 (got w1 c1)" if "receiving (conn_state c1)"
    using servable_same [OF _ s W] t' that by simp
  moreover have "\<forall>e\<in>set es. reads_entry b c1 e \<le> lock_at b w1 e"
    using held t' reads_entry_cong [of c1 c b] by (simp add: same_cache_def)
  ultimately obtain res es' where d: "dispatch e c1 w1 = Inr res" "turned K b es w1 c1 [] res es'"
    using dispatch_turn [OF W1 _ True un [OF True]] t' by blast
  then have "turned K b es w c bs res es'" using turned_after [OF t] by blast
  then show ?thesis using True d(1) by auto
qed

lemma receiving_transfer:
  assumes W: "world_ok K b w es" and ok: "conn_ok b es w c" "unfinished c" and rec: "receiving (conn_state c)"
    and e: "reliable e"
  obtains c1 w1 where "connection_transfer e c w =
      Inr (c1, w1, if arrived e c = [] then RESULT_NO_TRANSFER else RESULT_SUCCESS)"
    and "transferred K b es w c (arrived e c) c1 w1" and "arrived e c = [] \<longrightarrow> unfinished c1"
    and "arrived e c \<noteq> [] \<longrightarrow> part_size c1 \<noteq> 0"
proof -
  let ?n = "unat (remaining_bytes c)"
  consider "env_recv e (file_descriptor c) ?n = Would_block" | bs where "env_recv e (file_descriptor c) ?n = Done bs"
    using e by (cases "env_recv e (file_descriptor c) ?n") (auto simp: reliable_def)
  then show ?thesis
  proof cases
    case 1
    have "transferred K b es w c [] c w"
      using same_cache_refl [OF W] lets_others_refl ok(1) by (simp add: transferred_def view_of_def)
    then show ?thesis
      using that [of c w] 1 rec ok(2) by (simp add: arrived_def connection_transfer_def socket_call_def Let_def)
  next
    case 2
    have bs: "arrived e c = bs" using 2 rec by (simp add: arrived_def)
    have n: "length bs \<le> ?n" using 2 e by (auto simp: reliable_def env_ok_def)
    obtain c1 w1 where r: "received K b es c w bs c1 w1" using receive_part [OF W ok(1) rec n] by blast
    then have store: "buffer_store c w bs = Inr (c1, w1)" by (simp add: received_def)
    note t = received_transferred [OF r rec]
    have tr: "connection_transfer e c w =
        Inr (advance (length bs) c1, w1, if bs = [] then RESULT_NO_TRANSFER else RESULT_SUCCESS)"
      using 2 rec store by (simp add: connection_transfer_def socket_call_def advance_def Let_def)
    have size: "part_size (advance (length bs) c1) = part_size c"
      using part_size_advance(1) [of "length bs" c1] n t(2,3) part_size_small [OF W ok(1)] by simp
    show ?thesis
    proof (rule that)
      show "connection_transfer e c w =
          Inr (advance (length bs) c1, w1, if arrived e c = [] then RESULT_NO_TRANSFER else RESULT_SUCCESS)"
        using tr bs by simp
      show "transferred K b es w c (arrived e c) (advance (length bs) c1) w1" using t(1) bs by simp
      show "arrived e c = [] \<longrightarrow> unfinished (advance (length bs) c1)"
        using bs ok(2) t(2,3) by (simp add: unfinished_def)
      show "arrived e c \<noteq> [] \<longrightarrow> part_size (advance (length bs) c1) \<noteq> 0"
      proof
        assume "arrived e c \<noteq> []"
        then have "0 < ?n" using bs n by (cases bs) auto
        then show "part_size (advance (length bs) c1) \<noteq> 0" unfolding size by (simp add: part_size_def)
      qed
    qed
  qed
qed

lemma receiving_turn:
  assumes W: "world_ok K b w es" and ok: "conn_ok b es w c" "unfinished c" and rec: "receiving (conn_state c)"
    and e: "reliable e" and s: "arrived e c \<noteq> [] \<Longrightarrow> servable K e w (got w c @ arrived e c)"
  shows "\<exists>res es'. connection_proc e c w = Inr res \<and> turned K b es w c (arrived e c) res es'"
proof -
  have nobody: "\<forall>e\<in>set es. reads_entry b c e \<le> lock_at b w e" using receiving_free(3) [OF rec] by simp
  obtain c1 w1 where t: "connection_transfer e c w =
      Inr (c1, w1, if arrived e c = [] then RESULT_NO_TRANSFER else RESULT_SUCCESS)"
    "transferred K b es w c (arrived e c) c1 w1" "arrived e c = [] \<longrightarrow> unfinished c1"
    "arrived e c \<noteq> [] \<longrightarrow> part_size c1 \<noteq> 0"
    by (rule receiving_transfer [OF W ok rec e])
  show ?thesis
  proof (cases "arrived e c = []")
    case True
    then have "connection_proc e c w = Inr (c1, w1, RESULT_NO_TRANSFER)" using t(1) by (simp add: connection_proc_def)
    then show ?thesis using turned_partial [OF t(2), of RESULT_NO_TRANSFER] t(3) True by auto
  next
    case False
    then show ?thesis using handled_turn [OF W t(2) _ _ nobody, of e] s t(1,4) by (simp add: connection_proc_def)
  qed
qed

lemma sent_transferred:
  assumes W: "world_ok K b w es" and ok: "conn_ok b es w c" and st: "sending (conn_state c)"
    and k: "k \<le> unat (remaining_bytes c)"
  obtains bs where "buffer_load c w (unat (remaining_bytes c)) = Inr bs" and "length bs = unat (remaining_bytes c)"
    and "transferred K b es w c [] (advance k c) (record_sent w (file_descriptor c) (take k bs))"
proof -
  obtain bs rest where p: "buffer_load c w (unat (remaining_bytes c)) = Inr bs" "length bs = unat (remaining_bytes c)"
    "owed w c = bs @ rest" "owed w (advance k c) = drop k bs @ rest" "conn_ok b es w (advance k c)"
    using send_part [OF W ok st k] by blast
  let ?w = "record_sent w (file_descriptor c) (take k bs)"
  have u: "undisturbed b w ?w d" for d by (rule undisturbed_refl) simp
  have "same_cache K b es w ?w" using W by (simp add: same_cache_def lock_at_def)
  moreover have "lets_others b es w ?w c" using u by (simp add: lets_others_def)
  moreover have "got w' (advance j c) = []" for w' j using st by (auto simp: got_def sending_def)
  from this [of _ 0] this [of ?w k] have "got w c = []" "got ?w (advance k c) = []" by simp_all
  moreover have "holds_lock (advance k c) = holds_lock c" by (simp add: holds_lock_def)
  moreover note conn_ok_undisturbed [OF p(5) u subset_refl]
  ultimately have "transferred K b es w c [] (advance k c) ?w"
    using p(3,4) by (simp add: transferred_def view_of_def)
  then show ?thesis using that p(1,2) by blast
qed

lemma sending_turn:
  assumes W: "world_ok K b w es" and ok: "conn_ok b es w c" "unfinished c" and st: "sending (conn_state c)"
    and e: "reliable e" and held: "\<forall>e\<in>set es. reads_entry b c e \<le> lock_at b w e"
  shows "\<exists>res es'. connection_proc e c w = Inr res \<and> turned K b es w c [] res es'"
proof -
  let ?n = "unat (remaining_bytes c)" and ?fd = "file_descriptor c"
  have nr: "\<not> receiving (conn_state c)" using st by (auto simp: receiving_def sending_def)
  obtain bs where bs: "buffer_load c w ?n = Inr bs" "length bs = ?n" using sent_transferred [OF W ok(1) st, of 0] by blast
  consider "env_send e ?fd bs = Would_block" | k where "env_send e ?fd bs = Done k"
    using e by (cases "env_send e ?fd bs") (auto simp: reliable_def)
  then show ?thesis
  proof cases
    case 1
    have "transferred K b es w c [] c w"
      using same_cache_refl [OF W] lets_others_refl ok(1) st by (auto simp: transferred_def view_of_def got_def sending_def)
    moreover have "connection_proc e c w = Inr (c, w, RESULT_NO_TRANSFER)"
      using 1 st nr bs(1) by (simp add: connection_proc_def connection_transfer_def socket_call_def Let_def)
    ultimately show ?thesis using turned_partial [OF _ ok(2), of K b es w c "[]" w RESULT_NO_TRANSFER] by auto
  next
    case 2
    have k: "k \<le> ?n" using 2 e bs(2) unfolding reliable_def env_ok_def by metis
    let ?w = "record_sent w ?fd (take k bs)"
    have t: "transferred K b es w c [] (advance k c) ?w" using sent_transferred [OF W ok(1) st k] bs(1) by auto
    have tr: "connection_transfer e c w =
        Inr (advance k c, ?w, if k = 0 then RESULT_NO_TRANSFER else RESULT_SUCCESS)"
      using 2 st nr bs(1) by (simp add: connection_transfer_def socket_call_def advance_def Let_def)
    show ?thesis
    proof (cases "k = 0")
      case True
      then show ?thesis using turned_partial [OF t, of RESULT_NO_TRANSFER] ok(2) tr by (auto simp: connection_proc_def)
    next
      case False
      then have "part_size (advance k c) \<noteq> 0"
        using part_size_advance(1) [OF k part_size_small [OF W ok(1)]] k by (auto simp: part_size_def [of c])
      then show ?thesis using handled_turn [OF W t _ _ held, of e] False tr nr by (simp add: connection_proc_def)
    qed
  qed
qed

text \<open>A turn of a connection feeds the bytes that arrived to the view of its client.\<close>

lemma client_turn:
  assumes "world_ok K b w es" and "conn_ok b es w c" and "unfinished c" and "reliable e"
    and "\<forall>e\<in>set es. reads_entry b c e \<le> lock_at b w e"
    and "arrived e c \<noteq> [] \<Longrightarrow> servable K e w (got w c @ arrived e c)"
  shows "\<exists>res es'. connection_proc e c w = Inr res \<and> turned K b es w c (arrived e c) res es'"
proof (cases "receiving (conn_state c)")
  case True
  then show ?thesis using receiving_turn assms by blast
next
  case False
  then have "sending (conn_state c)"
    using assms(2) by (cases "conn_state c") (simp_all add: receiving_def sending_def conn_ok_def state_ok_def)
  then show ?thesis using sending_turn [OF assms(1-3) _ assms(4,5)] False by (simp add: arrived_def)
qed

end
