(* ===== verification/ClientPool.thy ===== *)
theory ClientPool
  imports ClientTurn
begin

text \<open>
  Any number of connections on one cache, whose requests and answers travel in pieces at the same time.
  \<open>pool_ok\<close> is their invariant and \<open>feed_client\<close> the specification: a map, and for every client the bytes
  of an unfinished request and the bytes sent or still to be sent. The turn of a connection feeds what
  arrived for its client, and nothing else changes (\<open>pool_turn\<close>, \<open>pool_turn_io\<close>).
\<close>

section \<open>A pool of connections\<close>

text \<open>Connections \<open>C\<close> at the addresses \<open>A\<close> on one cache; the read locks count those that read an entry.\<close>

definition pool_ok :: "u8 list set \<Rightarrow> nat \<Rightarrow> nat list \<Rightarrow> world \<Rightarrow> (nat \<Rightarrow> connection) \<Rightarrow> nat set \<Rightarrow> bool" where
  "pool_ok K b es w C A \<longleftrightarrow> finite A \<and> world_ok K b w es \<and> (\<forall>a\<in>A. conn_ok b es w (C a) \<and> unfinished (C a)) \<and>
     (\<forall>a\<in>A. \<forall>d\<in>A. a \<noteq> d \<longrightarrow> file_descriptor (C a) \<noteq> file_descriptor (C d) \<and> apart (C a) (C d)) \<and>
     (\<forall>e\<in>set es. lock_at b w e = (\<Sum>a\<in>A. reads_entry b (C a) e))"

lemma pool_okD:
  assumes "pool_ok K b es w C A"
  shows "finite A" and "world_ok K b w es" and "a \<in> A \<Longrightarrow> conn_ok b es w (C a)" and "a \<in> A \<Longrightarrow> unfinished (C a)"
    and "a \<in> A \<Longrightarrow> d \<in> A \<Longrightarrow> a \<noteq> d \<Longrightarrow> file_descriptor (C a) \<noteq> file_descriptor (C d)"
    and "a \<in> A \<Longrightarrow> d \<in> A \<Longrightarrow> a \<noteq> d \<Longrightarrow> apart (C a) (C d)"
    and "e \<in> set es \<Longrightarrow> lock_at b w e = (\<Sum>a\<in>A. reads_entry b (C a) e)"
  using assms unfolding pool_ok_def by blast+

lemma pool_reads:
  assumes "pool_ok K b es w C A" and "a \<in> A"
  shows "\<forall>e\<in>set es. reads_entry b (C a) e \<le> lock_at b w e"
proof
  fix e
  assume "e \<in> set es"
  then have "lock_at b w e = (\<Sum>a\<in>A. reads_entry b (C a) e)" by (rule pool_okD(7) [OF assms(1)])
  then show "reads_entry b (C a) e \<le> lock_at b w e"
    using member_le_sum [OF assms(2), of "\<lambda>a. reads_entry b (C a) e"] pool_okD(1) [OF assms(1)] by simp
qed

lemma pool_count:
  assumes P: "pool_ok K b es w C A"
  shows "(if e \<in> set es then lock_at b w e else 0) = (\<Sum>d\<in>A. reads_entry b (C d) e)"
proof (cases "e \<in> set es")
  case False
  have "reads_entry b (C d) e = 0" if "d \<in> A" for d
    using ok_entry(3) [OF pool_okD(3) [OF P that]] False by (auto simp: reads_entry_def)
  then show ?thesis using False by simp
qed (use pool_okD(7) [OF P] in simp)

text \<open>What the turn of one connection leaves to another one.\<close>

lemma pool_other:
  assumes P: "pool_ok K b es w C A" and a: "a \<in> A" and d: "d \<in> A" "d \<noteq> a"
    and t: "lets_others b es w w' (C a)" "set es \<subseteq> set es'"
  shows "conn_ok b es' w' (C d)" and "got w' (C d) = got w (C d)" and "owed w' (C d) = owed w (C d)"
    and "w_sent w' (file_descriptor (C d)) = w_sent w (file_descriptor (C d))"
proof -
  have "undisturbed b w w' (C d)"
    using t(1) pool_okD(3) [OF P d(1)] pool_okD(6) [OF P a d(1)] d(2) by (simp add: lets_others_def)
  note conn_ok_undisturbed [OF pool_okD(3) [OF P d(1)] this t(2)]
  then show "conn_ok b es' w' (C d)" "got w' (C d) = got w (C d)" "owed w' (C d) = owed w (C d)" by blast+
  show "w_sent w' (file_descriptor (C d)) = w_sent w (file_descriptor (C d))"
    using t(1) pool_okD(5) [OF P d(1) a d(2)] by (simp add: lets_others_def)
qed

text \<open>What a connection claims is apart from what another one has.\<close>

lemma claims_apart:
  assumes P: "pool_ok K b es w C A" and a: "a \<in> A" and d: "d \<in> A" "d \<noteq> a" and cl: "claims b es w (C a) c'"
  shows "apart c' (C d)" and "apart (C d) c'"
proof -
  note ok = pool_okD(3) [OF P d(1)] and W = pool_okD(2) [OF P]
  have old: "apart (C a) (C d)" "apart (C d) (C a)" using pool_okD(6) [OF P] a d by auto
  have new: "conn_entry (C d) \<noteq> p" if fr: "fresh b es w p" and dd: "conn_state (C d) = RECEIVING_BODY \<or> holds_lock (C d)" for p
  proof
    assume p: "conn_entry (C d) = p"
    from fr show False
      unfolding fresh_def
    proof (elim disjE conjE exE)
      assume "p = Ptr (next_block (w_mem w)) 0" "next_block (w_mem w) \<noteq> b"
      then show False
        using ok_entry(2,3) [OF ok, of "next_block (w_mem w)" 0] p dd fresh_block(2) [OF W] by auto
    next
      fix x
      assume "p = Ptr b x" "x \<notin> set es"
      then show False using ok_entry(1,3) [OF ok, of b x] p dd by auto
    qed
  qed
  show "apart c' (C d)" using cl old(1) new by (auto simp: claims_def apart_def)
  have indexed: "conn_entry c' \<noteq> conn_entry (C d)"
    if st: "conn_state (C d) = RECEIVING_BODY" and ix: "conn_entry c' \<in> ran (index_map (index_of w))"
  proof -
    obtain k where "index_map (index_of w) k = Some (conn_entry c')" using ix by (auto simp: ran_def)
    then obtain i where "conn_entry c' = Ptr b i" using world_okD(4) [OF W] by blast
    then show ?thesis using filling_elsewhere(1) [OF ok st] ix by metis
  qed
  show "apart (C d) c'"
    unfolding apart_def
  proof (intro impI)
    assume d': "conn_state (C d) = RECEIVING_BODY" and "conn_state c' = RECEIVING_BODY \<or> holds_lock c'"
    then consider "conn_state (C a) = RECEIVING_BODY \<or> holds_lock (C a)" "conn_entry c' = conn_entry (C a)"
      | "fresh b es w (conn_entry c')" | "conn_entry c' \<in> ran (index_map (index_of w))"
      using cl unfolding claims_def by blast
    then show "conn_entry c' \<noteq> conn_entry (C d)"
      by cases (use old(2) d' in \<open>simp add: apart_def\<close>, use new d' in metis, use indexed d' in blast)
  qed
qed

lemma pool_turn:
  assumes P: "pool_ok K b es w C A" and a: "a \<in> A" and t: "turned K b es w (C a) bs (c', w', r) es'"
    and r: "r \<noteq> RESULT_DISCONNECT"
  shows "pool_ok K b es' w' (C(a := c')) A"
proof -
  note t' = t [unfolded turned_def prod.case] and fin = pool_okD(1) [OF P]
  have sub: "set es \<subseteq> set es'" and l: "lets_others b es w w' (C a)" using t' by blast+
  have cl: "claims b es w (C a) c'" and c': "conn_ok b es' w' c'" "unfinished c'" "file_descriptor c' = file_descriptor (C a)"
    using t' r by blast+
  have count: "lock_at b w' e = (\<Sum>d\<in>A. reads_entry b ((C(a := c')) d) e)" if e: "e \<in> set es'" for e
  proof -
    have rest: "(\<Sum>d\<in>A - {a}. reads_entry b ((C(a := c')) d) e) = (\<Sum>d\<in>A - {a}. reads_entry b (C d) e)"
      by (rule sum.cong) simp_all
    have "lock_at b w' e + reads_entry b (C a) e = (\<Sum>d\<in>A. reads_entry b (C d) e) + reads_entry b c' e"
      using t' r e pool_count [OF P, of e] by (simp add: counts_def)
    then show ?thesis using rest by (simp add: sum.remove [OF fin a])
  qed
  show ?thesis
    unfolding pool_ok_def
    using t' fin c' count pool_other(1) [OF P a _ _ l sub] pool_okD(4-6) [OF P] claims_apart [OF P a _ _ cl] a
    by (auto dest: not_sym)
qed

text \<open>What has arrived of the request of a client, and all bytes of its answers.\<close>

definition io_of :: "world \<Rightarrow> connection \<Rightarrow> u8 list \<times> u8 list" where
  "io_of w c = (got w c, w_sent w (file_descriptor c) @ owed w c)"

text \<open>A connection that is closed gives up the entry that it reads, and leaves the others alone.\<close>

definition departed :: "u8 list set \<Rightarrow> nat \<Rightarrow> nat list \<Rightarrow> world \<Rightarrow> connection \<Rightarrow> world \<Rightarrow> nat list \<Rightarrow> bool" where
  "departed K b es w c w' es' \<longleftrightarrow> world_ok K b w' es' \<and> set es \<subseteq> set es' \<and> lets_others b es w w' c \<and>
     counts b es w c w' (\<lambda>_. 0) es'"

lemma turned_departed:
  "turned K b es w c bs (c', w', RESULT_DISCONNECT) es' \<Longrightarrow> departed K b es w c w' es'"
  "turned K b es w c bs (c', w', RESULT_DISCONNECT) es' \<Longrightarrow> io_of w' c' = ([], w_sent w' (file_descriptor c))"
  by (simp_all add: turned_def departed_def io_of_def)

lemma pool_closed:
  assumes P: "pool_ok K b es w C A" and a: "a \<in> A" and t: "departed K b es w (C a) w' es'"
  shows "pool_ok K b es' w' C (A - {a})"
proof -
  note t' = t [unfolded departed_def] and fin = pool_okD(1) [OF P]
  have sub: "set es \<subseteq> set es'" and l: "lets_others b es w w' (C a)" using t' by blast+
  have "lock_at b w' e = (\<Sum>d\<in>A - {a}. reads_entry b (C d) e)" if e: "e \<in> set es'" for e
  proof -
    have "lock_at b w' e + reads_entry b (C a) e = (\<Sum>d\<in>A. reads_entry b (C d) e)"
      using t' e pool_count [OF P, of e] by (simp add: counts_def)
    then show ?thesis by (simp add: sum.remove [OF fin a])
  qed
  then show ?thesis
    unfolding pool_ok_def using t' fin pool_other(1) [OF P a _ _ l sub] pool_okD(4-6) [OF P] by auto
qed

text \<open>A connection that was just accepted.\<close>

lemma idle_conn_ok:
  assumes "idle c"
  shows "conn_ok b es w c" and "unfinished c" and "got w c = []" and "owed w c = []" and "reads_entry b c e = 0"
    and "conn_state c \<noteq> RECEIVING_BODY" and "\<not> holds_lock c"
proof -
  have st: "conn_state c = RECEIVING_HEADER" using assms by (simp add: idle_def)
  then show "owed w c = []" "reads_entry b c e = 0" "\<not> holds_lock c" "conn_state c \<noteq> RECEIVING_BODY"
    using receiving_free [of c] by (simp_all add: receiving_def)
  show "conn_ok b es w c" "unfinished c" "got w c = []"
    using assms st by (simp_all add: idle_def conn_ok_def state_ok_def unfinished_def part_size_def got_def wire_sizes)
qed

lemma pool_accept:
  assumes P: "pool_ok K b es w C A" and a: "a \<notin> A" and c: "idle c"
    and fd: "\<forall>d\<in>A. file_descriptor (C d) \<noteq> file_descriptor c"
  shows "pool_ok K b es w (C(a := c)) (insert a A)"
proof -
  note i = idle_conn_ok [OF c]
  have "(\<Sum>d\<in>insert a A. reads_entry b ((C(a := c)) d) e) = (\<Sum>d\<in>A. reads_entry b (C d) e)" for e
  proof -
    have "(\<Sum>d\<in>A. reads_entry b ((C(a := c)) d) e) = (\<Sum>d\<in>A. reads_entry b (C d) e)"
      using a by (intro sum.cong) auto
    then show ?thesis using a i(5) pool_okD(1) [OF P] by simp
  qed
  then show ?thesis
    unfolding pool_ok_def using pool_okD [OF P] i(1,2,6,7) a fd by (auto simp: apart_def)
qed

section \<open>The specification\<close>

text \<open>A map, and for every descriptor the bytes of an unfinished request and all bytes of the answers.\<close>

type_synonym service_view = "cache_map \<times> (int \<Rightarrow> u8 list \<times> u8 list)"

definition feed_client :: "int \<times> u8 list \<Rightarrow> service_view \<Rightarrow> service_view" where
  "feed_client = (\<lambda>(fd, bs) (m, v). (let (m', io) = feed bs (m, v fd) in (m', v(fd := io))))"

definition pool_io :: "world \<Rightarrow> (nat \<Rightarrow> connection) \<Rightarrow> nat set \<Rightarrow> (int \<Rightarrow> u8 list \<times> u8 list) \<Rightarrow> bool" where
  "pool_io w C A v \<longleftrightarrow> (\<forall>a\<in>A. v (file_descriptor (C a)) = io_of w (C a)) \<and>
     (\<forall>fd. fd \<notin> (\<lambda>a. file_descriptor (C a)) ` A \<longrightarrow> v fd = ([], w_sent w fd))"

lemma pool_io_unique: "pool_io w C A v \<Longrightarrow> pool_io w C A v' \<Longrightarrow> v = v'"
proof
  fix fd
  assume "pool_io w C A v" "pool_io w C A v'"
  then show "v fd = v' fd" by (cases "fd \<in> (\<lambda>a. file_descriptor (C a)) ` A") (auto simp: pool_io_def)
qed

lemma view_of_io: "view_of w c = (contents w, io_of w c)"
  by (simp add: view_of_def io_of_def)

text \<open>The clients without a turn see nothing of it.\<close>

lemma pool_rest_io:
  assumes P: "pool_ok K b es w C A" and a: "a \<in> A" and l: "lets_others b es w w' (C a)" and sub: "set es \<subseteq> set es'"
    and v: "pool_io w C A v"
  shows "d \<in> A \<Longrightarrow> d \<noteq> a \<Longrightarrow> (v(file_descriptor (C a) := io)) (file_descriptor (C d)) = io_of w' (C d)"
    and "fd \<notin> (\<lambda>d. file_descriptor (C d)) ` A \<Longrightarrow> (v(file_descriptor (C a) := io)) fd = ([], w_sent w' fd)"
proof -
  show "(v(file_descriptor (C a) := io)) (file_descriptor (C d)) = io_of w' (C d)" if "d \<in> A" "d \<noteq> a"
    using pool_other [OF P a that l sub] pool_okD(5) [OF P that(1) a that(2)] v that(1) by (simp add: io_of_def pool_io_def)
  show "fd \<notin> (\<lambda>d. file_descriptor (C d)) ` A \<Longrightarrow> (v(file_descriptor (C a) := io)) fd = ([], w_sent w' fd)"
    using v l a by (auto simp: pool_io_def lets_others_def)
qed

text \<open>A turn feeds the view of the pool.\<close>

lemma pool_turn_io:
  assumes P: "pool_ok K b es w C A" and a: "a \<in> A" and t: "turned K b es w (C a) bs (c', w', r) es'"
    and v: "pool_io w C A v"
  defines "v' \<equiv> v(file_descriptor (C a) := io_of w' c')"
  shows "feed_client (file_descriptor (C a), bs) (contents w, v) = (contents w', v')"
    and "r \<noteq> RESULT_DISCONNECT \<Longrightarrow> pool_io w' (C(a := c')) A v'"
proof -
  note t' = t [unfolded turned_def prod.case]
  have sub: "set es \<subseteq> set es'" and l: "lets_others b es w w' (C a)" and fd: "file_descriptor c' = file_descriptor (C a)"
    using t' by blast+
  have "(contents w', io_of w' c') = feed bs (contents w, io_of w (C a))" using t' unfolding view_of_io by blast
  moreover have "v (file_descriptor (C a)) = io_of w (C a)" using v a by (simp add: pool_io_def)
  ultimately have step: "feed bs (contents w, v (file_descriptor (C a))) = (contents w', io_of w' c')" by simp
  then show "feed_client (file_descriptor (C a), bs) (contents w, v) = (contents w', v')"
    using step by (simp add: feed_client_def v'_def)
  note rest = pool_rest_io [OF P a l sub v, of _ "io_of w' c'", folded v'_def]
  show "pool_io w' (C(a := c')) A v'"
    unfolding pool_io_def
  proof (intro conjI ballI allI impI)
    fix d
    assume "d \<in> A"
    then show "v' (file_descriptor ((C(a := c')) d)) = io_of w' ((C(a := c')) d)"
      using rest(1) [of d] fd by (cases "d = a") (simp_all add: v'_def)
  next
    fix f
    assume f: "f \<notin> (\<lambda>d. file_descriptor ((C(a := c')) d)) ` A"
    have "(\<lambda>d. file_descriptor ((C(a := c')) d)) ` A = (\<lambda>d. file_descriptor (C d)) ` A"
      by (rule image_cong) (simp_all add: fd)
    then show "v' f = ([], w_sent w' f)" using rest(2) f by simp
  qed
qed

lemma pool_closed_io:
  assumes P: "pool_ok K b es w C A" and a: "a \<in> A" and t: "departed K b es w (C a) w' es'" and v: "pool_io w C A v"
  defines "v' \<equiv> v(file_descriptor (C a) := ([], w_sent w' (file_descriptor (C a))))"
  shows "pool_io w' C (A - {a}) v'"
proof -
  have sub: "set es \<subseteq> set es'" and l: "lets_others b es w w' (C a)" using t by (simp_all add: departed_def)
  note rest = pool_rest_io [OF P a l sub v, of _ "([], w_sent w' (file_descriptor (C a)))", folded v'_def]
  have "v' f = ([], w_sent w' f)" if "f \<notin> (\<lambda>d. file_descriptor (C d)) ` (A - {a})" for f
    using rest(2) [of f] that by (cases "f = file_descriptor (C a)") (auto simp: v'_def)
  then show ?thesis using rest(1) by (simp add: pool_io_def)
qed

lemma pool_accept_io:
  assumes a: "a \<notin> A" and c: "idle c" and fd: "\<forall>d\<in>A. file_descriptor (C d) \<noteq> file_descriptor c" and v: "pool_io w C A v"
  shows "pool_io w (C(a := c)) (insert a A) v"
proof -
  have "file_descriptor c \<notin> (\<lambda>d. file_descriptor (C d)) ` A" using fd by force
  then have new: "v (file_descriptor c) = io_of w c" using v idle_conn_ok(3,4) [OF c] by (simp add: pool_io_def io_of_def)
  have "(\<lambda>d. file_descriptor ((C(a := c)) d)) ` A = (\<lambda>d. file_descriptor (C d)) ` A"
    by (rule image_cong) (use a in auto)
  then have img: "(\<lambda>d. file_descriptor ((C(a := c)) d)) ` insert a A =
      insert (file_descriptor c) ((\<lambda>d. file_descriptor (C d)) ` A)"
    by simp
  show ?thesis unfolding pool_io_def img using v new a by (auto simp: pool_io_def)
qed

section \<open>Connections that differ in their links\<close>

lemma relinked:
  assumes "connection_links.more c' = connection_links.more (c :: connection)"
  obtains p n where "c' = c\<lparr>previous := p, next := n\<rparr>"
  by (rule that [where p = "previous c'" and n = "next c'"], rule connection_links.equality) (simp_all add: assms)

lemma linked_fields [simp]:
  "request_of (c\<lparr>previous := p, next := n\<rparr>) = request_of c" "kind_of (c\<lparr>previous := p, next := n\<rparr>) = kind_of c"
  "part_size (c\<lparr>previous := p, next := n\<rparr>) = part_size c"
  "arguments_size (c\<lparr>previous := p, next := n\<rparr>) = arguments_size c"
  "key_arguments_of (c\<lparr>previous := p, next := n\<rparr>) = key_arguments_of c"
  "key_value_arguments_of (c\<lparr>previous := p, next := n\<rparr>) = key_value_arguments_of c"
  "holds_lock (c\<lparr>previous := p, next := n\<rparr>) = holds_lock c" "unfinished (c\<lparr>previous := p, next := n\<rparr>) = unfinished c"
  by (simp_all add: request_of_def kind_of_def part_size_def arguments_size_def key_arguments_of_def
      key_value_arguments_of_def holds_lock_def unfinished_def)

lemma linked_io [simp]:
  "got w (c\<lparr>previous := p, next := n\<rparr>) = got w c" "owed w (c\<lparr>previous := p, next := n\<rparr>) = owed w c"
proof -
  have fields: "conn_state (c\<lparr>previous := p, next := n\<rparr>) = conn_state c" "conn_buffer (c\<lparr>previous := p, next := n\<rparr>) = conn_buffer c"
    "buffer_index (c\<lparr>previous := p, next := n\<rparr>) = buffer_index c" "conn_entry (c\<lparr>previous := p, next := n\<rparr>) = conn_entry c"
    "header_union (c\<lparr>previous := p, next := n\<rparr>) = header_union c"
    "arguments_union (c\<lparr>previous := p, next := n\<rparr>) = arguments_union c"
    by simp_all
  show "got w (c\<lparr>previous := p, next := n\<rparr>) = got w c" "owed w (c\<lparr>previous := p, next := n\<rparr>) = owed w c"
    by (simp_all only: got_def owed_def fields linked_fields)
qed

lemma linked_parts [simp]:
  "takes_key b w (c\<lparr>previous := p, next := n\<rparr>) = takes_key b w c"
  "takes_pair b es w (c\<lparr>previous := p, next := n\<rparr>) = takes_pair b es w c"
  "sends_value b es w (c\<lparr>previous := p, next := n\<rparr>) = sends_value b es w c"
  "sends_code (c\<lparr>previous := p, next := n\<rparr>) = sends_code c"
  by (simp_all add: takes_key_def takes_pair_def sends_code_def sends_value_def fun_eq_iff)

lemma linked_conn_ok [simp]: "conn_ok b es w (c\<lparr>previous := p, next := n\<rparr>) = conn_ok b es w c"
  by (cases "conn_state c") (simp_all add: conn_ok_def state_ok_def)

lemma relinked_same:
  assumes "connection_links.more c' = connection_links.more (c :: connection)"
  shows "conn_ok b es w c' = conn_ok b es w c" and "unfinished c' = unfinished c" and "io_of w c' = io_of w c"
    and "file_descriptor c' = file_descriptor c" and "reads_entry b c' = reads_entry b c"
    and "apart c' d = apart c d" and "apart d c' = apart d c" and "idle c' = idle c"
proof -
  obtain p n where c': "c' = c\<lparr>previous := p, next := n\<rparr>" using relinked [OF assms] .
  show "conn_ok b es w c' = conn_ok b es w c" "unfinished c' = unfinished c" "io_of w c' = io_of w c"
    "file_descriptor c' = file_descriptor c" "reads_entry b c' = reads_entry b c"
    "apart c' d = apart c d" "apart d c' = apart d c" "idle c' = idle c"
    unfolding c' by (simp_all add: io_of_def reads_entry_def apart_def idle_def fun_eq_iff)
qed

lemma pool_relinked:
  assumes "\<forall>a\<in>A. connection_links.more (C' a) = connection_links.more (C a)"
  shows "pool_ok K b es w C A \<Longrightarrow> pool_ok K b es w C' A" and "pool_io w C A v \<Longrightarrow> pool_io w C' A v"
proof -
  note same = relinked_same [OF bspec [OF assms]]
  have count: "(\<Sum>a\<in>A. reads_entry b (C' a) e) = (\<Sum>a\<in>A. reads_entry b (C a) e)" for e
    by (rule sum.cong) (simp_all add: same(5))
  have apart: "apart (C' a) (C' d)" if "apart (C a) (C d)" "a \<in> A" "d \<in> A" for a d
    using that same(6,7) by blast
  assume P: "pool_ok K b es w C A"
  show "pool_ok K b es w C' A"
    unfolding pool_ok_def
  proof (intro conjI ballI impI)
    show "finite A" "world_ok K b w es" using pool_okD(1,2) [OF P] by blast+
  qed (use pool_okD(3-7) [OF P] same(1,2,4) count apart in \<open>simp_all\<close>)
next
  note same = relinked_same [OF bspec [OF assms]]
  have "(\<lambda>a. file_descriptor (C' a)) ` A = (\<lambda>a. file_descriptor (C a)) ` A"
    by (rule image_cong) (simp_all add: same(4))
  moreover assume "pool_io w C A v"
  ultimately show "pool_io w C' A v" using same(3,4) by (simp add: pool_io_def)
qed

end
