(* ===== verification/ManyClients.thy ===== *)
theory ManyClients
  imports ClientPool
begin

text \<open>
  The server with any number of clients at the same time. A round of the loop accepts a client or feeds
  what arrived for the one whose turn it is to the specification \<open>feed_client\<close> (\<open>clients_round\<close>).
\<close>

section \<open>The clients of a server\<close>

text \<open>The served connections, read from the list.\<close>

fun links_from :: "'a conn_heap \<Rightarrow> nat \<Rightarrow> conn_ref \<Rightarrow> nat list" where
  "links_from h 0 r = []"
| "links_from h (Suc n) None = []"
| "links_from h (Suc n) (Some a) = a # (case h a of None \<Rightarrow> [] | Some c \<Rightarrow> links_from h n (next c))"

definition clients :: "server \<Rightarrow> nat list" where
  "clients s = links_from (conns s) (unat (list_count (served_list s))) (list_head (served_list s))"

definition conn_at :: "server \<Rightarrow> nat \<Rightarrow> connection" where
  "conn_at s a = the (conns s a)"

lemma links_from_linked: "linked h p xs None \<Longrightarrow> links_from h (length xs) (first_of xs) = xs"
proof (induction xs arbitrary: p)
  case (Cons x xs)
  then show ?case by (cases xs) (auto simp: first_of_def)
qed (simp add: first_of_def)

lemma clients_eq:
  assumes "conn_list (conns s) (served_list s) xs" and "length xs < 2 ^ 16"
  shows "clients s = xs"
  using assms links_from_linked [of "conns s" None xs] by (simp add: clients_def conn_list_def unat_of_nat)

lemma listed: "conn_list h ctx xs \<Longrightarrow> a \<in> set xs \<Longrightarrow> h a \<noteq> None"
proof -
  assume L: "conn_list h ctx xs" and "a \<in> set xs"
  then obtain ys zs where "xs = ys @ a # zs" by (meson split_list)
  with L show "h a \<noteq> None" using member_links [of h ctx ys a zs] by auto
qed

text \<open>What a client sees of the server: the map, its unfinished request and its answers.\<close>

definition server_io :: "server \<Rightarrow> int \<Rightarrow> u8 list \<times> u8 list" where
  "server_io s fd =
     (case find (\<lambda>c. file_descriptor c = fd) (map (conn_at s) (clients s)) of
        None \<Rightarrow> ([], w_sent (sworld s) fd) | Some c \<Rightarrow> io_of (sworld s) c)"

definition clients_view :: "server \<Rightarrow> service_view" where
  "clients_view s = (contents (sworld s), server_io s)"

definition served :: "u8 list set \<Rightarrow> nat \<Rightarrow> nat list \<Rightarrow> server \<Rightarrow> bool" where
  "served K b es s \<longleftrightarrow> conn_list (conns s) (served_list s) (clients s) \<and> length (clients s) < 2 ^ 16 \<and>
     blocked_head (blocked_lists s) = None \<and>
     (case current_connection s of None \<Rightarrow> clients s = [] | Some a \<Rightarrow> a \<in> set (clients s)) \<and>
     pool_ok K b es (sworld s) (conn_at s) (set (clients s))"

definition clients_ok :: "u8 list set \<Rightarrow> nat \<Rightarrow> server \<Rightarrow> bool" where
  "clients_ok K b s \<longleftrightarrow> (\<exists>es. served K b es s)"

lemma servedI:
  assumes "conn_list (conns s) (served_list s) xs" and "length xs < 2 ^ 16" and "blocked_head (blocked_lists s) = None"
    and "case current_connection s of None \<Rightarrow> xs = [] | Some a \<Rightarrow> a \<in> set xs"
    and "pool_ok K b es (sworld s) (conn_at s) (set xs)"
  shows "served K b es s" and "clients s = xs"
  using assms clients_eq [OF assms(1,2)] unfolding served_def by metis+

lemma server_pool_io:
  assumes "pool_ok K b es (sworld s) (conn_at s) (set (clients s))"
  shows "pool_io (sworld s) (conn_at s) (set (clients s)) (server_io s)"
  unfolding pool_io_def
proof (intro conjI ballI allI impI)
  fix a
  assume a: "a \<in> set (clients s)"
  let ?P = "\<lambda>c. file_descriptor c = file_descriptor (conn_at s a)"
  obtain c where c: "find ?P (map (conn_at s) (clients s)) = Some c"
    using a by (cases "find ?P (map (conn_at s) (clients s))") (auto simp: find_None_iff)
  then have "c \<in> set (map (conn_at s) (clients s))" "?P c" by (auto simp: find_Some_iff)
  then obtain d where "d \<in> set (clients s)" "c = conn_at s d" "?P c" by auto
  then have "c = conn_at s a" using pool_okD(5) [OF assms _ a, of d] by metis
  then show "server_io s (file_descriptor (conn_at s a)) = io_of (sworld s) (conn_at s a)"
    using c by (simp add: server_io_def)
next
  fix fd
  assume fd: "fd \<notin> (\<lambda>a. file_descriptor (conn_at s a)) ` set (clients s)"
  have "find (\<lambda>c. file_descriptor c = fd) (map (conn_at s) (clients s)) = None"
    using fd by (auto simp: find_None_iff)
  then show "server_io s fd = ([], w_sent (sworld s) fd)" by (simp add: server_io_def)
qed

lemma server_io_eq:
  assumes "served K b es s" and "pool_io (sworld s) (conn_at s) (set (clients s)) v"
  shows "server_io s = v"
  using assms server_pool_io [of K b es s] pool_io_unique unfolding served_def by blast

section \<open>Rounds\<close>

definition fed_now :: "turn_env \<Rightarrow> server \<Rightarrow> int \<times> u8 list" where
  "fed_now e s =
     (if accept_due e s then (0, [])
      else let c = conn_at s (the (current_connection s)) in (file_descriptor c, arrived (te_conn e) c))"

text \<open>
  A round can be served: a client that calls gets a descriptor and memory that are not in use; the
  socket of the current connection does not fail and what arrived can be served.
\<close>

definition accepts_fresh :: "turn_env \<Rightarrow> server \<Rightarrow> bool" where
  "accepts_fresh e s \<longleftrightarrow>
     (\<forall>fd. te_accept e = Done fd \<longrightarrow> te_address e \<notin> set (clients s) \<and> length (clients s) + 1 < 2 ^ 16 \<and>
        (\<forall>a\<in>set (clients s). file_descriptor (conn_at s a) \<noteq> fd) \<and>
        length (header_union (te_junk e)) = aggregate_response_size \<and>
        length (arguments_union (te_junk e)) = key_value_arguments_size)"

definition round_ready :: "u8 list set \<Rightarrow> turn_env \<Rightarrow> server \<Rightarrow> bool" where
  "round_ready K e s \<longleftrightarrow>
     (if accept_due e s then accepts_fresh e s
      else
        (let c = conn_at s (the (current_connection s)); bs = arrived (te_conn e) c
         in reliable (te_conn e) \<and>
            (bs \<noteq> [] \<longrightarrow> servable K (te_conn e) (sworld s) (got (sworld s) c @ bs))))"

text \<open>Connections are equal up to their links, and the view is that of their pool.\<close>

lemma served_relinked:
  assumes P: "pool_ok K b es w C A" and v: "pool_io w C A v"
    and heap: "same_payload h (conns s)" "\<forall>a\<in>A. h a = Some (C a)"
    and L: "conn_list (conns s) (served_list s) xs" "set xs = A" "length xs < 2 ^ 16"
    and s: "sworld s = w" "blocked_head (blocked_lists s) = None"
      "case current_connection s of None \<Rightarrow> xs = [] | Some a \<Rightarrow> a \<in> set xs"
  shows "served K b es s" and "server_io s = v"
proof -
  have "\<forall>a\<in>A. connection_links.more (conn_at s a) = connection_links.more (C a)"
  proof
    fix a
    assume a: "a \<in> A"
    then obtain c where "conns s a = Some c" using listed [OF L(1), of a] L(2) by auto
    moreover have "map_option connection_links.more (conns s a) = map_option connection_links.more (h a)"
      using heap(1) by (simp add: same_payload_def)
    ultimately show "connection_links.more (conn_at s a) = connection_links.more (C a)"
      using heap(2) a by (simp add: conn_at_def)
  qed
  note re = pool_relinked [OF this]
  have "pool_ok K b es (sworld s) (conn_at s) (set xs)" using re(1) [OF P] s(1) L(2) by simp
  note sv = servedI [OF L(1,3) s(2,3) this]
  then show "served K b es s" by simp
  have "pool_io (sworld s) (conn_at s) (set (clients s)) v" using re(2) [OF v] s(1) L(2) sv(2) by simp
  with sv(1) show "server_io s = v" by (rule server_io_eq)
qed


lemma servedD:
  assumes "served K b es s"
  shows "conn_list (conns s) (served_list s) (clients s)" and "length (clients s) < 2 ^ 16"
    and "blocked_head (blocked_lists s) = None" and "pool_ok K b es (sworld s) (conn_at s) (set (clients s))"
    and "current_connection s = None \<Longrightarrow> clients s = []" and "current_connection s = Some a \<Longrightarrow> a \<in> set (clients s)"
    and "d \<in> set (clients s) \<Longrightarrow> conns s d = Some (conn_at s d)"
proof -
  show "conns s d = Some (conn_at s d)" if "d \<in> set (clients s)"
    using listed [of "conns s" "served_list s" "clients s" d] that assms by (auto simp: served_def conn_at_def)
qed (use assms in \<open>simp_all add: served_def\<close>)

text \<open>The state after a round in which the connection at \<open>a\<close> was closed, and after one that served it.\<close>

lemma served_departed:
  assumes S: "served K b es s" and xs: "clients s = ys @ a # zs"
    and t: "departed K b es (sworld s) (conn_at s a) w' es'"
    and s': "sworld s' = w'" "blocked_head (blocked_lists s') = None"
      "conn_list (conns s') (served_list s') (ys @ zs)"
      "case current_connection s' of None \<Rightarrow> ys @ zs = [] | Some d \<Rightarrow> d \<in> set (ys @ zs)"
    and pay: "same_payload ((conns s)(a := None)) (conns s')"
  shows "served K b es' s'"
    and "server_io s' = (server_io s)(file_descriptor (conn_at s a) := ([], w_sent w' (file_descriptor (conn_at s a))))"
proof -
  note S' = servedD [OF S]
  let ?A = "set (clients s)" and ?C = "conn_at s"
  have a: "a \<in> ?A" by (simp add: xs)
  have A: "set (ys @ zs) = ?A - {a}" using S'(1) by (auto simp: xs conn_list_def)
  have heap: "\<forall>d\<in>?A - {a}. ((conns s)(a := None)) d = Some (?C d)" using S'(7) by simp
  have len: "length (ys @ zs) < 2 ^ 16" using S'(2) by (simp add: xs)
  note served_relinked [OF pool_closed [OF S'(4) a t] pool_closed_io [OF S'(4) a t server_pool_io [OF S'(4)]]
    pay heap s'(3) A len s'(1,2,4)]
  then show "served K b es' s'"
    "server_io s' = (server_io s)(file_descriptor (?C a) := ([], w_sent w' (file_descriptor (?C a))))"
    by blast+
qed

lemma served_after:
  assumes S: "served K b es s" and xs: "clients s = ys @ a # zs"
    and t: "turned K b es (sworld s) (conn_at s a) bs (c', w', r) es'"
    and s': "sworld s' = w'" "blocked_head (blocked_lists s') = None"
      "conn_list (conns s') (served_list s') (turn_list r ys a zs)" "current_connection s' = turn_current r ys a zs"
    and pay: "same_payload ((conns s)(a := if r = RESULT_DISCONNECT then None else Some c')) (conns s')"
  shows "served K b es' s'"
    and "server_io s' = (server_io s)(file_descriptor (conn_at s a) := io_of w' c')"
proof -
  note S' = servedD [OF S]
  let ?A = "set (clients s)" and ?C = "conn_at s"
  have a: "a \<in> ?A" by (simp add: xs)
  have r: "r \<noteq> RESULT_READ_BLOCKED" "r \<noteq> RESULT_WRITE_BLOCKED" using t by (auto simp: turned_def)
  have len: "length (turn_list r ys a zs) < 2 ^ 16" using S'(2) by (cases r) (simp_all add: xs turn_list_def)
  have cu: "case current_connection s' of None \<Rightarrow> turn_list r ys a zs = [] | Some d \<Rightarrow> d \<in> set (turn_list r ys a zs)"
    using r by (cases r; cases zs; cases ys) (simp_all add: s'(4) turn_current_def turn_list_def first_of_def)
  have "served K b es' s' \<and> server_io s' = (server_io s)(file_descriptor (?C a) := io_of w' c')"
  proof (cases "r = RESULT_DISCONNECT")
    case True
    have list: "turn_list r ys a zs = ys @ zs" using True by (simp add: turn_list_def)
    note d = turned_departed [OF t [unfolded True]]
    have pay': "same_payload ((conns s)(a := None)) (conns s')" using pay True by simp
    show ?thesis
      using served_departed [OF S xs d(1) s'(1,2) _ _ pay'] s'(3) cu unfolding list d(2) by blast
  next
    case False
    have A: "set (turn_list r ys a zs) = ?A" using False by (cases r) (auto simp: turn_list_def xs)
    have heap: "\<forall>d\<in>?A. ((conns s)(a \<mapsto> c')) d = Some ((?C(a := c')) d)" using S'(7) by simp
    have pay': "same_payload ((conns s)(a \<mapsto> c')) (conns s')" using pay False by simp
    note io = pool_turn_io(2) [OF S'(4) a t server_pool_io [OF S'(4)] False]
    from served_relinked [OF pool_turn [OF S'(4) a t False] io pay' heap s'(3) A len s'(1,2) cu]
    show ?thesis ..
  qed
  then show "served K b es' s'" "server_io s' = (server_io s)(file_descriptor (?C a) := io_of w' c')" by blast+
qed

text \<open>
  A round that serves the connection at \<open>a\<close>: what its turn does, and what becomes of the list of clients
  and the turn.
\<close>

lemma serving_step:
  assumes S: "served K b es s" and cur: "current_connection s = Some a" and due: "\<not> accept_due e s"
    and ready: "round_ready K e s"
  obtains s' es' c' w' r ys zs where "clients s = ys @ a # zs"
    and "connection_proc (te_conn e) (conn_at s a) (sworld s) = Inr (c', w', r)"
    and "turned K b es (sworld s) (conn_at s a) (arrived (te_conn e) (conn_at s a)) (c', w', r) es'"
    and "cache_server_proc (Suc fuel) e s = Inr s'" and "served K b es' s'" and "sworld s' = w'"
    and "clients s' = turn_list r ys a zs" and "current_connection s' = turn_current r ys a zs"
    and "last_accept_timestamp s' = last_accept_timestamp s"
    and "clients_view s' = feed_client (file_descriptor (conn_at s a), arrived (te_conn e) (conn_at s a)) (clients_view s)"
    and "\<forall>d\<in>set (clients s'). connection_links.more (conn_at s' d) =
      connection_links.more (if d = a then c' else conn_at s d)"
proof -
  note S' = servedD [OF S] and a = servedD(6) [OF S cur]
  let ?w = "sworld s" and ?env = "te_conn e" and ?c = "conn_at s a" and ?bs = "arrived (te_conn e) (conn_at s a)"
  obtain ys zs where xs: "clients s = ys @ a # zs" using a by (meson split_list)
  have L: "conn_list (conns s) (served_list s) (ys @ a # zs)" using S'(1) xs by simp
  have c: "conns s a = Some ?c" "conn_ok b es ?w ?c" "unfinished ?c"
    using S'(7) [OF a] pool_okD(3,4) [OF S'(4) a] by blast+
  then have ev: "lock_release_event ?c \<noteq> LOCK_EVENT_BLOCKED" by (simp add: conn_ok_def)
  have "reliable ?env" "?bs \<noteq> [] \<Longrightarrow> servable K ?env ?w (got ?w ?c @ ?bs)"
    using ready due cur by (simp_all add: round_ready_def Let_def)
  with client_turn [OF pool_okD(2) [OF S'(4)] c(2,3) _ pool_reads [OF S'(4) a]]
  obtain c' w' r es' where proc: "connection_proc ?env ?c ?w = Inr (c', w', r)"
    and t: "turned K b es ?w ?c ?bs (c', w', r) es'"
    by (metis prod_cases3)
  have r: "r \<noteq> RESULT_READ_BLOCKED" "r \<noteq> RESULT_WRITE_BLOCKED" using t by (auto simp: turned_def)
  obtain h ctx where h: "cache_server_proc (Suc fuel) e s =
      Inr (s\<lparr>sworld := w', conns := h, served_list := ctx, current_connection := turn_current r ys a zs,
             closed_descriptors := closed_descriptors s @ turn_closed r c'\<rparr>)"
    "conn_list h ctx (turn_list r ys a zs)"
    "same_payload ((conns s)(a := if r = RESULT_DISCONNECT then None else Some c')) h"
    using round_outcome [OF L cur due c(1) ev S'(3) proc r] .
  let ?s = "s\<lparr>sworld := w', conns := h, served_list := ctx, current_connection := turn_current r ys a zs,
             closed_descriptors := closed_descriptors s @ turn_closed r c'\<rparr>"
  have sv: "served K b es' ?s" "server_io ?s = (server_io s)(file_descriptor ?c := io_of w' c')"
    by (rule served_after [OF S xs t]; use h(2,3) S'(3) in simp)+
  have "clients_view ?s = feed_client (file_descriptor ?c, ?bs) (clients_view s)"
    using sv(2) pool_turn_io(1) [OF S'(4) a t server_pool_io [OF S'(4)]] by (simp add: clients_view_def)
  moreover have list: "clients ?s = turn_list r ys a zs"
    using clients_eq [of ?s "turn_list r ys a zs"] h(2) S'(2) by (cases r) (simp_all add: xs turn_list_def)
  moreover have "connection_links.more (conn_at ?s d) = connection_links.more (if d = a then c' else conn_at s d)"
    if d: "d \<in> set (clients ?s)" for d
  proof -
    have d': "d \<in> set (clients s)" "d = a \<Longrightarrow> r \<noteq> RESULT_DISCONNECT"
      using d list S'(1) by (auto simp: xs turn_list_def conn_list_def split: if_splits connection_result.splits)
    obtain q where q: "h d = Some q" using listed [OF h(2)] d list by auto
    have "map_option connection_links.more (h d) =
        map_option connection_links.more (((conns s)(a := if r = RESULT_DISCONNECT then None else Some c')) d)"
      using h(3) by (simp add: same_payload_def)
    then have "connection_links.more q = connection_links.more (if d = a then c' else conn_at s d)"
      using q d' S'(7) [of d] by (auto split: if_splits)
    then show ?thesis using q by (simp add: conn_at_def)
  qed
  ultimately show ?thesis using that [OF xs proc t h(1) sv(1)] by simp
qed

lemma serving_round:
  assumes S: "served K b es s" and due: "\<not> accept_due e s" and ready: "round_ready K e s"
  shows "\<exists>s' es'. cache_server_proc (Suc fuel) e s = Inr s' \<and> served K b es' s' \<and>
    clients_view s' = feed_client (fed_now e s) (clients_view s)"
proof -
  obtain a where cur: "current_connection s = Some a" using due by (auto simp: accept_due_def)
  show ?thesis
    by (rule serving_step [OF S cur due ready, of fuel]) (use due cur in \<open>auto simp: fed_now_def Let_def\<close>)
qed

lemma served_partial:
  assumes "served K b es s"
  shows "parse_request (fst (server_io s fd)) = Partial"
proof (cases "find (\<lambda>c. file_descriptor c = fd) (map (conn_at s) (clients s))")
  case None
  then show ?thesis by (simp add: server_io_def parse_nothing wire_sizes)
next
  case (Some c)
  then have "c \<in> set (map (conn_at s) (clients s))" by (auto simp: find_Some_iff)
  then obtain a where "a \<in> set (clients s)" "c = conn_at s a" by auto
  then have "conn_ok b es (sworld s) c" "unfinished c" using pool_okD(3,4) [OF servedD(4) [OF assms]] by blast+
  then show ?thesis using Some parse_unfinished by (simp add: server_io_def io_of_def)
qed

lemma feed_nothing: "served K b es s \<Longrightarrow> feed_client (fd, []) (clients_view s) = clients_view s"
  using served_partial [of K b es s fd] feed_partial [of "fst (server_io s fd)" "contents (sworld s)" "snd (server_io s fd)"]
  by (simp add: feed_client_def clients_view_def)

text \<open>A client that calls is put behind the others, where its connection waits for a request.\<close>

lemma call_taken:
  assumes S: "served K b es s" and ready: "accepts_fresh e s" and fd: "te_accept e = Done fd"
    and init: "connection_init (te_alloc e) (te_getfl e) (te_setfl e) (te_junk e) fd = Some c"
  obtains s' where "accept_connection e s = Inr (s', 0)" and "served K b es s'" and "server_io s' = server_io s"
    and "sworld s' = sworld s" and "clients s' = clients s @ [te_address e]" and "idle c"
    and "current_connection s \<noteq> None \<longrightarrow> current_connection s' = current_connection s"
    and "\<forall>a\<in>set (clients s). connection_links.more (conn_at s' a) = connection_links.more (conn_at s a)"
    and "connection_links.more (conn_at s' (te_address e)) = connection_links.more c"
    and "last_accept_timestamp s' = time_get_timestamp (te_accept_time e)"
proof -
  let ?t = "s\<lparr>last_accept_timestamp := time_get_timestamp (te_accept_time e)\<rparr>"
  let ?a = "te_address e" and ?A = "set (clients s)" and ?C = "conn_at s"
  have new: "?a \<notin> ?A" "length (clients s) + 1 < 2 ^ 16" "\<forall>d\<in>?A. file_descriptor (?C d) \<noteq> fd"
    "length (header_union (te_junk e)) = aggregate_response_size" "length (arguments_union (te_junk e)) = key_value_arguments_size"
    using ready fd by (simp_all add: accepts_fresh_def)
  have c_eq: "c = init_request ((te_junk e)\<lparr>previous := None, next := None, file_descriptor := fd\<rparr>)"
    using init by (simp add: connection_init_def split: if_splits)
  have c: "idle c" "file_descriptor c = fd" "previous c = None" "next c = None"
    using new(4,5) by (simp_all add: c_eq init_request_idle) (simp_all add: init_request_def)
  let ?h = "(conns s)(?a \<mapsto> c)"
  have "conn_list ?h (served_list s) (clients s)"
    using conn_list_cong [OF servedD(1) [OF S], of ?h] new(1) by auto
  moreover have "unlinked ?h ?a" using c by (simp add: unlinked_def)
  ultimately obtain h ctx where ap: "connection_list_append ?h (served_list s) (Some ?a) = Inr (h, ctx)"
    "conn_list h ctx (clients s @ [?a])" "same_payload ?h h"
    using append_correct [of ?h "served_list s" "clients s" ?a c] new(1) by auto
  define s' where "s' = (let t = ?t\<lparr>conns := h, served_list := ctx\<rparr> in
    if current_connection t = None then t\<lparr>current_connection := Some ?a\<rparr> else t)"
  have run: "accept_connection e s = Inr (s', 0)"
    using fd init ap(1) by (simp add: accept_connection_def Let_def s'_def)
  have P: "pool_ok K b es (sworld s) (?C(?a := c)) (insert ?a ?A)"
    using pool_accept [OF servedD(4) [OF S] new(1) c(1)] new(3) c(2) by simp
  have io: "pool_io (sworld s) (?C(?a := c)) (insert ?a ?A) (server_io s)"
    using pool_accept_io [OF new(1) c(1) _ server_pool_io [OF servedD(4) [OF S]]] new(3) c(2) by simp
  have heap: "\<forall>d\<in>insert ?a ?A. ?h d = Some ((?C(?a := c)) d)" using servedD(7) [OF S] by simp
  have s': "conns s' = h" "served_list s' = ctx" "sworld s' = sworld s" "blocked_head (blocked_lists s') = None"
    "case current_connection s' of None \<Rightarrow> clients s @ [?a] = [] | Some d \<Rightarrow> d \<in> set (clients s @ [?a])"
    using servedD(3,6) [OF S] by (auto simp: s'_def Let_def split: option.splits)
  have len: "length (clients s @ [?a]) < 2 ^ 16" using new(2) by simp
  have set: "set (clients s @ [?a]) = insert ?a ?A" by simp
  have L: "same_payload ?h (conns s')" "conn_list (conns s') (served_list s') (clients s @ [?a])"
    using ap(2,3) s'(1,2) by simp_all
  note s1 = served_relinked [OF P io L(1) heap L(2) set len s'(3-5)]
  have "connection_links.more (conn_at s' d) = connection_links.more ((?C(?a := c)) d)" if d: "d \<in> insert ?a ?A" for d
  proof -
    have "map_option connection_links.more (conns s' d) = map_option connection_links.more (?h d)"
      using ap(3) s'(1) by (simp add: same_payload_def)
    moreover have "?h d = Some ((?C(?a := c)) d)" using heap d by blast
    ultimately show ?thesis by (auto simp: conn_at_def map_option_eq_Some)
  qed
  then have "\<forall>d\<in>?A. connection_links.more (conn_at s' d) = connection_links.more (?C d)"
    "connection_links.more (conn_at s' ?a) = connection_links.more c"
    using new(1) by auto
  moreover have "clients s' = clients s @ [?a]" using clients_eq [OF _ len, of s'] L(2) by simp
  ultimately show ?thesis
    by (intro that [OF run s1 s'(3) _ c(1)]) (simp_all add: s'_def Let_def)
qed

lemma accepting_round:
  assumes S: "served K b es s" and due: "accept_due e s" and ready: "round_ready K e s"
  shows "\<exists>s'. cache_server_proc fuel e s = Inr s' \<and> served K b es s' \<and> clients_view s' = clients_view s \<and>
    sworld s' = sworld s \<and> (current_connection s \<noteq> None \<longrightarrow> current_connection s' = current_connection s) \<and>
    (\<forall>a\<in>set (clients s). connection_links.more (conn_at s' a) = connection_links.more (conn_at s a)) \<and>
    last_accept_timestamp s' = time_get_timestamp (te_accept_time e) \<and>
    (\<forall>a\<in>set (clients s'). a \<in> set (clients s) \<or> idle (conn_at s' a)) \<and>
    (\<forall>fd c. te_accept e = Done fd \<longrightarrow>
       connection_init (te_alloc e) (te_getfl e) (te_setfl e) (te_junk e) fd = Some c \<longrightarrow> idle c \<and>
       clients s' = clients s @ [te_address e] \<and>
       connection_links.more (conn_at s' (te_address e)) = connection_links.more c)"
proof -
  let ?t = "s\<lparr>last_accept_timestamp := time_get_timestamp (te_accept_time e)\<rparr>"
  have run: "cache_server_proc fuel e s = bindE (accept_connection e s) (\<lambda>(s, _). Inr s)"
    using due by (simp add: cache_server_proc_def)
  show ?thesis
  proof (cases "\<exists>fd c. te_accept e = Done fd \<and> connection_init (te_alloc e) (te_getfl e) (te_setfl e) (te_junk e) fd = Some c")
    case False
    from False have none: "connection_init (te_alloc e) (te_getfl e) (te_setfl e) (te_junk e) fd = None"
      if "te_accept e = Done fd" for fd
      using that by (cases "connection_init (te_alloc e) (te_getfl e) (te_setfl e) (te_junk e) fd") auto
    then have "accept_connection e s = Inr (?t, 0) \<or> accept_connection e s = Inr (?t, 1)"
      by (auto simp: accept_connection_def Let_def split: io.splits option.splits)
    moreover have same: "clients ?t = clients s" "conn_at ?t = conn_at s" by (simp_all add: clients_def conn_at_def fun_eq_iff)
    moreover have "server_io ?t = server_io s" by (rule ext) (simp add: server_io_def same cong: option.case_cong)
    then have "served K b es ?t" "clients_view ?t = clients_view s"
      using S same by (simp_all add: served_def clients_view_def cong: option.case_cong)
    ultimately show ?thesis using run none by auto
  next
    case True
    then obtain fd c where te: "te_accept e = Done fd"
      "connection_init (te_alloc e) (te_getfl e) (te_setfl e) (te_junk e) fd = Some c"
      by blast
    have "accepts_fresh e s" using ready due by (simp add: round_ready_def)
    from call_taken [OF S this te] obtain s' where
      s': "accept_connection e s = Inr (s', 0)" "served K b es s'" "server_io s' = server_io s" "sworld s' = sworld s"
      "clients s' = clients s @ [te_address e]" "idle c" "current_connection s \<noteq> None \<longrightarrow> current_connection s' = current_connection s"
      "\<forall>a\<in>set (clients s). connection_links.more (conn_at s' a) = connection_links.more (conn_at s a)"
      "connection_links.more (conn_at s' (te_address e)) = connection_links.more c"
      "last_accept_timestamp s' = time_get_timestamp (te_accept_time e)" .
    have "idle (conn_at s' (te_address e))" using relinked_same(8) [OF s'(9)] s'(6) by simp
    then show ?thesis using run te s' by (auto simp: clients_view_def)
  qed
qed

lemma clients_round:
  assumes "clients_ok K b s" and "round_ready K e s"
  shows "\<exists>s'. cache_server_proc (Suc fuel) e s = Inr s' \<and> clients_ok K b s' \<and>
    clients_view s' = feed_client (fed_now e s) (clients_view s)"
proof -
  obtain es where S: "served K b es s" using assms(1) by (auto simp: clients_ok_def)
  show ?thesis
  proof (cases "accept_due e s")
    case True
    then show ?thesis
      using accepting_round [OF S True assms(2), of "Suc fuel"] feed_nothing [OF S, of 0]
      by (auto simp: clients_ok_def fed_now_def)
  next
    case False
    then show ?thesis using serving_round [OF S False assms(2), of fuel] by (auto simp: clients_ok_def)
  qed
qed

end
