(* ===== verification/ClientBudgets.thy ===== *)
theory ClientBudgets
  imports ManyClients
begin

text \<open>
  When the rounds of a run can be served, said of what the clients send instead of the states of the server:
  the memory of the server is never given back, so a run can be served as long as the entries that its
  clients announce fit into it together (\<open>afforded\<close>). \<open>has_room\<close> is what is left, and
  \<open>turn_within_room\<close> shows that a turn takes no more of it than what was announced. \<open>remaining_wanted\<close> says that
  a connection asks its socket for what is missing of a request and no more.
\<close>

section \<open>What is asked of the socket\<close>

text \<open>How many bytes of the part of a request that is being received are missing.\<close>

definition wanted :: "u8 list \<Rightarrow> nat" where
  "wanted inp =
     (let put = (req_type (decode_request_header (take request_header_size inp)) = request_code REQUEST_PUT);
          args = drop request_header_size inp;
          n = request_header_size + (if put then key_value_arguments_size else key_arguments_size)
      in if length inp < request_header_size then request_header_size - length inp
         else if length inp < n then n - length inp
         else if put then
           (let a = decode_key_value_arguments (take key_value_arguments_size args)
            in n + unat (kv_key_size a) + unat (kv_value_size a) - length inp)
         else n + unat (arg_key_size (decode_key_arguments (take key_arguments_size args))) - length inp)"

lemma remaining_wanted:
  assumes ok: "conn_ok b es w c" and un: "unfinished c" and rec: "receiving (conn_state c)"
  shows "unat (remaining_bytes c) = wanted (got w c)"
proof -
  let ?i = "unat (buffer_index c)"
  have len: "length (header_union c) = aggregate_response_size" "length (arguments_union c) = key_value_arguments_size"
    using ok by (simp_all add: conn_ok_def)
  have rem: "unat (remaining_bytes c) = part_size c - ?i" by (simp add: part_size_def)
  have put: "kind_of c = Some REQUEST_PUT \<longleftrightarrow> req_type (request_of c) = request_code REQUEST_PUT"
    using request_type_of_Some [of "req_type (request_of c)" REQUEST_PUT] by (auto simp: kind_of_def)
  have head: "take request_header_size (take request_header_size (header_union c) @ xs) = take request_header_size (header_union c)"
    "length (take request_header_size (header_union c)) = request_header_size" for xs
    using len(1) by (simp_all add: wire_sizes)
  consider "conn_state c = RECEIVING_HEADER" "part_size c = request_header_size"
    | "conn_state c = RECEIVING_ARGUMENTS" "part_size c = arguments_size c" "\<not> is_simple (request_of c)"
    | p where "conn_state c = RECEIVING_BODY" "kind_of c \<noteq> Some REQUEST_PUT" "takes_key b w c p" "\<not> is_simple (request_of c)"
    | e where "conn_state c = RECEIVING_BODY" "kind_of c = Some REQUEST_PUT" "takes_pair b es w c e" "\<not> is_simple (request_of c)"
    using ok rec by (cases "conn_state c") (auto simp: conn_ok_def state_ok_def receiving_def split: if_splits)
  then show ?thesis
  proof cases
    case 1
    then show ?thesis using unfinished_index [OF un] rem len(1) by (simp add: got_def wanted_def Let_def wire_sizes)
  next
    case 2
    have "?i < arguments_size c" using unfinished_index [OF un] 2(2) by (auto simp: arguments_size_def wire_sizes)
    then show ?thesis
      using 2(1,2) rem len put
      by (simp add: got_def wanted_def Let_def arguments_size_def request_of_def wire_sizes min_def split: if_splits)
  next
    case 3
    have "part_size c = unat (arg_key_size (key_arguments_of c))" using 3(3) by (simp add: takes_key_def Let_def)
    then show ?thesis
      using 3(2) rem len put
      by (simp add: got_key [OF 3(1,3,2)] wanted_def Let_def request_of_def key_arguments_of_def wire_sizes min_def del: raw_bytes.simps)
  next
    case 4
    have "part_size c = unat (kv_key_size (key_value_arguments_of c)) + unat (kv_value_size (key_value_arguments_of c))"
      using 4(3) by (simp add: takes_pair_def Let_def)
    then show ?thesis
      using 4(2) rem len put
      by (simp add: got_pair [OF 4(1,3,2)] wanted_def Let_def request_of_def key_value_arguments_of_def wire_sizes min_def del: raw_bytes.simps)
  qed
qed

section \<open>What a turn uses\<close>

definition resources :: "world \<Rightarrow> memory_queue_context \<times> entry_hash_map_context" where
  "resources w = (queue (w_store w), index_ctx (w_store w))"

lemma resources_simps [simp]:
  "resources (set_mem w m) = resources w" "resources (record_sent w fd bs) = resources w"
  by (simp_all add: resources_def set_mem_def record_sent_def)

lemma store_resources: "buffer_store c w bs = Inr (c1, w1) \<Longrightarrow> resources w1 = resources w"
  by (auto simp: buffer_store_def Let_def elim!: bindE_InrE split: buffer_ref.splits if_splits)

lemma transfer_resources:
  assumes "connection_transfer e c w = Inr (c1, w1, r)"
  shows "resources w1 = resources w"
proof -
  have "resources w2 = resources w" if "socket_call e c w = Inr (c2, w2, out)" for c2 w2 out
    using that by (auto simp: socket_call_def Let_def store_resources elim!: bindE_InrE split: if_splits io.splits)
  moreover have "resources w3 = resources w2" if "socket_failure c2 w2 = Inr (c3, w3, r)" for c2 w2 c3 w3
    using that by (auto simp: socket_failure_def free_buffer_def elim!: bindE_InrE split: if_splits buffer_ref.splits)
  ultimately show ?thesis using assms by (fastforce simp: connection_transfer_def elim!: bindE_InrE split: io.splits if_splits)
qed

lemma read_resources: "attempt_memory_read c w = Inr (c', w', r) \<Longrightarrow> resources w' = resources w"
  by (auto simp: attempt_memory_read_def Let_def elim!: bindE_InrE split: if_splits prod.splits)

lemma dispatch_resources:
  assumes "dispatch e c w = Inr (c', w', r)"
  shows "resources w' = resources w \<or>
    conn_state c = RECEIVING_ARGUMENTS \<and> kind_of c = Some REQUEST_PUT \<and> attempt_memory_write e c w = Inr (c', w', r) \<or>
    conn_state c = RECEIVING_BODY \<and> event_received_body e c w = Inr (c', w', r) \<and>
      (kind_of c = Some REQUEST_PUT \<or> kind_of c = Some REQUEST_DELETE)"
proof (cases "conn_state c")
  case RECEIVING_ARGUMENTS
  then show ?thesis
    using assms
    by (auto simp: dispatch_def event_received_arguments_def kind_of_def allocate_key_def malloc_block_def Let_def
        elim!: bindE_InrE split: option.splits request_type.splits if_splits)
next
  case RECEIVING_BODY
  have "resources w' = resources w" if "kind_of c = Some REQUEST_GET"
    using assms that RECEIVING_BODY read_resources
    by (fastforce simp: dispatch_def event_received_body_def kind_of_def Let_def elim!: bindE_InrE)
  then show ?thesis
    using assms RECEIVING_BODY
    by (auto simp: dispatch_def event_received_body_def kind_of_def Let_def split: option.splits request_type.splits)
qed (use assms in \<open>auto simp: dispatch_def event_sent_header_def event_sent_body_def Let_def
      elim!: bindE_InrE split: option.splits if_splits prod.splits\<close>)

text \<open>The handler of a turn, behind the transfer.\<close>

lemma proc_dispatches:
  assumes W: "world_ok K b w es" and ok: "conn_ok b es w c" "unfinished c" and e: "reliable e"
    and run: "connection_proc e c w = Inr (c', w', r)" and changed: "resources w' \<noteq> resources w"
  obtains c1 w1 where "arrived e c \<noteq> []" and "transferred K b es w c (arrived e c) c1 w1" and "resources w1 = resources w"
    and "remaining_bytes c1 = 0" and "part_size c1 \<noteq> 0" and "dispatch e c1 w1 = Inr (c', w', r)"
    and "receiving (conn_state c)"
proof -
  obtain c1 w1 r1 where t: "connection_transfer e c w = Inr (c1, w1, r1)"
    and rest: "(if r1 \<noteq> RESULT_SUCCESS then Inr (c1, w1, r1)
      else if remaining_bytes c1 \<noteq> 0 then Inr (c1, w1, RESULT_SUCCESS) else dispatch e c1 w1) = Inr (c', w', r)"
    using run by (auto simp: connection_proc_def elim!: bindE_InrE)
  have same: "resources w1 = resources w" using transfer_resources [OF t] .
  have d: "r1 = RESULT_SUCCESS" "remaining_bytes c1 = 0" "dispatch e c1 w1 = Inr (c', w', r)"
    using rest changed same by (auto split: if_splits)
  have "receiving (conn_state c1)" using dispatch_resources [OF d(3)] changed same by (auto simp: receiving_def)
  moreover have "conn_state c1 = conn_state c"
    using t d(1) by (auto simp: connection_transfer_def socket_call_def socket_failure_def buffer_store_def Let_def
        elim!: bindE_InrE split: if_splits io.splits buffer_ref.splits)
  ultimately have rec: "receiving (conn_state c)" by simp
  show ?thesis
    by (rule receiving_transfer [OF W ok rec e]) (use that same d t rec in \<open>auto split: if_splits\<close>)
qed

section \<open>The index\<close>

text \<open>The index never has more buckets than its limit, and no more items than there are entries.\<close>

definition index_bounded :: "entry_hash_map_context \<Rightarrow> bool" where
  "index_bounded ctx \<longleftrightarrow> (\<forall>hm. hashmap_of ctx = Some hm \<longrightarrow> nbuckets hm \<le> 2 ^ 29)"

lemma put_bounded:
  assumes I: "index_wf K (m, ctx)" and room: "index_room (m, ctx)" and p: "entry_ok m K p"
    and put: "entry_hash_map_put allocs m ctx p = Inr (m', ctx', n)"
  shows "index_bounded ctx'"
proof -
  obtain hm where hm: "hashmap_of ctx = Some hm"
    "hashmap_wf (entry_ok m K) (\<lambda>p. key_hash (entry_key m p)) (entry_key m) 0 0 hm"
    using index_wfD [OF I] by auto
  have "hashmap_small hm" using room hm(1) by (simp add: index_room_def)
  then show ?thesis
    using entries.set_correct [OF hm(2) p, of allocs] put hm(1)
    by (auto simp: index_bounded_def entry_hash_map_put_def context_hashmap_def Let_def elim!: bindE_InrE
        split: option.splits)
qed

lemma delete_bounded:
  assumes I: "index_wf K (m, ctx)" and room: "index_room (m, ctx)" and p: "entry_ok m K p"
    and del: "entry_hash_map_delete allocs m ctx p = Inr (m', ctx')"
  shows "index_bounded ctx'"
proof -
  obtain hm where hm: "hashmap_of ctx = Some hm"
    "hashmap_wf (entry_ok m K) (\<lambda>p. key_hash (entry_key m p)) (entry_key m) 0 0 hm"
    using index_wfD [OF I] by auto
  have "hashmap_small hm" using room hm(1) by (simp add: index_room_def)
  then show ?thesis
    using entries.delete_correct [OF hm(2) p, of allocs] del hm(1)
    by (auto simp: index_bounded_def entry_hash_map_delete_def context_hashmap_def Let_def elim!: bindE_InrE
        split: option.splits)
qed

section \<open>What is left\<close>

text \<open>
  Nothing was evicted so far, \<open>n\<close> bytes are left behind the last entry, and \<open>k\<close> more entries can be put
  into the index.
\<close>

definition has_room :: "nat \<Rightarrow> nat \<Rightarrow> world \<Rightarrow> bool" where
  "has_room n k w \<longleftrightarrow>
     (let q = queue (w_store w) in read_index q = 0 \<and> write_index q + n + header_size < capacity_bytes q \<and>
        (0 < entry_count q \<longrightarrow> 0 < write_index q) \<and> entry_count q + k < 65534 \<and> index_bounded (index_ctx (w_store w)))"

lemma has_room_mono: "has_room n k w \<Longrightarrow> n' \<le> n \<Longrightarrow> k' \<le> k \<Longrightarrow> has_room n' k' w"
  by (auto simp: has_room_def Let_def)

lemma has_room_cong: "resources w' = resources w \<Longrightarrow> has_room n k w' = has_room n k w"
  by (simp add: has_room_def resources_def)

lemma room_fits: "has_room n k w \<Longrightarrow> need \<le> n \<Longrightarrow> allocation_fits (w_store w) need"
  by (auto simp: has_room_def allocation_fits_def must_clean_def Let_def)

lemma room_index:
  assumes W: "world_ok K b w es" and room: "has_room n k w"
  shows "index_room (index_of w)"
proof -
  obtain hm where hm: "hashmap_of (index_ctx (w_store w)) = Some hm"
    "hashmap_wf (entry_ok (w_mem w) K) (\<lambda>p. key_hash (entry_key (w_mem w) p)) (entry_key (w_mem w)) 0 0 hm"
    "index_map (index_of w) = hashmap_map (entry_key (w_mem w)) hm"
    using index_wfD [OF world_okD(3) [OF W]] by auto
  have "items (nbuckets hm) (buckets hm) \<subseteq> Ptr b ` set es"
    using W hm(3) hashmap_map_Some [OF hm(2)] by (auto simp: world_ok_def ran_def)
  then have "map_count hm \<le> card (Ptr b ` set es)" using hashmap_wfD(10) [OF hm(2)] by (simp add: card_mono)
  also have "\<dots> \<le> length es" using card_image_le [of "set es" "Ptr b"] card_length [of es] by simp
  also have "\<dots> = entry_count (queue (w_store w))" using queue_fieldsD(5) [OF world_okD(2) [OF W]] by simp
  finally show ?thesis
    using room hm(1) by (simp add: index_room_def hashmap_small_def has_room_def index_bounded_def Let_def)
qed

section \<open>A turn within what is left\<close>

text \<open>The bytes that \<open>bs\<close> announces behind \<open>inp\<close> for a new entry.\<close>

definition demand :: "u8 list \<Rightarrow> u8 list \<Rightarrow> nat option" where
  "demand inp bs = (if bs = [] then None else announced (inp @ bs))"

lemma write_within_room:
  assumes W: "world_ok K b w es" and ok: "conn_ok b es w c" and st: "conn_state c = RECEIVING_ARGUMENTS"
    and full: "remaining_bytes c = 0" and kind: "kind_of c = Some REQUEST_PUT" and room: "has_room n k w"
    and need: "announced (got w c) = Some need" "need \<le> n" "0 < k"
    and run: "attempt_memory_write e c w = Inr (c', w', r)"
  shows "has_room (n - need) (k - 1) w'"
proof -
  let ?k = "kv_key_size (key_value_arguments_of c)" and ?v = "kv_value_size (key_value_arguments_of c)"
  have n: "need = header_size + unat ?k + unat ?v" using arguments_announced [OF ok st full kind] need(1) by simp
  have fits: "allocation_fits (w_store w) (header_size + unat ?k + unat ?v)" using room_fits [OF room need(2)] n by simp
  obtain micros qs result p where a: "memory_queue_allocate (env_map_allocs e) ?k ?v (time_get_timestamp (env_time e) + of_int micros)
      (conn_entry c) (w_store w) = Inr (qs, result, p)" and w': "w' = w\<lparr>w_store := qs\<rparr>"
    using run by (auto simp: attempt_memory_write_def Let_def elim!: bindE_InrE split: if_splits)
  have wf: "queue_wf b (w_store w) es" using W by (simp add: world_ok_def)
  let ?x = "write_index (queue (w_store w))"
  obtain qs' where q: "memory_queue_allocate (env_map_allocs e) ?k ?v (time_get_timestamp (env_time e) + of_int micros)
      (conn_entry c) (w_store w) = Inr (qs', MEMORY_QUEUE_SUCCESS, Ptr b ?x)"
    "queue_wf b qs' (es @ [?x])" "index_ctx qs' = index_ctx (w_store w)" "read_index (queue qs') = read_index (queue (w_store w))"
    "capacity_bytes (queue qs') = capacity_bytes (queue (w_store w))"
    "write_index (queue qs') = ?x + (header_size + unat ?k + unat ?v)"
    by (rule allocate_fits [OF wf fits])
  have "entry_count (queue qs') = Suc (length es)" "entry_count (queue (w_store w)) = length es"
    using queue_fieldsD(5) [of b] q(2) world_okD(2) [OF W] by (auto simp: queue_wf_def)
  moreover have "qs = qs'" using a q(1) by simp
  ultimately show ?thesis
    using room q(3-6) need(2,3) n by (simp add: has_room_def Let_def w')
qed

lemma put_stores:
  assumes "event_received_body e c w = Inr (c', w', r)" and "kind_of c = Some REQUEST_PUT"
  obtains m ctx n where "entry_hash_map_put (env_map_allocs e) (w_mem w) (index_ctx (w_store w)) (conn_entry c) = Inr (m, ctx, n)"
    and "w_store w' = (w_store w)\<lparr>mem := m, index_ctx := ctx\<rparr>"
  using assms by (auto simp: event_received_body_def kind_of_def Let_def elim!: bindE_InrE)

lemma delete_stores:
  assumes "event_received_body e c w = Inr (c', w', r)" and "kind_of c = Some REQUEST_DELETE"
  obtains m m2 ctx where "entry_hash_map_delete (env_map_allocs e) (w_mem w) (index_ctx (w_store w)) (conn_entry c) = Inr (m, ctx)"
    and "w_store w' = (w_store w)\<lparr>mem := m2, index_ctx := ctx\<rparr>"
  using assms by (auto simp: event_received_body_def kind_of_def Let_def elim!: bindE_InrE)

lemma body_within_room:
  assumes W: "world_ok K b w es" and ok: "conn_ok b es w c" and st: "conn_state c = RECEIVING_BODY"
    and full: "remaining_bytes c = 0" "part_size c \<noteq> 0" and room: "has_room n k w"
    and key: "\<And>q. parse_request (got w c) = Full q \<Longrightarrow> request_key q \<in> key_universe K"
    and kind: "kind_of c = Some REQUEST_PUT \<or> kind_of c = Some REQUEST_DELETE"
    and run: "event_received_body e c w = Inr (c', w', r)"
  shows "has_room n k w'"
proof -
  let ?m = "w_mem w" and ?ctx = "index_ctx (w_store w)"
  have I: "index_wf K (?m, ?ctx)" "index_room (?m, ?ctx)"
    using world_okD(3) [OF W] room_index [OF W room] by (simp_all add: index_of_def)
  have "queue (w_store w') = queue (w_store w) \<and> index_bounded (index_ctx (w_store w'))"
  proof (cases "kind_of c = Some REQUEST_PUT")
    case True
    obtain x where x: "x \<in> set es" "conn_entry c = Ptr b x"
      "parse_request (got w c) = Full (Put (entry_key ?m (Ptr b x)) (entry_value ?m (Ptr b x)))"
      using pair_complete [OF ok st True full] .
    have "entry_readable ?m (Ptr b x)" using entries_apart(1) [OF W x(1,1)] .
    moreover have "entry_key ?m (Ptr b x) \<in> key_universe K" using key [OF x(3)] by simp
    ultimately have "entry_ok ?m K (conn_entry c)" unfolding entry_ok_def x(2) by blast
    moreover obtain m' ctx' n where "entry_hash_map_put (env_map_allocs e) ?m ?ctx (conn_entry c) = Inr (m', ctx', n)"
      "w_store w' = (w_store w)\<lparr>mem := m', index_ctx := ctx'\<rparr>"
      by (rule put_stores [OF run True])
    ultimately show ?thesis using put_bounded [OF I] by simp
  next
    case False
    have del: "kind_of c = Some REQUEST_DELETE" using False kind by simp
    obtain p k where p: "conn_entry c = Ptr p 0" "holds_key b w p k" "parse_request (got w c) = Full (Delete k)"
      by (rule key_complete [OF ok st False full]) (use del in simp)
    have "k \<in> key_universe K" using key [OF p(3)] by simp
    then have "index_valid K (index_of w) (conn_entry c)" unfolding p(1) by (rule holds_key_valid [OF W p(2)])
    then have "entry_ok ?m K (conn_entry c)" by (simp add: index_valid_def)
    moreover obtain m' m2 ctx' where "entry_hash_map_delete (env_map_allocs e) ?m ?ctx (conn_entry c) = Inr (m', ctx')"
      "w_store w' = (w_store w)\<lparr>mem := m2, index_ctx := ctx'\<rparr>"
      by (rule delete_stores [OF run del])
    with \<open>entry_ok ?m K (conn_entry c)\<close> show ?thesis using delete_bounded [OF I] by simp
  qed
  then show ?thesis using room by (simp add: has_room_def Let_def)
qed

lemma turn_within_room:
  assumes W: "world_ok K b w es" and ok: "conn_ok b es w c" "unfinished c" and e: "reliable e"
    and room: "has_room n k w" and run: "connection_proc e c w = Inr (c', w', r)"
    and key: "\<And>q. parse_request (got w c @ arrived e c) = Full q \<Longrightarrow> request_key q \<in> key_universe K"
    and need: "\<And>m. demand (got w c) (arrived e c) = Some m \<Longrightarrow> m \<le> n \<and> 0 < k"
  shows "case demand (got w c) (arrived e c) of None \<Rightarrow> has_room n k w' | Some m \<Rightarrow> has_room (n - m) (k - 1) w'"
proof -
  let ?goal = "case demand (got w c) (arrived e c) of None \<Rightarrow> has_room n k w' | Some m \<Rightarrow> has_room (n - m) (k - 1) w'"
  have weak: ?goal if "has_room n k w'" using that by (auto split: option.split elim: has_room_mono)
  show ?goal
  proof (cases "resources w' = resources w")
    case True
    then show ?thesis using weak room has_room_cong by blast
  next
    case False
    obtain c1 w1 where t: "arrived e c \<noteq> []" "transferred K b es w c (arrived e c) c1 w1" "resources w1 = resources w"
      "remaining_bytes c1 = 0" "part_size c1 \<noteq> 0" "dispatch e c1 w1 = Inr (c', w', r)"
      using proc_dispatches [OF W ok e run False] .
    have W1: "world_ok K b w1 es" "conn_ok b es w1 c1" "got w1 c1 = got w c @ arrived e c" and room1: "has_room n k w1"
      using t(2) room has_room_cong [OF t(3)] by (simp_all add: transferred_def same_cache_def view_of_def)
    from dispatch_resources [OF t(6)] False t(3)
    consider "conn_state c1 = RECEIVING_ARGUMENTS" "kind_of c1 = Some REQUEST_PUT" "attempt_memory_write e c1 w1 = Inr (c', w', r)"
      | "conn_state c1 = RECEIVING_BODY" "event_received_body e c1 w1 = Inr (c', w', r)"
        "kind_of c1 = Some REQUEST_PUT \<or> kind_of c1 = Some REQUEST_DELETE"
      by auto
    then show ?thesis
    proof cases
      case 1
      obtain m where m: "announced (got w1 c1) = Some m" using arguments_announced [OF W1(2) 1(1) t(4) 1(2)] by simp
      then have "demand (got w c) (arrived e c) = Some m" using t(1) W1(3) by (simp add: demand_def)
      then show ?thesis using write_within_room [OF W1(1,2) 1(1) t(4) 1(2) room1 m _ _ 1(3)] need by simp
    next
      case 2
      have "has_room n k w'"
        using body_within_room [OF W1(1,2) 2(1) t(4,5) room1 _ 2(3,2)] key W1(3) by simp
      then show ?thesis by (rule weak)
    qed
  qed
qed

section \<open>Rounds within what is left\<close>

text \<open>A round whose environment does not fail, whatever its clients send.\<close>

definition sound_round :: "turn_env \<Rightarrow> server \<Rightarrow> bool" where
  "sound_round e s \<longleftrightarrow>
     (if accept_due e s then accepts_fresh e s
      else reliable (te_conn e) \<and> env_malloc (te_conn e) \<and> env_map_allocs (te_conn e) = (True, True) \<and>
        expiry_configured (te_conn e))"

text \<open>
  What the clients send is afforded: the keys of their requests are in \<open>K\<close>, and the entries that they announce
  have \<open>n\<close> bytes together and are no more than \<open>k\<close>.
\<close>

definition known_key :: "u8 list set \<Rightarrow> u8 list \<Rightarrow> bool" where
  "known_key K inp = (case parse_request inp of Full q \<Rightarrow> request_key q \<in> key_universe K | _ \<Rightarrow> True)"

fun afforded :: "u8 list set \<Rightarrow> nat \<Rightarrow> nat \<Rightarrow> (int \<times> u8 list) list \<Rightarrow> service_view \<Rightarrow> bool" where
  "afforded K n k [] v = True"
| "afforded K n k ((fd, bs) # ls) v =
     (let inp = fst (snd v fd) in
      known_key K (inp @ bs) \<and>
      (case demand inp bs of
         None \<Rightarrow> afforded K n k ls (feed_client (fd, bs) v)
       | Some m \<Rightarrow> m \<le> n \<and> 0 < k \<and> afforded K (n - m) (k - 1) ls (feed_client (fd, bs) v)))"

text \<open>A connection that receives reads no entry, and fewer than 65535 others do.\<close>

lemma lock_available:
  assumes P: "pool_ok K b es w C A" and a: "a \<in> A" and few: "card A < 2 ^ 16"
    and rec: "receiving (conn_state (C a))" and e: "e \<in> set es"
  shows "locks (header_at (w_mem w) (Ptr b e)) \<noteq> 0xFFFF"
proof -
  note fin = pool_okD(1) [OF P]
  have "lock_at b w e = (\<Sum>d\<in>A - {a}. reads_entry b (C d) e)"
    using pool_okD(7) [OF P e] receiving_free(3) [OF rec, of b] by (simp add: sum.remove [OF fin a])
  also have "\<dots> \<le> (\<Sum>d\<in>A - {a}. 1)" by (rule sum_mono) (simp add: reads_entry_def)
  also have "\<dots> = card A - 1" using fin a by simp
  finally have "lock_at b w e < 65535" using few by simp
  then show ?thesis by (auto simp: lock_at_def)
qed

text \<open>What the view of the server says of the connection whose turn it is.\<close>

lemma served_got:
  assumes S: "served K b es s" and a: "a \<in> set (clients s)"
  shows "server_io s (file_descriptor (conn_at s a)) = io_of (sworld s) (conn_at s a)"
  using server_pool_io [OF servedD(4) [OF S]] a by (simp add: pool_io_def)

lemma sound_ready:
  assumes S: "served K b es s" and room: "has_room n k (sworld s)" and sound: "sound_round e s"
    and afford: "afforded K n k [fed_now e s] (clients_view s)"
  shows "round_ready K e s"
proof (cases "accept_due e s")
  case True
  then show ?thesis using sound by (simp add: round_ready_def sound_round_def)
next
  case False
  then obtain a where cur: "current_connection s = Some a" by (auto simp: accept_due_def)
  let ?w = "sworld s" and ?c = "conn_at s a" and ?bs = "arrived (te_conn e) (conn_at s a)"
  have a: "a \<in> set (clients s)" using servedD(6) [OF S cur] .
  note P = servedD(4) [OF S]
  have fed: "fed_now e s = (file_descriptor ?c, ?bs)" using False cur by (simp add: fed_now_def Let_def)
  have "known_key K (got ?w ?c @ ?bs)" "\<And>m. demand (got ?w ?c) ?bs = Some m \<Longrightarrow> m \<le> n \<and> 0 < k"
    using afford served_got [OF S a] by (auto simp: fed clients_view_def io_of_def Let_def split: option.splits)
  moreover have "locks (header_at (w_mem ?w) p) \<noteq> 0xFFFF"
    if bs: "?bs \<noteq> []" and ix: "index_map (index_of ?w) k = Some p" for k p
  proof -
    have "receiving (conn_state ?c)" using bs by (auto simp: arrived_def split: if_splits)
    moreover have "card (set (clients s)) < 2 ^ 16" using card_length [of "clients s"] servedD(2) [OF S] by linarith
    moreover obtain i where "i \<in> set es" "p = Ptr b i" using world_okD(4) [OF pool_okD(2) [OF P] ix] by blast
    ultimately show ?thesis using lock_available [OF P a] by blast
  qed
  ultimately have "servable K (te_conn e) ?w (got ?w ?c @ ?bs)" if "?bs \<noteq> []"
    unfolding servable_def
    using that sound False room_fits [OF room] room_index [OF pool_okD(2) [OF P] room]
    by (auto simp: sound_round_def known_key_def demand_def)
  then show ?thesis using False cur sound by (simp add: round_ready_def sound_round_def Let_def)
qed

text \<open>What is left when \<open>bs\<close> was received behind \<open>inp\<close>.\<close>

definition room_behind :: "nat \<Rightarrow> nat \<Rightarrow> u8 list \<Rightarrow> u8 list \<Rightarrow> world \<Rightarrow> bool" where
  "room_behind n k inp bs w = (case demand inp bs of None \<Rightarrow> has_room n k w | Some m \<Rightarrow> has_room (n - m) (k - 1) w)"

lemma affordable_round:
  assumes ok: "clients_ok K b s" and room: "has_room n k (sworld s)" and sound: "sound_round e s"
    and fed: "fed_now e s = (fd, bs)" and afford: "afforded K n k [(fd, bs)] (clients_view s)"
  shows "round_ready K e s" and "\<exists>s'. cache_server_proc (Suc fuel) e s = Inr s' \<and> clients_ok K b s' \<and>
    room_behind n k (fst (server_io s fd)) bs (sworld s') \<and> clients_view s' = feed_client (fd, bs) (clients_view s)"
proof -
  obtain es where S: "served K b es s" using ok by (auto simp: clients_ok_def)
  show ready: "round_ready K e s" using sound_ready [OF S room sound] fed afford by simp
  show "\<exists>s'. cache_server_proc (Suc fuel) e s = Inr s' \<and> clients_ok K b s' \<and>
    room_behind n k (fst (server_io s fd)) bs (sworld s') \<and> clients_view s' = feed_client (fd, bs) (clients_view s)"
  proof (cases "accept_due e s")
    case True
    obtain s' where s': "cache_server_proc (Suc fuel) e s = Inr s'" "served K b es s'" "clients_view s' = clients_view s"
      "sworld s' = sworld s"
      using accepting_round [OF S True ready, of "Suc fuel"] by blast
    have l: "fd = 0" "bs = []" using True fed by (simp_all add: fed_now_def)
    then have "clients_view s' = feed_client (fd, bs) (clients_view s)" using s'(3) feed_nothing [OF S, of 0] by simp
    moreover have "room_behind n k (fst (server_io s fd)) bs (sworld s')"
      using l(2) room s'(4) by (simp add: room_behind_def demand_def)
    ultimately show ?thesis using s' by (auto simp: clients_ok_def)
  next
    case False
    then obtain a where cur: "current_connection s = Some a" by (auto simp: accept_due_def)
    have a: "a \<in> set (clients s)" using servedD(6) [OF S cur] .
    let ?w = "sworld s" and ?c = "conn_at s a"
    note P = servedD(4) [OF S]
    have fd: "fd = file_descriptor ?c" and bs: "bs = arrived (te_conn e) ?c"
      using False cur fed by (simp_all add: fed_now_def Let_def)
    have got: "fst (server_io s fd) = got ?w ?c" using served_got [OF S a] by (simp add: fd io_of_def)
    obtain s' es' c' w' r ys zs where s': "clients s = ys @ a # zs"
      "connection_proc (te_conn e) ?c ?w = Inr (c', w', r)" "turned K b es ?w ?c bs (c', w', r) es'"
      "cache_server_proc (Suc fuel) e s = Inr s'" "served K b es' s'" "sworld s' = w'" "clients s' = turn_list r ys a zs"
      "current_connection s' = turn_current r ys a zs" "last_accept_timestamp s' = last_accept_timestamp s"
      "clients_view s' = feed_client (fd, bs) (clients_view s)"
      unfolding fd bs by (rule serving_step [OF S cur False ready, of fuel])
    have view: "fst (snd (clients_view s) fd) = got ?w ?c" using got by (simp add: clients_view_def)
    have key: "request_key q \<in> key_universe K" if "parse_request (got ?w ?c @ arrived (te_conn e) ?c) = Full q" for q
      using afford that view bs by (simp add: known_key_def Let_def)
    have need: "m \<le> n \<and> 0 < k" if "demand (got ?w ?c) (arrived (te_conn e) ?c) = Some m" for m
      using afford that view bs by (simp add: Let_def)
    have rel: "reliable (te_conn e)" using sound False by (simp add: sound_round_def)
    from turn_within_room [OF pool_okD(2) [OF P] pool_okD(3,4) [OF P a] rel room s'(2) key need]
    have "room_behind n k (fst (server_io s fd)) bs (sworld s')" using got bs s'(6) by (simp add: room_behind_def)
    then show ?thesis using s'(4,5,10) by (auto simp: clients_ok_def)
  qed
qed

end
