(* ===== verification/ClientRuns.thy ===== *)
theory ClientRuns
  imports ClientBudgets
begin

text \<open>
  Runs of the loop with any number of clients. \<open>traced_service\<close> is the contract of a server whose steps feed a
  specification with what they find to do; the rounds of \<open>ManyClients\<close> satisfy it, and so every run of the
  program refines the map that is fed with the bytes of all clients in the order of their arrival.
\<close>

section \<open>Runs\<close>

text \<open>What the steps of a run are, where this depends on the states it goes through.\<close>

fun trace :: "('q \<Rightarrow> 's \<Rightarrow> 'l) \<Rightarrow> ('q \<Rightarrow> 's \<Rightarrow> 's result) \<Rightarrow> 'q list \<Rightarrow> 's \<Rightarrow> 'l list" where
  "trace label step [] s = []"
| "trace label step (q # qs) s =
     label q s # (case step q s of Inl f \<Rightarrow> [] | Inr s' \<Rightarrow> trace label step qs s')"

locale traced_service =
  fixes inv :: "'s \<Rightarrow> bool" and view :: "'s \<Rightarrow> 'm" and ready :: "'q \<Rightarrow> 's \<Rightarrow> bool"
    and step :: "'q \<Rightarrow> 's \<Rightarrow> 's result" and label :: "'q \<Rightarrow> 's \<Rightarrow> 'l" and spec :: "'l \<Rightarrow> 'm \<Rightarrow> 'm"
  assumes step_law: "inv s \<Longrightarrow> ready q s \<Longrightarrow>
    \<exists>s'. step q s = Inr s' \<and> inv s' \<and> view s' = spec (label q s) (view s)"
begin

lemma run_traces:
  "inv s \<Longrightarrow> all_ready ready step qs s \<Longrightarrow>
   \<exists>s'. run_all step qs s = Inr s' \<and> inv s' \<and> view s' = fold spec (trace label step qs s) (view s)"
proof (induction qs arbitrary: s)
  case (Cons q qs)
  then obtain s1 where s1: "step q s = Inr s1" "inv s1" "view s1 = spec (label q s) (view s)" using step_law by force
  with Cons.prems(2) have "all_ready ready step qs s1" by simp
  from Cons.IH [OF s1(2) this] s1 show ?case by auto
qed simp

end

interpretation many_clients: traced_service "clients_ok K b" clients_view "round_ready K" "cache_server_proc (Suc fuel)"
    fed_now feed_client
  for K b fuel
  by unfold_locales (rule clients_round)

lemma serve_rounds_run: "serve_rounds fuel es s = run_all (cache_server_proc fuel) es s"
  by (induction es arbitrary: s) (simp_all cong: bindE_cong)

text \<open>The server as it is opened.\<close>

lemma opened_clients:
  assumes "cache_server_open fuel oe s = Inr (s1, 0)" and "oe_map_allocs oe = (True, True)"
    and "configuration_get_int (oe_options oe) ENTRY_CAPACITY_BYTES = Inr (int capacity)"
    and "header_size < capacity" and "capacity < 2 ^ 32" and "memory_wf (w_mem (sworld s))"
    and "blocked_head (blocked_lists s) = None"
  shows "clients_ok K (next_block (w_mem (sworld s))) s1"
    and "clients_view s1 = (Map.empty, \<lambda>fd. ([], w_sent (sworld s) fd))" and "clients s1 = []"
    and "current_connection s1 = None"
    and "has_room (capacity - header_size - 1) 65533 (sworld s1)"
proof -
  let ?b = "next_block (w_mem (sworld s))"
  obtain st where o: "sworld s1 = (sworld s)\<lparr>w_store := st\<rparr>" "contents (sworld s1) = Map.empty"
    "world_ok K ?b (sworld s1) []" "index_room (index_of (sworld s1))" "conn_list (conns s1) (served_list s1) []"
    "current_connection s1 = None" "blocked_lists s1 = blocked_lists s"
    "queue st = \<lparr>buffer = Ptr ?b 0, entry_count = 0, occupied_bytes = 0, capacity_bytes = capacity, read_index = 0, write_index = 0\<rparr>"
    using open_world [OF assms(1-3) less_imp_le [OF assms(4)] assms(5,6)] by blast
  have "pool_ok K ?b [] (sworld s1) (conn_at s1) (set [])" using o(3) by (simp add: pool_ok_def)
  note sv = servedI [OF o(5) _ _ _ this]
  show "clients s1 = []" by (rule sv(2)) (use o(6,7) assms(7) in simp_all)
  then show "clients_view s1 = (Map.empty, \<lambda>fd. ([], w_sent (sworld s) fd))"
    using o(1,2) by (simp add: clients_view_def server_io_def fun_eq_iff)
  show "clients_ok K ?b s1"
    unfolding clients_ok_def by (rule exI, rule sv(1)) (use o(6,7) assms(7) in simp_all)
  show "current_connection s1 = None" using o(6) .
  have "index_bounded (index_ctx st)"
    using o(1,4) by (auto simp: index_bounded_def index_room_def hashmap_small_def)
  then show "has_room (capacity - header_size - 1) 65533 (sworld s1)"
    using o(1,8) assms(4) by (simp add: has_room_def Let_def)
qed

text \<open>Rounds that are sound can be served as long as the clients send what is afforded.\<close>

lemma afforded_ready:
  assumes "clients_ok K b s" and "has_room n k (sworld s)" and "all_ready sound_round (cache_server_proc (Suc fuel)) es s"
    and "afforded K n k (trace fed_now (cache_server_proc (Suc fuel)) es s) (clients_view s)"
  shows "all_ready (round_ready K) (cache_server_proc (Suc fuel)) es s"
  using assms
proof (induction es arbitrary: s n k)
  case (Cons e es)
  let ?step = "cache_server_proc (Suc fuel)"
  obtain fd bs where fed: "fed_now e s = (fd, bs)" by (cases "fed_now e s")
  let ?inp = "fst (server_io s fd)"
  have sound: "sound_round e s" using Cons.prems(3) by simp
  have afford: "afforded K n k ((fd, bs) # (case ?step e s of Inl f \<Rightarrow> [] | Inr s' \<Rightarrow> trace fed_now ?step es s')) (clients_view s)"
    using Cons.prems(4) fed by simp
  then have one: "afforded K n k [(fd, bs)] (clients_view s)" by (auto simp: Let_def split: option.splits)
  note round = affordable_round [OF Cons.prems(1,2) sound fed one]
  from round(2) [of fuel] obtain s' where s': "?step e s = Inr s'" "clients_ok K b s'" "room_behind n k ?inp bs (sworld s')"
    "clients_view s' = feed_client (fd, bs) (clients_view s)"
    by blast
  obtain n' k' where room: "has_room n' k' (sworld s')" "afforded K n' k' (trace fed_now ?step es s') (clients_view s')"
  proof (cases "demand ?inp bs")
    case None
    then show ?thesis
      using that [of n k] afford s'(1,3,4) by (simp add: room_behind_def clients_view_def [of s] Let_def)
  next
    case (Some m)
    then show ?thesis
      using that [of "n - m" "k - 1"] afford s'(1,3,4) by (simp add: room_behind_def clients_view_def [of s] Let_def)
  qed
  have "all_ready sound_round ?step es s'" using Cons.prems(3) s'(1) by simp
  from Cons.IH [OF s'(2) room(1) this room(2)] round(1) s'(1) show ?case by simp
qed simp

end
