(* ===== verification/ClientAnswers.thy ===== *)
theory ClientAnswers
  imports ClientRuns
begin

text \<open>
  Progress with any number of clients: answers do not stay in the server. While nothing new arrives and sockets
  take at least a byte of what they are offered, the rounds of the loop reach every connection that owes a
  part of an answer, and a bounded number of rounds sends everything (\<open>drained\<close>).
\<close>

section \<open>One turn\<close>

text \<open>The socket of a connection gives nothing, and takes at least a byte when it is offered some.\<close>

definition takes_answers :: "env \<Rightarrow> bool" where
  "takes_answers e \<longleftrightarrow> reliable e \<and> (\<forall>fd n. env_recv e fd n = Would_block) \<and>
     (\<forall>fd bs. bs \<noteq> [] \<longrightarrow> (\<exists>k>0. env_send e fd bs = Done k))"

lemma sent_by_dispatch:
  assumes "dispatch e c w = Inr (c', w', r)" and "sending (conn_state c)"
  shows "w_sent w' = w_sent w"
  using assms
  by (auto simp: dispatch_def sending_def event_sent_header_def event_sent_body_def Let_def
      elim!: bindE_InrE split: option.splits if_splits prod.splits)

lemma owed_remaining:
  assumes W: "world_ok K b w es" and ok: "conn_ok b es w c" and un: "unfinished c" and st: "sending (conn_state c)"
  shows "owed w c = [] \<longleftrightarrow> remaining_bytes c = 0"
proof
  assume "owed w c = []"
  then show "remaining_bytes c = 0"
    using send_part [OF W ok st, of 0] by (auto simp: unat_eq_0)
next
  assume rem: "remaining_bytes c = 0"
  then have "part_size c = 0" "unat (buffer_index c) = 0" using un by (auto simp: unfinished_def part_size_def)
  have "conn_state c \<noteq> SENDING_HEADER"
    using ok \<open>part_size c = 0\<close> by (auto simp: conn_ok_def state_ok_def sends_code_def sends_value_def Let_def wire_sizes)
  then have body: "conn_state c = SENDING_BODY" using st by (simp add: sending_def)
  then obtain i where "sends_value b es w c i" using ok by (auto simp: conn_ok_def state_ok_def)
  then have "unat (value_size (header_at (w_mem w) (conn_entry c))) = 0" "conn_entry c = Ptr b i"
    using body \<open>part_size c = 0\<close> by (auto simp: sends_value_def Let_def)
  then show "owed w c = []" using body by (simp add: owed_def entry_value_def length_raw_bytes del: raw_bytes.simps)
qed

lemma idle_turn:
  assumes W: "world_ok K b w es" and ok: "conn_ok b es w c" and un: "unfinished c" and e: "takes_answers e"
    and none: "owed w c = []" and run: "connection_proc e c w = Inr (c', w', r)"
  shows "r = RESULT_NO_TRANSFER \<and> w_sent w' = w_sent w"
proof (cases "receiving (conn_state c)")
  case True
  then show ?thesis
    using run e by (auto simp: connection_proc_def connection_transfer_def socket_call_def takes_answers_def Let_def)
next
  case False
  then have st: "sending (conn_state c)"
    using ok by (cases "conn_state c") (auto simp: conn_ok_def state_ok_def receiving_def sending_def)
  then have rem: "remaining_bytes c = 0" using none owed_remaining [OF W ok un st] by simp
  then have load: "buffer_load c w 0 = Inr []" using send_part [OF W ok st, of 0] by auto
  have "env_send e (file_descriptor c) [] = Would_block \<or> env_send e (file_descriptor c) [] = Done 0"
    using e by (cases "env_send e (file_descriptor c) []") (fastforce simp: takes_answers_def reliable_def env_ok_def)+
  then show ?thesis
    using run load rem st False
    by (auto simp: connection_proc_def connection_transfer_def socket_call_def record_sent_def Let_def)
qed

lemma sending_progress:
  assumes W: "world_ok K b w es" and ok: "conn_ok b es w c" and un: "unfinished c" and e: "takes_answers e"
    and some: "owed w c \<noteq> []" and run: "connection_proc e c w = Inr (c', w', r)"
  shows "length (w_sent w (file_descriptor c)) < length (w_sent w' (file_descriptor c))"
proof -
  let ?n = "unat (remaining_bytes c)" and ?fd = "file_descriptor c"
  have st: "sending (conn_state c)"
    using ok some by (cases "conn_state c") (auto simp: conn_ok_def state_ok_def owed_def sending_def)
  then have rem: "remaining_bytes c \<noteq> 0" using some owed_remaining [OF W ok un st] by simp
  obtain bs where bs: "buffer_load c w ?n = Inr bs" "length bs = ?n" using send_part [OF W ok st, of 0] by auto
  have "bs \<noteq> []" using bs(2) rem by (auto simp: unat_eq_0)
  then obtain k where k: "0 < k" "env_send e ?fd bs = Done k" using e unfolding takes_answers_def by metis
  have nr: "\<not> receiving (conn_state c)" using st by (auto simp: receiving_def sending_def)
  let ?w = "record_sent w ?fd (take k bs)"
  have "connection_transfer e c w = Inr (advance k c, ?w, RESULT_SUCCESS)"
    using k st nr bs(1) by (simp add: connection_transfer_def socket_call_def advance_def Let_def)
  then have "w_sent w' = w_sent ?w"
    using run sent_by_dispatch [of e "advance k c" ?w] st by (auto simp: connection_proc_def split: if_splits)
  then show ?thesis using k(1) \<open>bs \<noteq> []\<close> by (cases bs) (simp_all add: record_sent_def)
qed

section \<open>The order of the turns\<close>

text \<open>The connections in the order in which they will have their turns while nothing is transferred.\<close>

definition turn_order :: "server \<Rightarrow> nat list" where
  "turn_order s = (case current_connection s of None \<Rightarrow> []
     | Some a \<Rightarrow> dropWhile (\<lambda>d. d \<noteq> a) (clients s) @ takeWhile (\<lambda>d. d \<noteq> a) (clients s))"

definition owing :: "server \<Rightarrow> nat list" where
  "owing s = map (\<lambda>d. length (owed (sworld s) (conn_at s d))) (turn_order s)"

definition outstanding :: "server \<Rightarrow> nat" where
  "outstanding s = sum_list (owing s)"

text \<open>
  \<open>rounds_left n xs\<close>: how many rounds it takes at most to send the bytes \<open>xs\<close> that the connections owe, in the order
  of their turns, when there are \<open>n\<close> of them. Each byte takes a pass over the list, as the turn goes back to
  its head.
\<close>

definition rounds_left :: "nat \<Rightarrow> nat list \<Rightarrow> nat" where
  "rounds_left n xs = (if sum_list xs = 0 then 0 else sum_list xs * n + length (takeWhile (\<lambda>x. x = 0) xs))"

lemma leading_zeros: "sum_list xs \<noteq> (0 :: nat) \<Longrightarrow> length (takeWhile (\<lambda>x. x = 0) xs) < length xs"
  by (induction xs) auto

lemma rounds_left_bound: "length xs \<le> n \<Longrightarrow> rounds_left n xs \<le> (sum_list xs + 1) * n"
  using leading_zeros [of xs] by (cases "sum_list xs = 0") (simp_all add: rounds_left_def del: sum_list_eq_0_iff)

lemma rounds_left_pass:
  assumes "sum_list (0 # xs) \<noteq> 0"
  shows "rounds_left n (xs @ [0]) < rounds_left n (0 # xs)"
proof -
  have "takeWhile (\<lambda>x. x = 0) (xs @ [0]) = takeWhile (\<lambda>x. x = 0) xs" using assms by (induction xs) auto
  then show ?thesis using assms by (simp add: rounds_left_def del: sum_list_eq_0_iff)
qed

lemma rounds_left_sent:
  assumes "sum_list ys < sum_list xs" and "length ys \<le> n" and "length xs \<le> n"
  shows "rounds_left n ys < rounds_left n xs"
proof -
  have n: "0 < n" using assms(1,3) by (cases xs) auto
  have "rounds_left n ys < (sum_list ys + 1) * n"
    using n leading_zeros [of ys] assms(2) by (cases "sum_list ys = 0") (simp_all add: rounds_left_def del: sum_list_eq_0_iff)
  also have "\<dots> \<le> sum_list xs * n" using assms(1) by (intro mult_le_mono1) simp
  also have "\<dots> \<le> rounds_left n xs" by (simp add: rounds_left_def del: sum_list_eq_0_iff)
  finally show ?thesis .
qed

section \<open>One round\<close>

lemma order_sum:
  assumes "current_connection s = None \<Longrightarrow> clients s = []"
  shows "sum_list (map f (turn_order s)) = (sum_list (map f (clients s)) :: nat)" and "length (turn_order s) = length (clients s)"
proof -
  have "sum_list (map f (takeWhile P xs)) + sum_list (map f (dropWhile P xs)) = sum_list (map f xs)"
    "length (takeWhile P xs) + length (dropWhile P xs) = length xs" for P and xs :: "nat list"
    by (induction xs) auto
  then show "sum_list (map f (turn_order s)) = sum_list (map f (clients s))" "length (turn_order s) = length (clients s)"
    using assms by (auto simp: turn_order_def add.commute split: option.split)
qed

lemma order_at:
  assumes "clients s = ys @ a # zs" and "current_connection s = Some a" and "a \<notin> set ys"
  shows "turn_order s = a # zs @ ys"
proof -
  have "takeWhile (\<lambda>d. d \<noteq> a) (ys @ a # zs) = ys" "dropWhile (\<lambda>d. d \<noteq> a) (ys @ a # zs) = a # zs"
    using assms(3) by (induction ys) auto
  then show ?thesis using assms(1,2) by (simp add: turn_order_def)
qed

text \<open>Without a transfer the turn goes on: the connection that had it is the last one to have it again.\<close>

lemma order_passed:
  assumes "clients s = ys @ a # zs" and "current_connection s = turn_current RESULT_NO_TRANSFER ys a zs"
    and "distinct (ys @ a # zs)"
  shows "turn_order s = zs @ ys @ [a]"
proof (cases zs)
  case Nil
  then show ?thesis
    using assms order_at [of s "[]" "hd (ys @ [a])" "tl (ys @ [a])"] by (cases ys) (simp_all add: turn_current_def)
next
  case (Cons z zs')
  then show ?thesis using assms order_at [of s "ys @ [a]" z zs'] by (simp add: turn_current_def)
qed

text \<open>After a turn in which something was sent there is less to send, wherever the connection is now.\<close>

lemma turn_list_sum:
  fixes f g :: "nat \<Rightarrow> nat"
  assumes "\<And>d. d \<in> set (turn_list r ys a zs) \<Longrightarrow> d \<noteq> a \<Longrightarrow> g d = f d"
    and "a \<in> set (turn_list r ys a zs) \<Longrightarrow> g a < f a" and "0 < f a" and "a \<notin> set (ys @ zs)"
  shows "sum_list (map g (turn_list r ys a zs)) < f a + sum_list (map f (ys @ zs))"
proof -
  have "set (ys @ zs) \<subseteq> set (turn_list r ys a zs)" by (auto simp: turn_list_def split: connection_result.split)
  then have "map g (ys @ zs) = map f (ys @ zs)" using assms(1,4) by auto
  then have eq: "sum_list (map g (ys @ zs)) = sum_list (map f (ys @ zs))" by (simp only:)
  show ?thesis
  proof (cases "r = RESULT_DISCONNECT")
    case True
    then show ?thesis using eq assms(3) by (simp add: turn_list_def)
  next
    case False
    then have "a \<in> set (turn_list r ys a zs)" "sum_list (map g (turn_list r ys a zs)) = g a + sum_list (map g (ys @ zs))"
      by (auto simp: turn_list_def split: connection_result.split)
    then show ?thesis using assms(2) eq by simp
  qed
qed

text \<open>What a connection owes after a round, from the view that has not changed.\<close>

lemma owed_after:
  assumes S: "served K b es s" "served K b es' s'" and io: "server_io s' = server_io s"
    and d: "d \<in> set (clients s)" "d \<in> set (clients s')"
    and fd: "file_descriptor (conn_at s' d) = file_descriptor (conn_at s d)"
  shows "length (w_sent (sworld s') (file_descriptor (conn_at s d))) + length (owed (sworld s') (conn_at s' d)) =
    length (w_sent (sworld s) (file_descriptor (conn_at s d))) + length (owed (sworld s) (conn_at s d))"
proof -
  have "server_io s (file_descriptor (conn_at s d)) = io_of (sworld s) (conn_at s d)"
    "server_io s' (file_descriptor (conn_at s' d)) = io_of (sworld s') (conn_at s' d)"
    using server_pool_io [OF servedD(4) [OF S(1)]] server_pool_io [OF servedD(4) [OF S(2)]] d
    by (simp_all add: pool_io_def)
  then have "io_of (sworld s') (conn_at s' d) = io_of (sworld s) (conn_at s d)" using io fd by simp
  then show ?thesis using fd unfolding io_of_def by (metis length_append snd_conv)
qed

lemma draining_turn:
  assumes S: "served K b es s" and cur: "current_connection s = Some a" and due: "\<not> accept_due e s"
    and e: "takes_answers (te_conn e)" and n: "length (clients s) \<le> n"
  obtains s' es' where "cache_server_proc (Suc fuel) e s = Inr s'" and "served K b es' s'"
    and "clients_view s' = clients_view s" and "length (clients s') \<le> length (clients s)"
    and "last_accept_timestamp s' = last_accept_timestamp s"
    and "outstanding s \<noteq> 0 \<Longrightarrow> rounds_left n (owing s') < rounds_left n (owing s)"
    and "outstanding s' \<le> outstanding s"
proof -
  let ?c = "conn_at s a" and ?w = "sworld s"
  note S' = servedD [OF S] and a = servedD(6) [OF S cur]
  note pool = pool_okD [OF S'(4)]
  have "arrived (te_conn e) ?c = []" using e by (simp add: arrived_def takes_answers_def)
  moreover from this have "round_ready K e s" using due cur e by (simp add: round_ready_def takes_answers_def)
  ultimately obtain s' es' c' w' r ys zs where xs: "clients s = ys @ a # zs"
    and proc: "connection_proc (te_conn e) ?c ?w = Inr (c', w', r)"
    and t: "turned K b es ?w ?c [] (c', w', r) es'"
    and run: "cache_server_proc (Suc fuel) e s = Inr s'" "served K b es' s'" "sworld s' = w'"
    and list: "clients s' = turn_list r ys a zs" "current_connection s' = turn_current r ys a zs"
    and time: "last_accept_timestamp s' = last_accept_timestamp s"
    and view: "clients_view s' = feed_client (file_descriptor ?c, []) (clients_view s)"
    and same: "\<forall>d\<in>set (clients s'). connection_links.more (conn_at s' d) = connection_links.more (if d = a then c' else conn_at s d)"
    using serving_step [OF S cur due, of fuel] by metis
  have view: "clients_view s' = clients_view s" using view feed_nothing [OF S] by simp
  then have io: "server_io s' = server_io s" by (simp add: clients_view_def)
  have dist: "distinct (ys @ a # zs)" using S'(1) xs by (simp add: conn_list_def)
  have sub: "set (clients s') \<subseteq> set (clients s)" and len: "length (clients s') \<le> length (clients s)"
    by (auto simp: list(1) xs turn_list_def split: connection_result.split)
  let ?f = "\<lambda>d. length (owed ?w (conn_at s d))" and ?g = "\<lambda>d. length (owed (sworld s') (conn_at s' d))"
  have fd: "file_descriptor (conn_at s' d) = file_descriptor (conn_at s d)" if "d \<in> set (clients s')" for d
    using relinked_same(4) [OF bspec [OF same that]] t by (auto simp: turned_def)
  note after = owed_after [OF S run(2) io subsetD [OF sub] _ fd]
  have other: "?g d = ?f d" if d: "d \<in> set (clients s')" "d \<noteq> a" for d
  proof -
    have "w_sent w' (file_descriptor (conn_at s d)) = w_sent ?w (file_descriptor (conn_at s d))"
      using t pool(5) [of d a] subsetD [OF sub d(1)] a d(2) by (simp add: turned_def lets_others_def)
    then show ?thesis using after [OF d(1) d(1) d(1)] run(3) by simp
  qed
  have ok: "world_ok K b ?w es" "conn_ok b es ?w ?c" "unfinished ?c" using pool(2-4) a by blast+
  have ord: "turn_order s = a # zs @ ys" using order_at [OF xs cur] dist by simp
  have out: "outstanding s' = sum_list (map ?g (clients s'))" "length (owing s') = length (clients s')"
    using order_sum [OF servedD(5) [OF run(2)]] by (simp_all add: outstanding_def owing_def)
  have out0: "outstanding s = ?f a + sum_list (map ?f (ys @ zs))" "length (owing s) = length (clients s)"
    using order_sum [OF S'(5)] by (simp_all add: outstanding_def owing_def ord)
  show ?thesis
  proof (cases "owed ?w ?c = []")
    case True
    have r: "r = RESULT_NO_TRANSFER" "w_sent w' = w_sent ?w" using idle_turn [OF ok e True proc] by simp_all
    have cl: "clients s' = clients s" using list(1) r(1) xs by (simp add: turn_list_def)
    have "?g a = ?f a" using after [of a] a cl r(2) run(3) by simp
    then have same: "?g d = ?f d" if "d \<in> set (clients s)" for d using other [of d] that cl by (cases "d = a") simp_all
    have "turn_order s' = zs @ ys @ [a]" using order_passed [of s' ys a zs] cl xs list(2) r(1) dist by simp
    then have ow: "owing s' = map ?f (zs @ ys) @ [0]" "owing s = 0 # map ?f (zs @ ys)"
      using same True xs by (simp_all add: owing_def ord)
    show ?thesis
      by (rule that [OF run(1,2) view len time])
        (use rounds_left_pass [of "map ?f (zs @ ys)" n] ow in \<open>simp_all add: outstanding_def del: sum_list_eq_0_iff\<close>)
  next
    case False
    have less: "?g a < ?f a" if "a \<in> set (clients s')"
      using sending_progress [OF ok e False proc] after [OF that that that] run(3) by simp
    then have "sum_list (map ?g (clients s')) < ?f a + sum_list (map ?f (ys @ zs))"
      using turn_list_sum [of r ys a zs ?g ?f] other dist False unfolding list(1) by simp
    then have dec: "outstanding s' < outstanding s" using out(1) out0(1) by simp
    then show ?thesis
      using that [OF run(1,2) view len time] rounds_left_sent [of "owing s'" "owing s" n] out(2) out0(2) len n
      by (simp add: outstanding_def)
  qed
qed

section \<open>Runs\<close>

text \<open>A round in which no client arrives, and one that is not spent on looking for a client while others are served.\<close>

definition draining_round :: "turn_env \<Rightarrow> bool" where
  "draining_round e \<longleftrightarrow> takes_answers (te_conn e) \<and> nobody_calls e"

definition serving :: "turn_env \<Rightarrow> server \<Rightarrow> bool" where
  "serving e s \<longleftrightarrow> current_connection s = None \<or> \<not> accept_due e s"

definition serving_rounds :: "nat \<Rightarrow> turn_env list \<Rightarrow> server \<Rightarrow> nat" where
  "serving_rounds fuel es s = length (filter (\<lambda>x. x) (trace serving (cache_server_proc fuel) es s))"

lemma nobody_round:
  assumes S: "served K b es s" and due: "accept_due e s" and e: "nobody_calls e"
  obtains s' where "cache_server_proc fuel e s = Inr s'" and "served K b es s'" and "clients_view s' = clients_view s"
    and "clients s' = clients s" and "owing s' = owing s"
    and "last_accept_timestamp s' = time_get_timestamp (te_accept_time e)"
proof -
  let ?s = "s\<lparr>last_accept_timestamp := time_get_timestamp (te_accept_time e)\<rparr>"
  have run: "cache_server_proc fuel e s = Inr ?s"
    using due e by (simp add: cache_server_proc_def accept_connection_def nobody_calls_def)
  have same: "clients ?s = clients s" "conn_at ?s = conn_at s" by (simp_all add: clients_def conn_at_def fun_eq_iff)
  have "round_ready K e s" using due e by (simp add: round_ready_def accepts_fresh_def nobody_calls_def)
  with accepting_round [OF S due this, of fuel] run
  show ?thesis by (intro that [of ?s]) (simp_all add: owing_def turn_order_def same cong: option.case_cong)
qed

lemma drained_step:
  assumes S: "served K b es s" and e: "draining_round e" and n: "length (clients s) \<le> n"
  obtains s' es' where "cache_server_proc (Suc fuel) e s = Inr s'" and "served K b es' s'"
    and "clients_view s' = clients_view s" and "length (clients s') \<le> n"
    and "rounds_left n (owing s') \<le> rounds_left n (owing s) - (if serving e s then 1 else 0)"
    and "last_accept_timestamp s' \<in> {last_accept_timestamp s, time_get_timestamp (te_accept_time e)}"
proof (cases "accept_due e s")
  case True
  obtain s' where s': "cache_server_proc (Suc fuel) e s = Inr s'" "served K b es s'" "clients_view s' = clients_view s"
    "clients s' = clients s" "owing s' = owing s" "last_accept_timestamp s' = time_get_timestamp (te_accept_time e)"
    using nobody_round [OF S True] e by (auto simp: draining_round_def)
  have "rounds_left n (owing s) = 0" if "serving e s"
    using that True servedD(5) [OF S] by (auto simp: serving_def owing_def turn_order_def rounds_left_def split: option.splits)
  then show ?thesis using that [OF s'(1,2,3)] s'(4-6) n by simp
next
  case False
  then obtain a where cur: "current_connection s = Some a" by (auto simp: accept_due_def)
  obtain s' es' where s': "cache_server_proc (Suc fuel) e s = Inr s'" "served K b es' s'" "clients_view s' = clients_view s"
    "length (clients s') \<le> length (clients s)" "last_accept_timestamp s' = last_accept_timestamp s"
    "outstanding s \<noteq> 0 \<Longrightarrow> rounds_left n (owing s') < rounds_left n (owing s)" "outstanding s' \<le> outstanding s"
    using draining_turn [OF S cur False _ n] e unfolding draining_round_def by metis
  have "rounds_left n (owing s') \<le> rounds_left n (owing s) - 1"
    using s'(6,7) by (cases "outstanding s = 0") (simp_all add: rounds_left_def outstanding_def del: sum_list_eq_0_iff)
  then show ?thesis using that [OF s'(1-3)] s'(4,5) n False by (simp add: serving_def)
qed

text \<open>
  The contract of a server that gets somewhere: its steps keep a view and never increase a potential, and steps that
  count decrease it. After as many of these as the potential allows at first, it is used up.
\<close>

locale progressing_service =
  fixes inv :: "'s \<Rightarrow> bool" and view :: "'s \<Rightarrow> 'm" and ready :: "'q \<Rightarrow> bool" and step :: "'q \<Rightarrow> 's \<Rightarrow> 's result"
    and counts :: "'q \<Rightarrow> 's \<Rightarrow> bool" and potential :: "'s \<Rightarrow> nat"
  assumes step_law: "inv s \<Longrightarrow> ready q \<Longrightarrow> \<exists>s'. step q s = Inr s' \<and> inv s' \<and> view s' = view s \<and>
    potential s' \<le> potential s - (if counts q s then 1 else 0)"
begin

lemma run_uses_up:
  "inv s \<Longrightarrow> \<forall>q\<in>set qs. ready q \<Longrightarrow>
   \<exists>s'. run_all step qs s = Inr s' \<and> inv s' \<and> view s' = view s \<and>
     potential s' \<le> potential s - length (filter (\<lambda>x. x) (trace counts step qs s))"
proof (induction qs arbitrary: s)
  case (Cons q qs)
  then obtain s1 where s1: "step q s = Inr s1" "inv s1" "view s1 = view s"
    "potential s1 \<le> potential s - (if counts q s then 1 else 0)"
    using step_law [of s q] by auto
  with Cons.IH [of s1] Cons.prems(2) obtain s' where "run_all step qs s1 = Inr s'" "inv s'" "view s' = view s"
    "potential s' \<le> potential s1 - length (filter (\<lambda>x. x) (trace counts step qs s1))"
    by auto
  with s1 show ?case by auto
qed simp

end

definition drains :: "u8 list set \<Rightarrow> nat \<Rightarrow> nat \<Rightarrow> server \<Rightarrow> bool" where
  "drains K b n s \<longleftrightarrow> clients_ok K b s \<and> length (clients s) \<le> n"

interpretation answers: progressing_service "drains K b n" clients_view draining_round "cache_server_proc (Suc fuel)"
    serving "\<lambda>s. rounds_left n (owing s)"
  for K b n fuel
proof unfold_locales
  fix s q
  assume "drains K b n s" and q: "draining_round q"
  then obtain es where "served K b es s" "length (clients s) \<le> n" by (auto simp: drains_def clients_ok_def)
  from drained_step [OF this(1) q this(2), of fuel]
  show "\<exists>s'. cache_server_proc (Suc fuel) q s = Inr s' \<and> drains K b n s' \<and> clients_view s' = clients_view s \<and>
      rounds_left n (owing s') \<le> rounds_left n (owing s) - (if serving q s then 1 else 0)"
    unfolding drains_def clients_ok_def by blast
qed

text \<open>When nothing is outstanding, every client has been sent its answers.\<close>

lemma nothing_outstanding:
  assumes S: "served K b es s" and none: "outstanding s = 0"
  shows "snd (server_io s fd) = w_sent (sworld s) fd"
proof (cases "fd \<in> (\<lambda>a. file_descriptor (conn_at s a)) ` set (clients s)")
  case True
  then obtain a where a: "a \<in> set (clients s)" "fd = file_descriptor (conn_at s a)" by blast
  have "sum_list (map (\<lambda>d. length (owed (sworld s) (conn_at s d))) (clients s)) = 0"
    using none order_sum(1) [OF servedD(5) [OF S]] by (simp add: outstanding_def owing_def)
  then have "owed (sworld s) (conn_at s a) = []" using a(1) by simp
  then show ?thesis
    using server_pool_io [OF servedD(4) [OF S]] a by (simp add: pool_io_def io_of_def)
next
  case False
  then show ?thesis using server_pool_io [OF servedD(4) [OF S]] by (simp add: pool_io_def)
qed

lemma owing_length: "clients_ok K b s \<Longrightarrow> length (owing s) = length (clients s)"
  using order_sum(2) servedD(5) by (fastforce simp: owing_def clients_ok_def)

lemma no_rounds_left: "rounds_left n xs = 0 \<Longrightarrow> length xs \<le> n \<Longrightarrow> sum_list xs = 0"
  by (cases xs) (auto simp: rounds_left_def split: if_splits)

end
