(* ===== verification/FailingClients.thy ===== *)
theory FailingClients
  imports ClientRuns
begin

text \<open>
  Clients whose sockets fail. A connection that owns the memory of a key cannot be given up: \<open>free\<close> is called with
  its buffer, which is not the start of the block. Every other connection is closed, and its read lock is given
  back: the flag of the connection says whether it holds one (\<open>lock_flagged\<close>). A run of the loop refines the
  specification in which a client may hang up (\<open>client_step\<close>).
\<close>

section \<open>The flag of the read lock\<close>

definition lock_flagged :: "connection \<Rightarrow> bool" where
  "lock_flagged c \<longleftrightarrow> has_flag c FLAG_LOCK_ACQUIRED = holds_lock c"

lemma lock_flagged_simps [simp]:
  "lock_flagged (c\<lparr>previous := p, next := n\<rparr>) = lock_flagged c"
  "lock_flagged (c\<lparr>file_descriptor := fd\<rparr>) = lock_flagged c"
  by (simp_all add: lock_flagged_def has_flag_bit holds_lock_def)

lemma lock_flagged_receiving:
  "receiving (conn_state c) \<Longrightarrow> lock_flagged c \<longleftrightarrow> \<not> bit (conn_flags c) 2"
  using receiving_free(2) [of c] by (simp add: lock_flagged_def has_flag_bit)

lemma lock_flagged_idle: "idle c \<Longrightarrow> lock_flagged c"
  by (simp add: lock_flagged_def has_flag_bit holds_lock_def idle_def flags_none)

lemma lock_flagged_code:
  assumes "header_union c \<noteq> []" and "t \<noteq> RESPONSE_VALUE" and "\<not> bit (conn_flags c) 2"
  shows "lock_flagged (send_header c t)"
  using assms by (cases t) (simp_all add: lock_flagged_def has_flag_bit holds_lock_def)

lemma lock_flagged_init: "lock_flagged (init_request c)"
  by (simp add: lock_flagged_def has_flag_bit holds_lock_def init_request_def)

text \<open>Every handler keeps the flag true to the lock, unless it closes the connection.\<close>

lemma header_flagged:
  assumes "\<not> bit (conn_flags c) 2" and "header_union c \<noteq> []"
  shows "lock_flagged (event_received_header c)"
proof -
  have args: "lock_flagged (receive_arguments n c)" if "\<not> bit (conn_flags c) 2" for n c
    using that by (subst lock_flagged_receiving) (simp_all add: receive_arguments_def receiving_def)
  let ?c = "if req_flags (request_of c) AND REQUEST_FLAG_KEEP_ALIVE \<noteq> 0 then set_flag FLAG_KEEP_ALIVE c else c"
  have "\<not> bit (conn_flags ?c) 2" "header_union ?c \<noteq> []" using assms by simp_all
  then show ?thesis
    using assms args lock_flagged_code
    by (auto simp: event_received_header_def Let_def split: option.split request_type.split)
qed

lemma read_flagged:
  assumes run: "attempt_memory_read c w = Inr (c', w', r)" and c: "\<not> bit (conn_flags c) 2" "header_union c \<noteq> []"
  shows "lock_flagged c'"
proof -
  have answer: "lock_flagged (value_response c n)" for n
  proof -
    have "bit (conn_flags (value_response c n)) 2" by (simp add: value_response_def set_response_value_size_def send_header_def)
    then show ?thesis using c(2) by (simp add: lock_flagged_def has_flag_bit holds_lock_def value_header_eq)
  qed
  have "c' = send_header c RESPONSE_NOT_FOUND \<or> c' = c\<lparr>conn_state := AWAITING_READ_UNBLOCK\<rparr> \<or> (\<exists>n. c' = value_response c n)"
    using run by (auto simp: attempt_memory_read_def value_response_def Let_def elim!: bindE_InrE split: if_splits)
  then show ?thesis
    using answer lock_flagged_code [OF c(2) _ c(1)] c by (auto simp: lock_flagged_def has_flag_bit holds_lock_def)
qed

text \<open>A connection that does not send has no lock.\<close>

lemma lock_flagged_silent:
  "\<not> sending (conn_state c) \<Longrightarrow> \<not> bit (conn_flags c) 2 \<Longrightarrow> lock_flagged c"
  by (auto simp: lock_flagged_def has_flag_bit holds_lock_def sending_def)

lemma arguments_flagged:
  assumes run: "event_received_arguments e c w = Inr (c', w', r)" and c: "\<not> bit (conn_flags c) 2" "header_union c \<noteq> []"
  shows "lock_flagged c'"
proof -
  have "lock_flagged (send_header (c\<lparr>conn_entry := p\<rparr>) RESPONSE_OUT_OF_MEMORY)" for p
    using c by (intro lock_flagged_code) simp_all
  then have "lock_flagged c' \<or> \<not> sending (conn_state c') \<and> bit (conn_flags c') 2 = bit (conn_flags c) 2"
    using run
    by (auto simp: event_received_arguments_def allocate_key_def attempt_memory_write_def sending_def Let_def
        elim!: bindE_InrE split: option.splits request_type.splits if_splits prod.splits)
  then show ?thesis using lock_flagged_silent c(1) by blast
qed

lemma body_flagged:
  assumes run: "event_received_body e c w = Inr (c', w', r)" and c: "\<not> bit (conn_flags c) 2" "header_union c \<noteq> []"
  shows "lock_flagged c'"
proof -
  have "(\<exists>t. c' = send_header c t \<and> t \<noteq> RESPONSE_VALUE) \<or>
      (\<exists>w1 p. attempt_memory_read ((clear_flag FLAG_ALLOCATED_BUFFER c)\<lparr>conn_entry := p\<rparr>) w1 = Inr (c', w', r))"
    using run by (auto simp: event_received_body_def Let_def elim!: bindE_InrE split: option.splits request_type.splits if_splits)
  then show ?thesis using lock_flagged_code [OF c(2) _ c(1)] read_flagged c by fastforce
qed

lemma finish_flagged:
  "finish_request c = (c', r) \<Longrightarrow> r \<noteq> RESULT_DISCONNECT \<Longrightarrow> lock_flagged c'"
  by (auto simp: finish_request_def lock_flagged_init split: if_splits)

lemma sent_flagged:
  assumes run: "event_sent_header c w = Inr (c', w', r)" and c: "lock_flagged c" "conn_state c = SENDING_HEADER" "header_union c \<noteq> []" and r: "r \<noteq> RESULT_DISCONNECT"
  shows "lock_flagged c'"
proof -
  let ?is_value = "response_type_of (resp_type (agg_header (response_of c))) = Some RESPONSE_VALUE"
  have "lock_flagged c'" if v: ?is_value
  proof -
    have "header_union c ! 0 = response_code RESPONSE_VALUE"
      using v c(3) by (cases "header_union c")
        (auto simp: response_type_of_Some response_of_def decode_aggregate_response_def decode_response_header_def)
    then have "bit (conn_flags c) 2" using c(1,2) by (simp add: lock_flagged_def has_flag_bit holds_lock_def)
    moreover have "conn_state c' = SENDING_BODY" "conn_flags c' = conn_flags c"
      using run v by (auto simp: event_sent_header_def elim!: bindE_InrE)
    ultimately show ?thesis by (simp add: lock_flagged_def has_flag_bit holds_lock_def)
  qed
  moreover have "\<not> ?is_value \<Longrightarrow> lock_flagged c'"
    using run finish_flagged r
    by (auto simp: event_sent_header_def Let_def elim!: bindE_InrE split: option.splits if_splits prod.splits)
  ultimately show ?thesis by blast
qed

lemma dispatch_flagged:
  assumes run: "dispatch e c w = Inr (c', w', r)" and c: "lock_flagged c" "header_union c \<noteq> []" and r: "r \<noteq> RESULT_DISCONNECT"
  shows "lock_flagged c'"
proof (cases "receiving (conn_state c)")
  case True
  then have "\<not> bit (conn_flags c) 2" using c(1) lock_flagged_receiving by simp
  then show ?thesis
    using run True c(2) header_flagged [of c] arguments_flagged body_flagged
    by (auto simp: dispatch_def receiving_def)
next
  case False
  then show ?thesis
    using run sent_flagged [OF _ c(1) _ c(2) r] finish_flagged r
    by (auto simp: dispatch_def event_sent_body_def receiving_def Let_def elim!: bindE_InrE
        split: connection_state.splits if_splits prod.splits)
qed

lemma transfer_flagged:
  assumes run: "connection_transfer e c w = Inr (c1, w1, r)" and c: "lock_flagged c" "header_union c \<noteq> []"
    and r: "r \<noteq> RESULT_DISCONNECT"
  shows "lock_flagged c1 \<and> header_union c1 \<noteq> []"
proof -
  have store: "conn_flags c2 = conn_flags c \<and> conn_state c2 = conn_state c \<and> header_union c2 \<noteq> []"
    if "buffer_store c w bs = Inr (c2, w2)" for bs c2 w2
    using that c(2) by (auto simp: buffer_store_def overwrite_def Let_def elim!: bindE_InrE split: buffer_ref.splits if_splits)
  have call: "lock_flagged c2 \<and> header_union c2 \<noteq> []" if sc: "socket_call e c w = Inr (c2, w2, out)" for c2 w2 out
  proof (cases "receiving (conn_state c)")
    case True
    then have "c2 = c \<or> (\<exists>bs. buffer_store c w bs = Inr (c2, w2))"
      using sc by (auto simp: socket_call_def Let_def elim!: bindE_InrE split: io.splits)
    then show ?thesis using store c True lock_flagged_receiving by auto
  next
    case False
    then have "c2 = c" using sc by (auto simp: socket_call_def Let_def elim!: bindE_InrE split: io.splits if_splits)
    then show ?thesis using c by simp
  qed
  have adv: "lock_flagged (c2\<lparr>remaining_bytes := n, buffer_index := i\<rparr>) = lock_flagged c2" for c2 n i
    by (simp add: lock_flagged_def has_flag_bit holds_lock_def)
  have "socket_failure c2 w2 \<noteq> Inr (c1, w1, r)" for c2 w2
    using r by (auto simp: socket_failure_def elim!: bindE_InrE split: if_splits)
  then show ?thesis
    using run call adv by (fastforce simp: connection_transfer_def elim!: bindE_InrE split: io.splits if_splits)
qed

lemma proc_flagged:
  assumes run: "connection_proc e c w = Inr (c', w', r)" and c: "lock_flagged c" "header_union c \<noteq> []"
    and r: "r \<noteq> RESULT_DISCONNECT"
  shows "lock_flagged c'"
proof -
  obtain c1 w1 r1 where t: "connection_transfer e c w = Inr (c1, w1, r1)"
    and rest: "(if r1 \<noteq> RESULT_SUCCESS then Inr (c1, w1, r1)
      else if remaining_bytes c1 \<noteq> 0 then Inr (c1, w1, RESULT_SUCCESS) else dispatch e c1 w1) = Inr (c', w', r)"
    using run by (auto simp: connection_proc_def elim!: bindE_InrE)
  have "r1 \<noteq> RESULT_DISCONNECT" using rest r by (auto split: if_splits)
  note c1 = transfer_flagged [OF t c this]
  then show ?thesis using rest dispatch_flagged [OF _ _ _ r, of e c1 w1 c' w'] by (auto split: if_splits)
qed

section \<open>A turn whose socket fails\<close>

definition socket_fails :: "env \<Rightarrow> connection \<Rightarrow> bool" where
  "socket_fails e c \<longleftrightarrow>
     (if receiving (conn_state c) then env_recv e (file_descriptor c) (unat (remaining_bytes c)) = Io_error
      else \<forall>bs. env_send e (file_descriptor c) bs = Io_error)"

lemma failing_proc:
  assumes W: "world_ok K b w es" and ok: "conn_ok b es w c" and fails: "socket_fails e c"
  shows "connection_proc e c w = socket_failure c w"
proof -
  have "socket_call e c w = Inr (c, w, Io_error)"
  proof (cases "receiving (conn_state c)")
    case False
    then have st: "sending (conn_state c)"
      using ok by (cases "conn_state c") (simp_all add: receiving_def sending_def conn_ok_def state_ok_def)
    obtain bs where "buffer_load c w (unat (remaining_bytes c)) = Inr bs" using send_part [OF W ok st, of 0] by auto
    then show ?thesis using False st fails by (simp add: socket_call_def socket_fails_def Let_def)
  qed (use fails in \<open>simp add: socket_call_def socket_fails_def Let_def\<close>)
  moreover have "r = RESULT_DISCONNECT" if "socket_failure c w = Inr (c', w', r)" for c' w' r
    using that by (auto simp: socket_failure_def elim!: bindE_InrE split: if_splits)
  ultimately show ?thesis
    by (cases "socket_failure c w") (auto simp: connection_proc_def connection_transfer_def)
qed

text \<open>The buffer of a connection is never the start of a block.\<close>

lemma buffer_not_freed:
  assumes "conn_ok b es w c"
  shows "free_buffer c w = Inl Bad_free"
proof -
  have "free_block m (Ptr p (Suc i)) = Inl Bad_free" for m p i
    by simp
  then show ?thesis
    using assms by (cases "conn_state c")
      (auto simp: conn_ok_def state_ok_def takes_key_def takes_pair_def sends_value_def sends_code_def
        free_buffer_def header_size_def Let_def split: if_splits)
qed

lemma failing_turn:
  assumes W: "world_ok K b w es" and ok: "conn_ok b es w c" and held: "\<forall>e\<in>set es. reads_entry b c e \<le> lock_at b w e"
    and flag: "lock_flagged c" and fails: "socket_fails e c"
  shows "has_flag c FLAG_ALLOCATED_BUFFER \<Longrightarrow> connection_proc e c w = Inl Bad_free"
    and "\<not> has_flag c FLAG_ALLOCATED_BUFFER \<Longrightarrow> \<exists>c' w'. connection_proc e c w = Inr (c', w', RESULT_DISCONNECT) \<and>
      departed K b es w c w' es \<and> contents w' = contents w \<and> w_sent w' = w_sent w \<and> resources w' = resources w"
proof -
  note proc = failing_proc [OF W ok fails]
  show "has_flag c FLAG_ALLOCATED_BUFFER \<Longrightarrow> connection_proc e c w = Inl Bad_free"
    using proc buffer_not_freed [OF ok] by (simp add: socket_failure_def)
  assume nb: "\<not> has_flag c FLAG_ALLOCATED_BUFFER"
  show "\<exists>c' w'. connection_proc e c w = Inr (c', w', RESULT_DISCONNECT) \<and>
      departed K b es w c w' es \<and> contents w' = contents w \<and> w_sent w' = w_sent w \<and> resources w' = resources w"
  proof (cases "holds_lock c")
    case False
    then have "connection_proc e c w = Inr (c, w, RESULT_DISCONNECT)"
      using proc nb flag by (simp add: socket_failure_def lock_flagged_def)
    moreover have "departed K b es w c w es"
      using W lets_others_refl [of b es w c] False by (simp add: departed_def counts_def reads_entry_def)
    ultimately show ?thesis by blast
  next
    case True
    then obtain e where val: "sends_value b es w c e"
      using ok sends_code_free [of c] by (auto simp: conn_ok_def state_ok_def holds_lock_def)
    obtain ev m where ret: "entry_header_release_lock (w_mem w) (conn_entry c) = Inr (m, ev)"
      "world_ok K b (set_mem w m) es" "contents (set_mem w m) = contents w" "lets_others b es w (set_mem w m) c"
      "\<forall>f\<in>set es. lock_at b (set_mem w m) f + reads_entry b c f = lock_at b w f"
      by (rule lock_returned [OF W val held]) (use that in \<open>simp\<close>)
    have "connection_proc e' c w = socket_failure c w \<Longrightarrow>
        connection_proc e' c w = Inr (c\<lparr>lock_release_event := ev\<rparr>, set_mem w m, RESULT_DISCONNECT)" for e'
      using nb True flag ret(1) by (simp add: socket_failure_def lock_flagged_def)
    moreover have "departed K b es w c (set_mem w m) es" using ret(2,4,5) by (simp add: departed_def counts_def)
    moreover have "w_sent (set_mem w m) = w_sent w" "resources (set_mem w m) = resources w" by simp_all
    ultimately show ?thesis using proc ret(3) by blast
  qed
qed

section \<open>Rounds\<close>

text \<open>
  What happens in a round: bytes of a client arrive, or a client hangs up after \<open>n\<close> bytes of its answers were
  sent, and its unfinished request and the rest of its answers are forgotten.
\<close>

datatype client_event = Fed int "u8 list" | Hung int nat

fun client_step :: "client_event \<Rightarrow> service_view \<Rightarrow> service_view" where
  "client_step (Fed fd bs) v = feed_client (fd, bs) v"
| "client_step (Hung fd n) (m, v) = (m, v(fd := ([], take n (snd (v fd)))))"

definition hangs_up :: "turn_env \<Rightarrow> server \<Rightarrow> bool" where
  "hangs_up e s \<longleftrightarrow> \<not> accept_due e s \<and> socket_fails (te_conn e) (conn_at s (the (current_connection s)))"

definition event_now :: "turn_env \<Rightarrow> server \<Rightarrow> client_event" where
  "event_now e s = (let (fd, bs) = fed_now e s in if hangs_up e s then Hung fd (length (w_sent (sworld s) fd)) else Fed fd bs)"

definition flagged :: "server \<Rightarrow> bool" where
  "flagged s \<longleftrightarrow> (\<forall>a\<in>set (clients s). lock_flagged (conn_at s a))"

definition owns_buffer :: "server \<Rightarrow> bool" where
  "owns_buffer s \<longleftrightarrow> has_flag (conn_at s (the (current_connection s))) FLAG_ALLOCATED_BUFFER"

lemma lock_flagged_relinked:
  assumes "connection_links.more c' = connection_links.more (c :: connection)"
  shows "lock_flagged c' = lock_flagged c"
proof -
  obtain p n where "c' = c\<lparr>previous := p, next := n\<rparr>" using relinked [OF assms] .
  then show ?thesis by simp
qed

lemma payload_at:
  "same_payload h h' \<Longrightarrow> h d = Some c \<Longrightarrow> h' d = Some c' \<Longrightarrow> connection_links.more c' = connection_links.more c"
  unfolding same_payload_def by (metis option.simps(9) option.inject)

lemma flagged_without:
  assumes S: "served K b es s" and F: "flagged s" and xs: "clients s = ys @ a # zs"
    and pay: "same_payload ((conns s)(a := None)) (conns s')" and list: "conn_list (conns s') (served_list s') (ys @ zs)"
  shows "flagged s'"
  unfolding flagged_def
proof
  fix d
  assume d: "d \<in> set (clients s')"
  have cl: "clients s' = ys @ zs" using clients_eq [OF list] servedD(2) [OF S] by (simp add: xs)
  then have d': "d \<noteq> a" "d \<in> set (clients s)" using d servedD(1) [OF S] by (auto simp: xs conn_list_def)
  obtain q where q: "conns s' d = Some q" using listed [OF list] d cl by auto
  have "((conns s)(a := None)) d = Some (conn_at s d)" using d'(1) servedD(7) [OF S d'(2)] by simp
  then have "lock_flagged q = lock_flagged (conn_at s d)"
    using payload_at [OF pay _ q] lock_flagged_relinked by blast
  then show "lock_flagged (conn_at s' d)" using F d'(2) q by (simp add: flagged_def conn_at_def [of s'])
qed

lemma hung_round:
  assumes S: "served K b es s" and F: "flagged s" and hung: "hangs_up e s"
  shows "owns_buffer s \<Longrightarrow> cache_server_proc (Suc fuel) e s = Inl Bad_free"
    and "\<not> owns_buffer s \<Longrightarrow> \<exists>s'. cache_server_proc (Suc fuel) e s = Inr s' \<and> served K b es s' \<and> flagged s' \<and>
      resources (sworld s') = resources (sworld s) \<and> clients_view s' = client_step (event_now e s) (clients_view s)"
proof -
  have due: "\<not> accept_due e s" using hung by (simp add: hangs_up_def)
  then obtain a where cur: "current_connection s = Some a" by (auto simp: accept_due_def)
  note S' = servedD [OF S] and a = servedD(6) [OF S cur] and P = servedD(4) [OF S]
  let ?w = "sworld s" and ?c = "conn_at s a"
  obtain ys zs where xs: "clients s = ys @ a # zs" using a by (meson split_list)
  have L: "conn_list (conns s) (served_list s) (ys @ a # zs)" using S'(1) xs by simp
  have c: "conns s a = Some ?c" "conn_ok b es ?w ?c" "lock_flagged ?c"
    using S'(7) [OF a] pool_okD(3) [OF P a] F a by (simp_all add: flagged_def)
  then have ev: "lock_release_event ?c \<noteq> LOCK_EVENT_BLOCKED" by (simp add: conn_ok_def)
  have fails: "socket_fails (te_conn e) ?c" using hung cur by (simp add: hangs_up_def)
  note turn = failing_turn [OF pool_okD(2) [OF P] c(2) pool_reads [OF P a] c(3) fails]
  show "cache_server_proc (Suc fuel) e s = Inl Bad_free" if "owns_buffer s"
    using turn(1) that cur due c(1) get_next_in_list [OF L cur]
    by (simp add: owns_buffer_def cache_server_proc_def on_connection_def)
  assume "\<not> owns_buffer s"
  then obtain c' w' where t: "connection_proc (te_conn e) ?c ?w = Inr (c', w', RESULT_DISCONNECT)"
    "departed K b es ?w ?c w' es" "contents w' = contents ?w" "w_sent w' = w_sent ?w" "resources w' = resources ?w"
    using turn(2) cur by (auto simp: owns_buffer_def)
  have ne: "RESULT_DISCONNECT \<noteq> RESULT_READ_BLOCKED" "RESULT_DISCONNECT \<noteq> RESULT_WRITE_BLOCKED" by simp_all
  obtain h ctx where h: "cache_server_proc (Suc fuel) e s =
      Inr (s\<lparr>sworld := w', conns := h, served_list := ctx, current_connection := turn_current RESULT_DISCONNECT ys a zs,
             closed_descriptors := closed_descriptors s @ turn_closed RESULT_DISCONNECT c'\<rparr>)"
    "conn_list h ctx (turn_list RESULT_DISCONNECT ys a zs)"
    "same_payload ((conns s)(a := if RESULT_DISCONNECT = RESULT_DISCONNECT then None else Some c')) h"
    using round_outcome [OF L cur due c(1) ev S'(3) t(1) ne] .
  have pay: "same_payload ((conns s)(a := None)) h" using h(3) by simp
  let ?s = "s\<lparr>sworld := w', conns := h, served_list := ctx, current_connection := turn_current RESULT_DISCONNECT ys a zs,
             closed_descriptors := closed_descriptors s @ turn_closed RESULT_DISCONNECT c'\<rparr>"
  have list: "conn_list h ctx (ys @ zs)" using h(2) by (simp add: turn_list_def)
  have cu: "case current_connection ?s of None \<Rightarrow> ys @ zs = [] | Some d \<Rightarrow> d \<in> set (ys @ zs)"
    by (cases ys; cases zs) (simp_all add: turn_current_def first_of_def)
  have sv: "served K b es ?s" "server_io ?s = (server_io s)(file_descriptor ?c := ([], w_sent w' (file_descriptor ?c)))"
    by (rule served_departed [OF S xs t(2)]; use pay list cu S'(3) in simp)+
  have "flagged ?s" by (rule flagged_without [OF S F xs]; use pay list in simp)
  moreover have "fed_now e s = (file_descriptor ?c, arrived (te_conn e) ?c)" using due cur by (simp add: fed_now_def Let_def)
  then have "clients_view ?s = client_step (event_now e s) (clients_view s)"
    using sv(2) t(3,4) served_got [OF S a] hung by (simp add: clients_view_def event_now_def io_of_def)
  ultimately show "\<exists>s'. cache_server_proc (Suc fuel) e s = Inr s' \<and> served K b es s' \<and> flagged s' \<and>
      resources (sworld s') = resources (sworld s) \<and> clients_view s' = client_step (event_now e s) (clients_view s)"
    using h(1) sv(1) t(5) by (intro exI [of _ ?s]) simp
qed

lemma flagged_kept:
  assumes S: "served K b es s" and F: "flagged s" and ready: "round_ready K e s"
    and run: "cache_server_proc (Suc fuel) e s = Inr s'"
  shows "flagged s'"
proof (cases "accept_due e s")
  case True
  obtain s1 where s1: "cache_server_proc (Suc fuel) e s = Inr s1"
    "\<forall>a\<in>set (clients s). connection_links.more (conn_at s1 a) = connection_links.more (conn_at s a)"
    "\<forall>a\<in>set (clients s1). a \<in> set (clients s) \<or> idle (conn_at s1 a)"
    using accepting_round [OF S True ready, of "Suc fuel"] by blast
  then have "s1 = s'" using run by simp
  with s1(2,3) show ?thesis using F lock_flagged_idle lock_flagged_relinked unfolding flagged_def by blast
next
  case False
  then obtain a where cur: "current_connection s = Some a" by (auto simp: accept_due_def)
  note a = servedD(6) [OF S cur] and P = servedD(4) [OF S]
  obtain s1 es1 c' w' r ys zs where s1: "clients s = ys @ a # zs"
    "connection_proc (te_conn e) (conn_at s a) (sworld s) = Inr (c', w', r)"
    "cache_server_proc (Suc fuel) e s = Inr s1" "clients s1 = turn_list r ys a zs"
    "\<forall>d\<in>set (clients s1). connection_links.more (conn_at s1 d) =
      connection_links.more (if d = a then c' else conn_at s d)"
    by (rule serving_step [OF S cur False ready, of fuel])
  have "header_union (conn_at s a) \<noteq> []" using pool_okD(3) [OF P a] by (auto simp: conn_ok_def wire_sizes)
  then have c': "lock_flagged c'" if "r \<noteq> RESULT_DISCONNECT"
    using proc_flagged [OF s1(2) _ _ that] F a by (simp add: flagged_def)
  have "lock_flagged (conn_at s1 d)" if d: "d \<in> set (clients s1)" for d
    unfolding lock_flagged_relinked [OF bspec [OF s1(5) d]]
  proof (cases "d = a")
    case True
    have "a \<notin> set (ys @ zs)" using servedD(1) [OF S] by (auto simp: s1(1) conn_list_def)
    then have "r \<noteq> RESULT_DISCONNECT" using d True s1(4) by (auto simp: turn_list_def)
    then show "lock_flagged (if d = a then c' else conn_at s d)" using c' True by simp
  next
    case False
    then have "d \<in> set (clients s)" using d s1(1,4) by (cases r) (auto simp: turn_list_def)
    then show "lock_flagged (if d = a then c' else conn_at s d)" using F False by (simp add: flagged_def)
  qed
  then show ?thesis using run s1(3) by (simp add: flagged_def)
qed

text \<open>A round can be survived when the current connection hangs up without a buffer, or can be served.\<close>

definition survivable :: "u8 list set \<Rightarrow> turn_env \<Rightarrow> server \<Rightarrow> bool" where
  "survivable K e s \<longleftrightarrow> (if hangs_up e s then \<not> owns_buffer s else round_ready K e s)"

definition clients_flagged :: "u8 list set \<Rightarrow> nat \<Rightarrow> server \<Rightarrow> bool" where
  "clients_flagged K b s \<longleftrightarrow> clients_ok K b s \<and> flagged s"

lemma survivable_round:
  assumes "clients_flagged K b s" and "survivable K e s"
  shows "\<exists>s'. cache_server_proc (Suc fuel) e s = Inr s' \<and> clients_flagged K b s' \<and>
    clients_view s' = client_step (event_now e s) (clients_view s)"
proof -
  obtain es where S: "served K b es s" and F: "flagged s"
    using assms(1) by (auto simp: clients_flagged_def clients_ok_def)
  show ?thesis
  proof (cases "hangs_up e s")
    case True
    then show ?thesis
      using hung_round(2) [OF S F True, of fuel] assms(2) by (auto simp: survivable_def clients_flagged_def clients_ok_def)
  next
    case False
    then have ready: "round_ready K e s" using assms(2) by (simp add: survivable_def)
    have "clients_ok K b s" using assms(1) by (simp add: clients_flagged_def)
    from clients_round [OF this ready, of fuel] obtain s' where
      s': "cache_server_proc (Suc fuel) e s = Inr s'" "clients_ok K b s'" "clients_view s' = feed_client (fed_now e s) (clients_view s)"
      by blast
    then show ?thesis
      using flagged_kept [OF S F ready s'(1)] False by (auto simp: clients_flagged_def event_now_def split: prod.split)
  qed
qed

interpretation failing_clients: traced_service "clients_flagged K b" clients_view "survivable K" "cache_server_proc (Suc fuel)"
    event_now client_step
  for K b fuel
  by unfold_locales (rule survivable_round)

end
