(* ===== verification/ClientSamples.thy ===== *)
theory ClientSamples
  imports ClientAnswers FailingClients
begin

text \<open>
  Sample runs of a server with two clients, which show that the properties of \<open>ClientProperties\<close> can be used: the
  pieces of a PUT and a GET arrive in turns, a client is accepted while another one reads a value, and the one that
  reads takes it byte by byte or hangs up.
\<close>

section \<open>Sample runs\<close>

text \<open>
  Two clients are accepted. One sends a PUT of the value \<open>[98]\<close> under the key \<open>[97]\<close>, the other one a GET
  of this key, and the pieces of their requests arrive in turns.
\<close>

definition silent_env :: env where
  "silent_env = (sample_env [])\<lparr>env_recv := \<lambda>fd n. Would_block, env_send := \<lambda>fd bs. Would_block\<rparr>"

definition first_call :: turn_env where
  "first_call = sample_round (Done 5) silent_env"

definition second_call :: turn_env where
  "second_call = (sample_round (Done 6) silent_env)\<lparr>te_time := (1, 0), te_address := 1\<rparr>"

definition gives :: "u8 list \<Rightarrow> turn_env" where
  "gives bs = sample_round Would_block (sample_env bs)"

definition silent :: turn_env where
  "silent = sample_round Would_block silent_env"

definition interleaved_rounds :: "turn_env list" where
  "interleaved_rounds = [first_call, second_call, gives [1, 0, 1, 2], silent, gives [1, 0, 1, 1],
     gives [1, 0, 1, 0, 0, 0], silent, gives [1, 0], gives [97, 98], silent, gives [97]]"

definition interleaved_bytes :: "(int \<times> u8 list) list" where
  "interleaved_bytes = [(0, []), (0, []), (5, [1, 0, 1, 2]), (5, []), (6, [1, 0, 1, 1]),
     (5, [1, 0, 1, 0, 0, 0]), (5, []), (6, [1, 0]), (5, [97, 98]), (5, []), (6, [97])]"

lemma interleaved_parts:
  "parse_request [1, 0, 1, 2] = Partial" "parse_request [1, 0, 1, 2, 1, 0, 1, 0, 0, 0] = Partial"
  "parse_request [1, 0, 1, 2, 1, 0, 1, 0, 0, 0, 97, 98] = Full (Put [97] [98])"
  "parse_request [1, 0, 1, 1] = Partial" "parse_request [1, 0, 1, 1, 1, 0] = Partial"
  "parse_request [1, 0, 1, 1, 1, 0, 97] = Full (Get [97])"
  by code_simp+

lemma interleaved_demands:
  "demand [] [1, 0, 1, 2] = None" "demand [1, 0, 1, 2] [1, 0, 1, 0, 0, 0] = Some 18"
  "demand [1, 0, 1, 2, 1, 0, 1, 0, 0, 0] [97, 98] = None" "demand [] [1, 0, 1, 1] = None"
  "demand [1, 0, 1, 1] [1, 0] = None" "demand [1, 0, 1, 1, 1, 0] [97] = None" "demand inp [] = None"
  by (code_simp, code_simp, code_simp, code_simp, code_simp, code_simp, simp add: demand_def)

lemma interleaved_wants:
  "wanted [] = 4" "wanted [1, 0, 1, 2] = 6" "wanted [1, 0, 1, 2, 1, 0, 1, 0, 0, 0] = 2" "wanted [1, 0, 1, 1] = 2"
  "wanted [1, 0, 1, 1, 1, 0] = 1"
  by code_simp+

lemma interleaved_answers: "concat (get_reply (Some [98])) = [2, 1, 0, 0, 0, 98]"
  by code_simp

lemma reliable_samples: "reliable (sample_env bs)" "reliable silent_env"
  by (simp_all add: reliable_def env_ok_def sample_env_def silent_env_def)

lemma sample_time:
  "accept_due (sample_round r e) s \<longleftrightarrow> current_connection s = None \<or> - last_accept_timestamp s > ACCEPT_PERIOD"
  "te_conn (sample_round r e) = e" "te_accept (sample_round r e) = r" "te_address (sample_round r e) = 0"
  by (simp_all add: accept_due_def sample_round_def time_get_timestamp_def)

lemma opened_sample:
  assumes "cache_server_open 1 sample_open sample_server = Inr (s, 0)"
  shows "clients_ok K 0 s" and "clients_view s = (Map.empty, \<lambda>_. ([], []))" and "clients s = []"
    and "current_connection s = None" and "has_room 1048559 65533 (sworld s)"
proof -
  have cap: "header_size < 1048576" by (simp add: header_size_def)
  note o = opened_clients [OF assms sample_start(1,2) cap _ sample_start(3,4)]
  show "clients_ok K 0 s" "clients s = []" "current_connection s = None" using o sample_start(5) by simp_all
  show "clients_view s = (Map.empty, \<lambda>_. ([], []))" using o(2) by (simp add: sample_server_def)
  show "has_room 1048559 65533 (sworld s)" using o(5) by (simp add: header_size_def)
qed

lemma sample_junk:
  "length (header_union (te_junk (sample_round r e))) = aggregate_response_size"
  "length (arguments_union (te_junk (sample_round r e))) = key_value_arguments_size"
  using sample_connection_idle(1) by (simp_all add: sample_round_def idle_def)

lemma call_due: "last_accept_timestamp s = 0 \<Longrightarrow> accept_due second_call s"
  by (simp add: accept_due_def second_call_def time_get_timestamp_def ACCEPT_PERIOD_def)

lemma calls_fresh:
  assumes "clients s = []"
  shows "accepts_fresh first_call s"
  using assms sample_junk by (simp add: accepts_fresh_def first_call_def)

lemma second_fresh:
  assumes "clients s = [0]" and "file_descriptor (conn_at s 0) = 5"
  shows "accepts_fresh second_call s"
  using assms sample_junk by (simp add: accepts_fresh_def second_call_def) (simp add: sample_round_def)

lemma second_ready:
  "accept_due second_call s \<Longrightarrow> clients s = [0] \<Longrightarrow> file_descriptor (conn_at s 0) = 5 \<Longrightarrow> round_ready K second_call s"
  using second_fresh by (simp add: round_ready_def)

section \<open>Two clients in turns\<close>

text \<open>
  Two clients that are served, the one at \<open>a\<close> next: those at \<open>R\<close> are receiving, and \<open>v\<close> is the view.
\<close>

definition descriptor :: "nat \<Rightarrow> int" where
  "descriptor a = (if a = 0 then 5 else 6)"

definition two_served :: "server \<Rightarrow> nat \<Rightarrow> nat set \<Rightarrow> nat \<Rightarrow> nat \<Rightarrow> service_view \<Rightarrow> bool" where
  "two_served s a R n k v \<longleftrightarrow> (\<exists>es. served {[97]} 0 es s) \<and> clients s = [0, 1] \<and> current_connection s = Some a \<and>
     last_accept_timestamp s = 0 \<and> (\<forall>d\<in>{0, 1}. file_descriptor (conn_at s d) = descriptor d) \<and>
     has_room n k (sworld s) \<and> clients_view s = v \<and> R \<subseteq> {0, 1} \<and> (\<forall>d\<in>R. receiving (conn_state (conn_at s d)))"

text \<open>The rounds \<open>qs\<close> from \<open>s\<close> on are sound and feed \<open>ls\<close>.\<close>

definition feeds :: "server \<Rightarrow> turn_env list \<Rightarrow> (int \<times> u8 list) list \<Rightarrow> bool" where
  "feeds s qs ls \<longleftrightarrow> all_ready sound_round (cache_server_proc 1) qs s \<and> trace fed_now (cache_server_proc 1) qs s = ls"

lemma feeds_Nil: "feeds s [] []"
  by (simp add: feeds_def)

lemma feeds_Cons:
  "sound_round q s \<Longrightarrow> fed_now q s = l \<Longrightarrow> cache_server_proc 1 q s = Inr s' \<Longrightarrow> feeds s' qs ls \<Longrightarrow> feeds s (q # qs) (l # ls)"
  by (simp add: feeds_def)

text \<open>The payload of a connection that was linked in.\<close>

lemma more_fields:
  assumes "connection_links.more c' = connection_links.more (c :: connection)"
  shows "conn_state c' = conn_state c" and "file_descriptor c' = file_descriptor c" and "idle c' = idle c"
proof -
  obtain p n where "c' = c\<lparr>previous := p, next := n\<rparr>" using relinked [OF assms] .
  then show "conn_state c' = conn_state c" "file_descriptor c' = file_descriptor c" "idle c' = idle c"
    by (simp_all add: idle_def)
qed

lemma idle_receiving: "idle c \<Longrightarrow> receiving (conn_state c)"
  by (simp add: idle_def receiving_def)

lemma call_accepted:
  assumes S: "served K b es s" and due: "accept_due e s" and fresh: "accepts_fresh e s"
    and e: "te_accept e = Done fd" "te_alloc e" "te_getfl e = 0" "te_setfl e = 0"
  obtains s' where "cache_server_proc fuel e s = Inr s'" and "served K b es s'" and "clients_view s' = clients_view s"
    and "sworld s' = sworld s" and "clients s' = clients s @ [te_address e]" and "idle (conn_at s' (te_address e))"
    and "file_descriptor (conn_at s' (te_address e)) = fd" and "current_connection s \<noteq> None \<longrightarrow> current_connection s' = current_connection s"
    and "\<forall>a\<in>set (clients s). connection_links.more (conn_at s' a) = connection_links.more (conn_at s a)"
    and "last_accept_timestamp s' = time_get_timestamp (te_accept_time e)"
proof -
  let ?c = "init_request ((te_junk e)\<lparr>previous := None, next := None, file_descriptor := fd\<rparr>)"
  have init: "connection_init (te_alloc e) (te_getfl e) (te_setfl e) (te_junk e) fd = Some ?c"
    using e by (simp add: connection_init_def)
  have ready: "round_ready K e s" using due fresh by (simp add: round_ready_def)
  obtain s' where s': "cache_server_proc fuel e s = Inr s'" "served K b es s'" "clients_view s' = clients_view s"
    "sworld s' = sworld s" "current_connection s \<noteq> None \<longrightarrow> current_connection s' = current_connection s"
    "\<forall>a\<in>set (clients s). connection_links.more (conn_at s' a) = connection_links.more (conn_at s a)"
    "last_accept_timestamp s' = time_get_timestamp (te_accept_time e)"
    "idle ?c" "clients s' = clients s @ [te_address e]" "connection_links.more (conn_at s' (te_address e)) = connection_links.more ?c"
    using accepting_round [OF S due ready, of fuel] e(1) init by blast
  have "file_descriptor ?c = fd" by (simp add: init_request_def)
  then show ?thesis using that [OF s'(1-4,9) _ _ s'(5-7)] more_fields [OF s'(10)] s'(8) by simp
qed

lemma accepted:
  assumes "cache_server_open 1 sample_open sample_server = Inr (s, 0)"
    and "\<And>s2. two_served s2 0 {0, 1} 1048559 65533 (Map.empty, \<lambda>_. ([], [])) \<Longrightarrow> feeds s2 qs ls"
  shows "feeds s (first_call # second_call # qs) ((0, []) # (0, []) # ls)"
proof -
  note o = opened_sample [OF assms(1)]
  obtain es where S: "served {[97]} 0 es s" using o(1) by (auto simp: clients_ok_def)
  have due0: "accept_due first_call s" using o(4) by (simp add: first_call_def sample_time)
  have fresh0: "accepts_fresh first_call s" using calls_fresh [OF o(3)] .
  have calls: "te_accept first_call = Done 5" "te_alloc first_call" "te_getfl first_call = 0" "te_setfl first_call = 0"
    "te_address first_call = 0" "te_accept second_call = Done 6" "te_alloc second_call" "te_getfl second_call = 0"
    "te_setfl second_call = 0" "te_address second_call = 1" "time_get_timestamp (te_accept_time first_call) = 0"
    "time_get_timestamp (te_accept_time second_call) = 0"
    by (simp_all add: first_call_def second_call_def sample_round_def time_get_timestamp_def)
  obtain s1 where s1: "cache_server_proc 1 first_call s = Inr s1" "served {[97]} 0 es s1" "clients_view s1 = clients_view s"
    "sworld s1 = sworld s" "clients s1 = [0]" "idle (conn_at s1 0)" "file_descriptor (conn_at s1 0) = 5"
    "last_accept_timestamp s1 = 0"
    by (rule call_accepted [OF S due0 fresh0 calls(1-4), of 1]) (simp add: o(3) calls)
  have cur: "current_connection s1 = Some 0" using s1(2,5) by (auto simp: served_def split: option.splits)
  have due1: "accept_due second_call s1" using s1(8) by (rule call_due)
  have fresh1: "accepts_fresh second_call s1" using second_fresh s1(5,7) .
  obtain s2 where s2: "cache_server_proc 1 second_call s1 = Inr s2" "served {[97]} 0 es s2" "clients_view s2 = clients_view s1"
    "sworld s2 = sworld s1" "clients s2 = [0, 1]" "idle (conn_at s2 1)" "file_descriptor (conn_at s2 1) = 6"
    "current_connection s2 = Some 0" "connection_links.more (conn_at s2 0) = connection_links.more (conn_at s1 0)"
    "last_accept_timestamp s2 = 0"
    by (rule call_accepted [OF s1(2) due1 fresh1 calls(6-9), of 1]) (simp add: s1(5) calls cur)
  have "two_served s2 0 {0, 1} 1048559 65533 (Map.empty, \<lambda>_. ([], []))"
    using s2 s1 o(2,5) more_fields [OF s2(9)] by (auto simp: two_served_def descriptor_def idle_receiving)
  then show ?thesis
    using assms(2) due0 due1 fresh0 fresh1 s1(1) s2(1) by (intro feeds_Cons) (simp_all add: sound_round_def fed_now_def)
qed

text \<open>What the turn of a receiving connection returns, and that of one whose socket is silent.\<close>

lemma receiving_result:
  assumes W: "world_ok K b w es" and ok: "conn_ok b es w c" "unfinished c" and rec: "receiving (conn_state c)"
    and e: "reliable e" and some: "arrived e c \<noteq> []" and run: "connection_proc e c w = Inr (c', w', r)"
  shows "r \<in> {RESULT_SUCCESS, RESULT_READ_BLOCKED, RESULT_WRITE_BLOCKED}"
proof -
  obtain c1 w1 where t: "connection_transfer e c w = Inr (c1, w1, RESULT_SUCCESS)" "conn_state c1 = conn_state c"
    by (rule receiving_transfer [OF W ok rec e]) (use some in \<open>simp add: transferred_def\<close>)
  have read: "r \<in> {RESULT_SUCCESS, RESULT_READ_BLOCKED}" if "attempt_memory_read c2 w2 = Inr (c', w', r)" for c2 w2
    using that by (auto simp: attempt_memory_read_def Let_def elim!: bindE_InrE split: if_splits prod.splits)
  have "r \<in> {RESULT_SUCCESS, RESULT_READ_BLOCKED, RESULT_WRITE_BLOCKED}" if d: "dispatch e c1 w1 = Inr (c', w', r)"
  proof (cases "conn_state c")
    case RECEIVING_ARGUMENTS
    then show ?thesis
      using d t(2) by (auto simp: dispatch_def event_received_arguments_def allocate_key_def attempt_memory_write_def Let_def
          elim!: bindE_InrE split: option.splits request_type.splits if_splits prod.splits)
  next
    case RECEIVING_BODY
    then show ?thesis
      using d t(2) read by (fastforce simp: dispatch_def event_received_body_def Let_def
          elim!: bindE_InrE split: option.splits request_type.splits)
  qed (use d t(2) rec in \<open>auto simp: dispatch_def receiving_def\<close>)
  then show ?thesis using run t(1) by (auto simp: connection_proc_def split: if_splits)
qed

lemma silent_result:
  assumes "connection_proc silent_env c w = Inr (c', w', r)"
  shows "c' = c" and "w' = w" and "r = RESULT_NO_TRANSFER"
  using assms
  by (auto simp: connection_proc_def connection_transfer_def socket_call_def silent_env_def Let_def
      elim!: bindE_InrE split: if_splits)

lemma two_split: "[0 :: nat, 1] = ys @ a # zs \<Longrightarrow> ys = [] \<and> a = 0 \<and> zs = [1] \<or> ys = [0] \<and> a = 1 \<and> zs = []"
  by (auto simp: Cons_eq_append_conv)

lemma two_servedD:
  assumes "two_served s a R n k v" and "a \<in> {0, 1}" and "e = gives bs \<or> e = silent"
  obtains es where "served {[97]} 0 es s" and "clients s = [0, 1]" and "current_connection s = Some a"
    and "\<not> accept_due e s" and "sound_round e s"
    and "fed_now e s = (descriptor a, arrived (te_conn e) (conn_at s a))"
    and "snd v (descriptor a) = io_of (sworld s) (conn_at s a)" and "conn_ok 0 es (sworld s) (conn_at s a)"
    and "unfinished (conn_at s a)" and "world_ok {[97]} 0 (sworld s) es"
proof -
  obtain es where s: "served {[97]} 0 es s" "clients s = [0, 1]" "current_connection s = Some a"
    "last_accept_timestamp s = 0" "file_descriptor (conn_at s a) = descriptor a" "clients_view s = v"
    using assms(1,2) by (auto simp: two_served_def)
  note P = servedD(4) [OF s(1)]
  have a: "a \<in> set (clients s)" using s(2) assms(2) by simp
  have due: "\<not> accept_due e s" using assms(3) s(3,4) by (auto simp: gives_def silent_def sample_time ACCEPT_PERIOD_def)
  have "reliable (te_conn e)" "env_malloc (te_conn e)" "env_map_allocs (te_conn e) = (True, True)" "expiry_configured (te_conn e)"
    using assms(3) reliable_samples sample_env_allocs sample_options
    by (auto simp: gives_def silent_def sample_time silent_env_def expiry_configured_def)
  then have "sound_round e s" using due by (simp add: sound_round_def)
  moreover have "fed_now e s = (descriptor a, arrived (te_conn e) (conn_at s a))"
    using due s(3,5) by (simp add: fed_now_def Let_def)
  moreover have "snd v (descriptor a) = io_of (sworld s) (conn_at s a)"
    using served_got [OF s(1) a] s(5,6) by (auto simp: clients_view_def)
  ultimately show ?thesis using that [OF s(1-3) due] pool_okD(2) [OF P] pool_okD(3,4) [OF P a] by blast
qed

text \<open>A piece of a request arrives for the client whose turn it is, and the turn goes to the first one.\<close>

lemma feeds_data:
  assumes two: "two_served s a R n k (m, v)" and a: "a \<in> {0, 1}" "a \<in> R" and v: "v (descriptor a) = (inp, out)"
    and bs: "bs \<noteq> []" "length bs \<le> wanted inp" and known: "known_key {[97]} (inp @ bs)"
    and room: "case demand inp bs of None \<Rightarrow> n' = n \<and> k' = k | Some x \<Rightarrow> x \<le> n \<and> 0 < k \<and> n' = n - x \<and> k' = k - 1"
    and spec: "feed bs (m, inp, out) = (m', io)"
    and rest: "\<And>s'. two_served s' 0 (if parse_request (inp @ bs) = Partial then R else R - {a}) n' k'
        (m', v(descriptor a := io)) \<Longrightarrow> feeds s' qs ls"
    and fd: "fd = descriptor a"
  shows "feeds s (gives bs # qs) ((fd, bs) # ls)"
proof -
  let ?e = "gives bs" and ?c = "conn_at s a" and ?w = "sworld s"
  have te: "te_conn ?e = sample_env bs" by (simp add: gives_def sample_time)
  obtain es where s: "served {[97]} 0 es s" "clients s = [0, 1]" "current_connection s = Some a" "\<not> accept_due ?e s"
    "sound_round ?e s" "fed_now ?e s = (descriptor a, arrived (te_conn ?e) ?c)" "v (descriptor a) = io_of ?w ?c"
    "conn_ok 0 es ?w ?c" "unfinished ?c" "world_ok {[97]} 0 ?w es"
    using two_servedD [OF two a(1), of ?e bs] by auto
  have t: "has_room n k ?w" "clients_view s = (m, v)" "receiving (conn_state ?c)" "last_accept_timestamp s = 0"
    "\<forall>d\<in>{0, 1}. file_descriptor (conn_at s d) = descriptor d" "\<forall>d\<in>R. receiving (conn_state (conn_at s d))"
    using two a by (auto simp: two_served_def)
  have got: "got ?w ?c = inp" using s(7) v by (simp add: io_of_def)
  have arr: "arrived (te_conn ?e) ?c = bs"
    using remaining_wanted [OF s(8,9) t(3)] t(3) got bs(2) by (simp add: te arrived_def sample_env_def)
  have need: "x \<le> n \<and> 0 < k" if "demand inp bs = Some x" for x using room that by simp
  then have "afforded {[97]} n k [fed_now ?e s] (clients_view s)"
    using s(6) arr t(2) v known by (auto simp: Let_def split: option.split)
  note ready = sound_ready [OF s(1) t(1) s(5) this]
  obtain s' es' c' w' r ys zs where s': "clients s = ys @ a # zs"
    "connection_proc (te_conn ?e) ?c ?w = Inr (c', w', r)" "turned {[97]} 0 es ?w ?c (arrived (te_conn ?e) ?c) (c', w', r) es'"
    "cache_server_proc (Suc 0) ?e s = Inr s'" "served {[97]} 0 es' s'" "sworld s' = w'" "clients s' = turn_list r ys a zs"
    "current_connection s' = turn_current r ys a zs" "last_accept_timestamp s' = last_accept_timestamp s"
    "clients_view s' = feed_client (file_descriptor ?c, arrived (te_conn ?e) ?c) (clients_view s)"
    "\<forall>d\<in>set (clients s'). connection_links.more (conn_at s' d) = connection_links.more (if d = a then c' else conn_at s d)"
    by (rule serving_step [OF s(1,3,4) ready, of 0])
  have rel: "reliable (te_conn ?e)" using reliable_samples te by simp
  have r: "r = RESULT_SUCCESS"
    using receiving_result [OF s(10,8,9) t(3) rel _ s'(2)] arr bs(1) s'(3) by (auto simp: turned_def)
  have list: "clients s' = [0, 1]" "current_connection s' = Some 0"
    using two_split [of ys a zs] s'(1,7,8) s(2) r by (auto simp: turn_list_def turn_current_def)
  have fdc: "file_descriptor ?c = descriptor a" using t(5) a(1) by auto
  have view: "clients_view s' = (m', v(descriptor a := io))"
    using s'(10) arr t(2) v spec fdc by (simp add: feed_client_def)
  have c': "file_descriptor c' = descriptor a" using s'(3) r fdc by (simp add: turned_def)
  have fields: "file_descriptor (conn_at s' d) = descriptor d" "d \<noteq> a \<Longrightarrow> conn_state (conn_at s' d) = conn_state (conn_at s d)"
    if "d \<in> {0, 1}" for d
    using more_fields [OF bspec [OF s'(11), of d]] list(1) c' t(5) that by auto
  have key: "request_key q \<in> key_universe {[97]}" if "parse_request (got ?w ?c @ arrived (te_conn ?e) ?c) = Full q" for q
    using known that got arr by (simp add: known_key_def)
  have dem: "demand (got ?w ?c) (arrived (te_conn ?e) ?c) = demand inp bs" using got arr by simp
  have room': "has_room n' k' w'"
    using turn_within_room [OF s(10,8,9) rel t(1) s'(2) key need [folded dem]] room unfolding dem
    by (auto split: option.splits)
  let ?R = "if parse_request (inp @ bs) = Partial then R else R - {a}"
  have sub: "R \<subseteq> {0, 1}" using two by (simp add: two_served_def)
  have rec': "receiving (conn_state (conn_at s' d))" if d: "d \<in> ?R" for d
  proof (cases "d = a")
    case False
    then show ?thesis using fields(2) [of d] t(6) d sub by (auto split: if_splits)
  next
    case True
    then have "parse_request (inp @ bs) = Partial" using d by (auto split: if_splits)
    then have "io = (inp @ bs, out)" using spec by (simp add: feed_def)
    moreover have "a \<in> set (clients s')" using list(1) a(1) by simp
    from served_got [OF s'(5) this] have "snd (clients_view s') (descriptor a) = io_of (sworld s') (conn_at s' a)"
      using fields(1) [OF a(1)] by (simp add: clients_view_def)
    ultimately have "got (sworld s') (conn_at s' a) \<noteq> []" using view bs(1) by (auto simp: io_of_def)
    then show ?thesis using True by (auto simp: got_def receiving_def split: connection_state.splits)
  qed
  have "?R \<subseteq> {0, 1}" using sub by auto
  moreover have "last_accept_timestamp s' = 0" "has_room n' k' (sworld s')" using s'(6,9) t(4) room' by simp_all
  ultimately have "two_served s' 0 ?R n' k' (m', v(descriptor a := io))"
    unfolding two_served_def using s'(5) list fields(1) view rec' by (intro conjI exI ballI) assumption+
  from feeds_Cons [OF s(5) _ _ rest [OF this]] show ?thesis using s'(4) s(6) arr fd by simp
qed

text \<open>Nothing arrives for the first client, and the turn goes to the other one.\<close>

lemma feeds_silence:
  assumes two: "two_served s 0 R n k v" and rest: "\<And>s'. two_served s' 1 R n k v \<Longrightarrow> feeds s' qs ls"
  shows "feeds s (silent # qs) ((5, []) # ls)"
proof -
  have te: "te_conn silent = silent_env" by (simp add: silent_def sample_time)
  let ?c = "conn_at s 0" and ?w = "sworld s"
  obtain es where s: "served {[97]} 0 es s" "clients s = [0, 1]" "current_connection s = Some 0" "\<not> accept_due silent s"
    "sound_round silent s" "fed_now silent s = (descriptor 0, arrived (te_conn silent) ?c)"
    using two_servedD [OF two, of silent] by auto
  have t: "has_room n k ?w" "clients_view s = v" "last_accept_timestamp s = 0"
    "\<forall>d\<in>{0, 1}. file_descriptor (conn_at s d) = descriptor d" "\<forall>d\<in>R. receiving (conn_state (conn_at s d))" "R \<subseteq> {0, 1}"
    using two by (auto simp: two_served_def)
  have arr: "arrived (te_conn silent) ?c = []" by (simp add: te silent_env_def arrived_def)
  have ready: "round_ready {[97]} silent s"
    using s(3,4) arr reliable_samples(2) by (simp add: round_ready_def Let_def te)
  obtain s' es' c' w' r ys zs where s': "clients s = ys @ 0 # zs"
    "connection_proc (te_conn silent) ?c ?w = Inr (c', w', r)"
    "cache_server_proc (Suc 0) silent s = Inr s'" "served {[97]} 0 es' s'" "sworld s' = w'" "clients s' = turn_list r ys 0 zs"
    "current_connection s' = turn_current r ys 0 zs" "last_accept_timestamp s' = last_accept_timestamp s"
    "clients_view s' = feed_client (file_descriptor ?c, arrived (te_conn silent) ?c) (clients_view s)"
    "\<forall>d\<in>set (clients s'). connection_links.more (conn_at s' d) = connection_links.more (if d = 0 then c' else conn_at s d)"
    by (rule serving_step [OF s(1,3,4) ready, of 0])
  note q = silent_result [OF s'(2) [unfolded te]]
  have list: "clients s' = [0, 1]" "current_connection s' = Some 1"
    using two_split [of ys 0 zs] s'(1,6,7) s(2) q(3) by (auto simp: turn_list_def turn_current_def)
  have fields: "conn_state (conn_at s' d) = conn_state (conn_at s d) \<and> file_descriptor (conn_at s' d) = descriptor d"
    if d: "d \<in> {0, 1}" for d
  proof -
    have "d \<in> set (clients s')" using list(1) d by simp
    from more_fields [OF bspec [OF s'(10) this]] show ?thesis using q(1) t(4) d by (cases "d = 0") simp_all
  qed
  moreover have "clients_view s' = v" using s'(9) arr feed_nothing [OF s(1)] t(2) by simp
  moreover have "\<forall>d\<in>R. receiving (conn_state (conn_at s' d))" using fields t(5,6) by auto
  ultimately have "two_served s' 1 R n k v"
    unfolding two_served_def using s'(4,5,8) q(2) list t(1,3,6) fields by (intro conjI) auto
  from feeds_Cons [OF s(5) _ _ rest [OF this]] show ?thesis using s'(3) s(6) arr by (simp add: descriptor_def)
qed

lemmas interleaved_simps = interleaved_parts interleaved_demands interleaved_wants interleaved_answers
  known_key_def key_universe_def feed_def descriptor_def

text \<open>All rounds are sound and feed the bytes of both requests.\<close>

lemma interleaved_run:
  assumes "cache_server_open 1 sample_open sample_server = Inr (s, 0)"
  shows "feeds s interleaved_rounds interleaved_bytes"
proof -
  have r8: "feeds s [gives [97]]
      [(6, [97])]"
    if "two_served s 1 {1} 1048541 65532 ([[97] \<mapsto> [98]], (\<lambda>_. ([], []))(5 := ([1, 0, 1, 2], []), 6 := ([1, 0, 1, 1], []), 5 := ([1, 0, 1, 2, 1, 0, 1, 0, 0, 0], []), 6 := ([1, 0, 1, 1, 1, 0], []), 5 := ([], [1])))" for s
    by (rule feeds_data [OF that, where inp = "[1, 0, 1, 1, 1, 0]" and out = "[]" and io = "([], [2, 1, 0, 0, 0, 98])" and m' = "[[97] \<mapsto> [98]]"
          and n' = 1048541 and k' = 65532]) (use feeds_Nil in \<open>simp_all add: interleaved_simps\<close>)
  have r7: "feeds s [silent, gives [97]]
      [(5, []), (6, [97])]"
    if "two_served s 0 {1} 1048541 65532 ([[97] \<mapsto> [98]], (\<lambda>_. ([], []))(5 := ([1, 0, 1, 2], []), 6 := ([1, 0, 1, 1], []), 5 := ([1, 0, 1, 2, 1, 0, 1, 0, 0, 0], []), 6 := ([1, 0, 1, 1, 1, 0], []), 5 := ([], [1])))" for s
    using that by (rule feeds_silence) (rule r8)
  have r6: "feeds s [gives [97, 98], silent, gives [97]]
      [(5, [97, 98]), (5, []), (6, [97])]"
    if "two_served s 0 {0, 1} 1048541 65532 (Map.empty, (\<lambda>_. ([], []))(5 := ([1, 0, 1, 2], []), 6 := ([1, 0, 1, 1], []), 5 := ([1, 0, 1, 2, 1, 0, 1, 0, 0, 0], []), 6 := ([1, 0, 1, 1, 1, 0], [])))" for s
    by (rule feeds_data [OF that, where inp = "[1, 0, 1, 2, 1, 0, 1, 0, 0, 0]" and out = "[]" and io = "([], [1])" and m' = "[[97] \<mapsto> [98]]"
          and n' = 1048541 and k' = 65532]) (use r7 in \<open>simp_all add: interleaved_simps\<close>)
  have r5: "feeds s [gives [1, 0], gives [97, 98], silent, gives [97]]
      [(6, [1, 0]), (5, [97, 98]), (5, []), (6, [97])]"
    if "two_served s 1 {0, 1} 1048541 65532 (Map.empty, (\<lambda>_. ([], []))(5 := ([1, 0, 1, 2], []), 6 := ([1, 0, 1, 1], []), 5 := ([1, 0, 1, 2, 1, 0, 1, 0, 0, 0], [])))" for s
    by (rule feeds_data [OF that, where inp = "[1, 0, 1, 1]" and out = "[]" and io = "([1, 0, 1, 1, 1, 0], [])" and m' = "Map.empty"
          and n' = 1048541 and k' = 65532]) (use r6 in \<open>simp_all add: interleaved_simps\<close>)
  have r4: "feeds s [silent, gives [1, 0], gives [97, 98], silent, gives [97]]
      [(5, []), (6, [1, 0]), (5, [97, 98]), (5, []), (6, [97])]"
    if "two_served s 0 {0, 1} 1048541 65532 (Map.empty, (\<lambda>_. ([], []))(5 := ([1, 0, 1, 2], []), 6 := ([1, 0, 1, 1], []), 5 := ([1, 0, 1, 2, 1, 0, 1, 0, 0, 0], [])))" for s
    using that by (rule feeds_silence) (rule r5)
  have r3: "feeds s [gives [1, 0, 1, 0, 0, 0], silent, gives [1, 0], gives [97, 98], silent, gives [97]]
      [(5, [1, 0, 1, 0, 0, 0]), (5, []), (6, [1, 0]), (5, [97, 98]), (5, []), (6, [97])]"
    if "two_served s 0 {0, 1} 1048559 65533 (Map.empty, (\<lambda>_. ([], []))(5 := ([1, 0, 1, 2], []), 6 := ([1, 0, 1, 1], [])))" for s
    by (rule feeds_data [OF that, where inp = "[1, 0, 1, 2]" and out = "[]" and io = "([1, 0, 1, 2, 1, 0, 1, 0, 0, 0], [])" and m' = "Map.empty"
          and n' = 1048541 and k' = 65532]) (use r4 in \<open>simp_all add: interleaved_simps\<close>)
  have r2: "feeds s [gives [1, 0, 1, 1], gives [1, 0, 1, 0, 0, 0], silent, gives [1, 0], gives [97, 98], silent, gives [97]]
      [(6, [1, 0, 1, 1]), (5, [1, 0, 1, 0, 0, 0]), (5, []), (6, [1, 0]), (5, [97, 98]), (5, []), (6, [97])]"
    if "two_served s 1 {0, 1} 1048559 65533 (Map.empty, (\<lambda>_. ([], []))(5 := ([1, 0, 1, 2], [])))" for s
    by (rule feeds_data [OF that, where inp = "[]" and out = "[]" and io = "([1, 0, 1, 1], [])" and m' = "Map.empty"
          and n' = 1048559 and k' = 65533]) (use r3 in \<open>simp_all add: interleaved_simps\<close>)
  have r1: "feeds s [silent, gives [1, 0, 1, 1], gives [1, 0, 1, 0, 0, 0], silent, gives [1, 0], gives [97, 98], silent, gives [97]]
      [(5, []), (6, [1, 0, 1, 1]), (5, [1, 0, 1, 0, 0, 0]), (5, []), (6, [1, 0]), (5, [97, 98]), (5, []), (6, [97])]"
    if "two_served s 0 {0, 1} 1048559 65533 (Map.empty, (\<lambda>_. ([], []))(5 := ([1, 0, 1, 2], [])))" for s
    using that by (rule feeds_silence) (rule r2)
  have r0: "feeds s [gives [1, 0, 1, 2], silent, gives [1, 0, 1, 1], gives [1, 0, 1, 0, 0, 0], silent, gives [1, 0], gives [97, 98], silent, gives [97]]
      [(5, [1, 0, 1, 2]), (5, []), (6, [1, 0, 1, 1]), (5, [1, 0, 1, 0, 0, 0]), (5, []), (6, [1, 0]), (5, [97, 98]), (5, []), (6, [97])]"
    if "two_served s 0 {0, 1} 1048559 65533 (Map.empty, (\<lambda>_. ([], [])))" for s
    by (rule feeds_data [OF that, where inp = "[]" and out = "[]" and io = "([1, 0, 1, 2], [])" and m' = "Map.empty"
          and n' = 1048559 and k' = 65533]) (use r1 in \<open>simp_all add: interleaved_simps\<close>)
  show ?thesis unfolding interleaved_rounds_def interleaved_bytes_def using assms by (rule accepted) (rule r0)
qed

text \<open>What the clients sent is afforded, and what becomes of the empty map that is fed with it.\<close>

lemma feed_client_at:
  "feed_client (fd, bs) (m, v) =
     (case parse_request (fst (v fd) @ bs) of
        Partial \<Rightarrow> (m, v(fd := (fst (v fd) @ bs, snd (v fd))))
      | Refused t \<Rightarrow> (m, v(fd := ([], snd (v fd) @ [response_code t])))
      | Full q \<Rightarrow> (effect q m, v(fd := ([], snd (v fd) @ concat (answer q m)))))"
  by (cases "v fd") (simp add: feed_client_def feed_def split: parsed.split)

lemma interleaved_fed:
  "afforded {[97]} 1048559 65533 interleaved_bytes (Map.empty, \<lambda>_. ([], []))"
  "fold feed_client interleaved_bytes (Map.empty, \<lambda>_. ([], [])) =
     ([[97] \<mapsto> [98]], (\<lambda>_. ([], []))(5 := ([], [1]), 6 := ([], [2, 1, 0, 0, 0, 98])))"
proof -
  note simps = interleaved_bytes_def feed_client_at interleaved_simps parse_nothing wire_sizes
  show "afforded {[97]} 1048559 65533 interleaved_bytes (Map.empty, \<lambda>_. ([], []))" by (simp add: simps Let_def)
  show "fold feed_client interleaved_bytes (Map.empty, \<lambda>_. ([], [])) =
      ([[97] \<mapsto> [98]], (\<lambda>_. ([], []))(5 := ([], [1]), 6 := ([], [2, 1, 0, 0, 0, 98])))"
    by (simp add: simps) (simp add: fun_eq_iff)
qed

section \<open>A client that reads\<close>

lemma word_bytes_1: "word_bytes (1 :: u32) = [1, 0, 0, 0]"
  by code_simp

text \<open>A server whose only client is being sent the value of an entry.\<close>

lemma reading_client:
  obtains s x where "served {[97]} 0 [x] s" and "clients s = [0]" and "current_connection s = Some 0"
    and "last_accept_timestamp s = 0" and "file_descriptor (conn_at s 0) = 5"
    and "index_map (index_of (sworld s)) [97] = Some (Ptr 0 x)" and "locks (header_at (w_mem (sworld s)) (Ptr 0 x)) = 1"
    and "w_sent (sworld s) 5 = [1]" and "server_io s 5 = ([], [1, 2, 1, 0, 0, 0, 98])"
    and "flagged s" and "\<not> owns_buffer s"
proof -
  obtain w' x where w': "world_ok {[97]} 0 w' [x]" "index_map (index_of w') [97] = Some (Ptr 0 x)"
    and sent: "w_sent w' 5 = [1]" and val: "entry_value (w_mem w') (Ptr 0 x) = [98]"
  proof -
    obtain w0 where "world_ok {[97]} 0 w0 [0]" "index_map (index_of w0) [97] = Some (Ptr 0 0)"
      "locks (header_at (w_mem w0) (Ptr 0 0)) = 0" "capacity_bytes (queue (w_store w0)) = 1000"
      "contents w0 [97] = Some [98]" "w_sent w0 5 = [1]"
      by (rule sample_entry)
    moreover from this have "entry_value (w_mem w0) (Ptr 0 0) = [98]"
      unfolding contents_def by (simp only: option.map option.inject)
    ultimately show ?thesis by (intro that)
  qed
  let ?h = "header_at (w_mem w') (Ptr 0 x)"
  let ?m = "put_header (w_mem w') (Ptr 0 x) (?h\<lparr>locks := 1\<rparr>)" and ?w = "set_mem w' (put_header (w_mem w') (Ptr 0 x) (?h\<lparr>locks := 1\<rparr>))"
  note lock = lock_changed [OF w'(1), of x ?m 1, simplified]
  have l: "locks (header_at (w_mem ?w) (Ptr 0 x)) = 1" by simp
  let ?c = "sample_connection\<lparr>conn_entry := Ptr 0 x\<rparr>"
  define c where "c = value_response ?c (value_size ?h)"
  have len: "length (header_union ?c) = aggregate_response_size" "length (arguments_union ?c) = key_value_arguments_size"
    "lock_release_event ?c = LOCK_EVENT_NONE" "conn_entry ?c = Ptr 0 x" "x \<in> set [x]"
    "value_size (header_at (w_mem ?w) (Ptr 0 x)) = value_size ?h"
    using sample_connection_idle(1) by (simp_all add: idle_def)
  have c: "conn_ok 0 [x] ?w c" "holds_lock c" "unfinished c"
    using value_conn_ok(1,2,5) [OF len] by (simp_all add: c_def)
  have cf: "conn_entry c = Ptr 0 x" "file_descriptor c = 5" "previous c = None" "next c = None"
    using sample_connection_idle by (simp_all add: c_def)
      (simp_all add: value_response_def set_response_value_size_def send_header_def set_flag_def
        sample_connection_def init_request_def)
  have flag: "bit (conn_flags c) n \<longleftrightarrow> n = 2" for n
    using sample_connection_idle(1)
    by (simp add: c_def value_response_def set_response_value_size_def send_header_def idle_def)
  let ?s = "sample_server\<lparr>sworld := ?w, conns := [0 \<mapsto> c], current_connection := Some 0,
    served_list := \<lparr>list_head = Some 0, list_tail = Some 0, list_count = 1\<rparr>\<rparr>"
  have "pool_ok {[97]} 0 [x] (sworld ?s) (conn_at ?s) (set [0])"
    using lock(1,6) c cf(1) by (simp add: pool_ok_def conn_at_def reads_entry_def)
  moreover have "conn_list (conns ?s) (served_list ?s) [0]" using cf by (simp add: conn_list_def first_of_def last_of_def)
  ultimately have "served {[97]} 0 [x] ?s \<and> clients ?s = [0]"
    using servedI [of ?s "[0]"] sample_start(4) by simp
  moreover from this have "server_io ?s 5 = io_of ?w c"
    using server_pool_io [OF servedD(4), of "{[97]}" 0 "[x]" ?s] cf(2) by (simp add: pool_io_def conn_at_def)
  moreover have "got ?w c = []" "owed ?w c = [2, 1, 0, 0, 0, 98]"
  proof -
    have "length (entry_value (w_mem w') (Ptr 0 x)) = unat (value_size ?h)"
      by (simp add: entry_value_def del: raw_bytes.simps)
    then have "value_size ?h = 1" using val by (simp add: word_unat_eq_iff)
    moreover have "entry_value (w_mem ?w) (Ptr 0 x) = [98]" using val lock(4) by (simp add: same_value_def)
    ultimately show "owed ?w c = [2, 1, 0, 0, 0, 98]"
      using value_conn_ok(3) [OF len] word_bytes_1 by (simp add: c_def value_header_eq)
    show "got ?w c = []" using value_conn_ok(4) [OF len] by (simp add: c_def)
  qed
  ultimately show ?thesis
    by (intro that [of x ?s]) (use l lock(3) w'(2) cf sent flag c(2) in
      \<open>simp_all add: conn_at_def sample_server_def io_of_def flagged_def lock_flagged_def owns_buffer_def has_flag_bit\<close>)
qed

section \<open>Sockets that take a byte at a time\<close>

definition taking_round :: turn_env where
  "taking_round = sample_round Would_block ((sample_env [])
     \<lparr>env_recv := \<lambda>fd n. Would_block, env_send := \<lambda>fd bs. Done (min 1 (length bs))\<rparr>)"

lemma taking_round_drains: "draining_round taking_round"
  by (auto simp: taking_round_def draining_round_def takes_answers_def reliable_def env_ok_def sample_env_def sample_time
      nobody_calls_def)

lemma taking_rounds_serve:
  assumes "served K b es s" and "last_accept_timestamp s = 0"
  shows "serving_rounds (Suc fuel) (replicate n taking_round) s = n"
  using assms
proof (induction n arbitrary: s es)
  case (Suc n)
  obtain s' es' where s': "cache_server_proc (Suc fuel) taking_round s = Inr s'" "served K b es' s'"
    "last_accept_timestamp s' \<in> {last_accept_timestamp s, time_get_timestamp (te_accept_time taking_round)}"
    using drained_step [OF Suc.prems(1) taking_round_drains order_refl, of fuel] by blast
  have "last_accept_timestamp s' = 0" using s'(3) Suc.prems(2) by (auto simp: taking_round_def sample_round_def time_get_timestamp_def)
  moreover have "serving taking_round s" using Suc.prems(2) by (auto simp: serving_def taking_round_def sample_time ACCEPT_PERIOD_def)
  ultimately show ?case using Suc.IH [OF s'(2)] s'(1) by (simp add: serving_rounds_def)
qed (simp add: serving_rounds_def)

section \<open>A client that hangs up\<close>

definition hang_up :: turn_env where
  "hang_up = sample_round Would_block ((sample_env [])\<lparr>env_recv := \<lambda>fd n. Io_error, env_send := \<lambda>fd bs. Io_error\<rparr>)"

lemma hang_up_round:
  assumes "current_connection s = Some a" and "last_accept_timestamp s = 0"
  shows "hangs_up hang_up s" and "\<not> accept_due hang_up s"
  using assms by (auto simp: hangs_up_def hang_up_def sample_time ACCEPT_PERIOD_def socket_fails_def)

end
