(* ===== verification/ClientProperties.thy ===== *)
theory ClientProperties
  imports ClientSamples ClientAnswers
begin

text \<open>
  The properties of the server with any number of clients, with the sample runs as their witnesses.
\<close>

section \<open>Properties\<close>

text \<open>C1. The loop of the program with any number of clients at the same time: clients come and go, and their
  requests arrive and their answers leave in pieces, interleaved in any way over the rounds. The program
  never faults, and at every point the cache with the unfinished requests and the answers of all clients
  is what feeding the bytes in the order of their arrival makes of a map: each client gets exactly the
  answers to its own requests, and a request takes effect when its last byte arrives. The rounds are sound:
  sockets do not fail, memory is granted, an accepted client gets a descriptor and an address that no
  other client has and is one of at most 65535. What the clients send is afforded: the keys of their
  requests are in a set \<open>K\<close> without hash collisions, and the entries that they announce fit into the
  \<open>n\<close> bytes that are left and are no more than \<open>k\<close>.\<close>

theorem clients_refine_cache:
  assumes "clients_ok K b s" and "has_room n k (sworld s)" and "all_ready sound_round (cache_server_proc (Suc fuel)) es s"
    and "afforded K n k (trace fed_now (cache_server_proc (Suc fuel)) es s) (clients_view s)"
  shows "\<exists>s'. serve_rounds (Suc fuel) es s = Inr s' \<and> clients_ok K b s' \<and>
    clients_view s' = fold feed_client (trace fed_now (cache_server_proc (Suc fuel)) es s) (clients_view s)"
  unfolding serve_rounds_run using assms(1) afforded_ready [OF assms] by (rule many_clients.run_traces)

text \<open>C2. From the start: the server that was opened with the capacity of its configuration, in memory that is
  granted, has no client and an empty cache, and whatever clients it then accepts and serves in sound
  rounds, it answers them as the empty map does that is fed with what they sent, as long as that is afforded
  by the capacity: all entries ever put have at most \<open>capacity - header_size - 1\<close> bytes together and are at
  most 65533, and their keys do not collide.\<close>

theorem opened_server_serves_clients:
  assumes "cache_server_open fuel oe s = Inr (s1, 0)" and "oe_map_allocs oe = (True, True)"
    and "configuration_get_int (oe_options oe) ENTRY_CAPACITY_BYTES = Inr (int capacity)"
    and "header_size < capacity" and "capacity < 2 ^ 32" and "memory_wf (w_mem (sworld s))"
    and "blocked_head (blocked_lists s) = None"
    and "all_ready sound_round (cache_server_proc (Suc fuel')) es s1"
    and "afforded K (capacity - header_size - 1) 65533 (trace fed_now (cache_server_proc (Suc fuel')) es s1)
      (Map.empty, \<lambda>fd. ([], w_sent (sworld s) fd))"
  shows "\<exists>s2. serve_rounds (Suc fuel') es s1 = Inr s2 \<and>
    clients_view s2 = fold feed_client (trace fed_now (cache_server_proc (Suc fuel')) es s1)
      (Map.empty, \<lambda>fd. ([], w_sent (sworld s) fd))"
proof -
  note o = opened_clients [OF assms(1-7)]
  have "all_ready (round_ready K) (cache_server_proc (Suc fuel')) es s1"
    using afforded_ready [OF o(1,5) assms(8)] assms(9) o(2) by simp
  from many_clients.run_traces [OF o(1) this] show ?thesis using o(2) by (auto simp: serve_rounds_run)
qed

text \<open>C5. In every such run the read lock of an entry of the index is the number of connections that are sending
  its value: no lock is lost and none is released twice, whatever the interleaving of the clients. The rounds
  can be served (\<open>round_ready\<close>): sockets do not fail and memory is granted, what arrived is no request with an
  unknown key, and an announced entry fits, as it is the case in the runs above.\<close>

theorem read_locks_count_readers:
  assumes "clients_ok K b s" and "all_ready (round_ready K) (cache_server_proc (Suc fuel)) es s"
  shows "\<exists>s'. serve_rounds (Suc fuel) es s = Inr s' \<and>
    (\<forall>k p. index_map (index_of (sworld s')) k = Some p \<longrightarrow> unat (locks (header_at (w_mem (sworld s')) p)) =
       card {a \<in> set (clients s'). holds_lock (conn_at s' a) \<and> conn_entry (conn_at s' a) = p})"
proof -
  obtain s' where run: "serve_rounds (Suc fuel) es s = Inr s'" and "clients_ok K b s'"
    using many_clients.run_traces [OF assms] by (auto simp: serve_rounds_run)
  then obtain es' where P: "pool_ok K b es' (sworld s') (conn_at s') (set (clients s'))"
    by (auto simp: clients_ok_def served_def)
  have "unat (locks (header_at (w_mem (sworld s')) p)) =
      card {a \<in> set (clients s'). holds_lock (conn_at s' a) \<and> conn_entry (conn_at s' a) = p}"
    if ix: "index_map (index_of (sworld s')) k = Some p" for k p
  proof -
    obtain i where i: "i \<in> set es'" "p = Ptr b i" using world_okD(4) [OF pool_okD(2) [OF P] ix] by blast
    show ?thesis
      using pool_okD(7) [OF P i(1)] i(2) by (simp add: lock_at_def reads_entry_def sum.If_cases Int_def conj_commute)
  qed
  with run show ?thesis by blast
qed

text \<open>C3. No answer stays in the server: while nothing new arrives and every socket takes at least a byte of what
  it is offered, the rounds of the loop send every client all that its requests are to be answered with, whatever
  pieces the sockets take and however many clients there are. This takes at most one pass over the clients
  for each byte that is outstanding, and one more, not counting the rounds that look for new clients.\<close>

theorem answers_are_sent:
  assumes "clients_ok K b s" and "\<forall>e\<in>set es. draining_round e"
    and "(outstanding s + 1) * length (clients s) \<le> serving_rounds (Suc fuel) es s"
  shows "\<exists>s'. serve_rounds (Suc fuel) es s = Inr s' \<and> clients_ok K b s' \<and> clients_view s' = clients_view s \<and>
    (\<forall>fd. w_sent (sworld s') fd = snd (snd (clients_view s) fd))"
proof -
  let ?n = "length (clients s)"
  have "drains K b ?n s" using assms(1) by (simp add: drains_def)
  from answers.run_uses_up [OF this assms(2), of fuel] obtain s' where
    s': "serve_rounds (Suc fuel) es s = Inr s'" "drains K b ?n s'" "clients_view s' = clients_view s"
    "rounds_left ?n (owing s') \<le> rounds_left ?n (owing s) - serving_rounds (Suc fuel) es s"
    by (auto simp: serve_rounds_run serving_rounds_def)
  have ok: "clients_ok K b s'" "length (clients s') \<le> ?n" using s'(2) by (simp_all add: drains_def)
  have len: "length (owing s) = ?n" "length (owing s') \<le> ?n"
    using owing_length assms(1) ok by metis+
  then have "rounds_left ?n (owing s') = 0"
    using rounds_left_bound [of "owing s" ?n] s'(4) assms(3) by (simp add: outstanding_def)
  then have "outstanding s' = 0" using no_rounds_left len(2) by (simp add: outstanding_def)
  then have "snd (server_io s' fd) = w_sent (sworld s') fd" for fd
    using nothing_outstanding ok(1) by (auto simp: clients_ok_def)
  then show ?thesis using s'(1,3) ok(1) by (metis clients_view_def snd_conv)
qed

text \<open>C4. Clients whose sockets fail, in any phase but two: the loop closes the connection of a client that hangs up,
  gives back the read lock that it may hold, forgets its unfinished request and the rest of its answers, and
  serves all others as if nothing had happened. The two phases are those in which the connection owns the
  memory of a key, while the key of a GET or DELETE is received and while a DELETE is answered
  (\<open>owns_buffer\<close>), where the program frees a pointer that was never allocated. The flag of every connection says
  whether it holds a read lock (\<open>clients_flagged\<close>), as it is when nobody is connected and after every round.\<close>

theorem failing_clients_refine_cache:
  assumes "clients_flagged K b s" and "all_ready (survivable K) (cache_server_proc (Suc fuel)) es s"
  shows "\<exists>s'. serve_rounds (Suc fuel) es s = Inr s' \<and> clients_flagged K b s' \<and>
    clients_view s' = fold client_step (trace event_now (cache_server_proc (Suc fuel)) es s) (clients_view s)"
  unfolding serve_rounds_run using assms by (rule failing_clients.run_traces)

section \<open>Sample runs\<close>

text \<open>The PUT and the GET that arrive in turns: both clients get their answers.\<close>

theorem clients_refine_cache_witness:
  "\<exists>s s'. clients_ok {[97]} 0 s \<and> serve_rounds (Suc 0) interleaved_rounds s = Inr s' \<and> clients_ok {[97]} 0 s' \<and>
     clients_view s' = ([[97] \<mapsto> [98]], (\<lambda>_. ([], []))(5 := ([], [1]), 6 := ([], [2, 1, 0, 0, 0, 98])))"
proof -
  obtain s where s: "cache_server_open 1 sample_open sample_server = Inr (s, 0)" using sample_opens .
  note o = opened_sample [OF s] and run = interleaved_run [OF s, unfolded feeds_def One_nat_def]
  have "afforded {[97]} 1048559 65533 (trace fed_now (cache_server_proc (Suc 0)) interleaved_rounds s) (clients_view s)"
    using run o(2) interleaved_fed(1) by simp
  from clients_refine_cache [OF o(1,5) _ this] run o(1,2) interleaved_fed(2) show ?thesis by auto
qed

theorem opened_server_serves_clients_witness:
  "\<exists>s1 s2. cache_server_open 1 sample_open sample_server = Inr (s1, 0) \<and>
     serve_rounds (Suc 0) interleaved_rounds s1 = Inr s2 \<and>
     clients_view s2 = ([[97] \<mapsto> [98]], (\<lambda>_. ([], []))(5 := ([], [1]), 6 := ([], [2, 1, 0, 0, 0, 98])))"
proof -
  obtain s where s: "cache_server_open 1 sample_open sample_server = Inr (s, 0)" using sample_opens .
  note run = interleaved_run [OF s, unfolded feeds_def One_nat_def]
  have cap: "header_size < 1048576" "(1048576 :: nat) < 2 ^ 32" by (simp_all add: header_size_def)
  have sent: "w_sent (sworld sample_server) = (\<lambda>_. [])" by (simp add: sample_server_def)
  have "afforded {[97]} (1048576 - header_size - 1) 65533
      (trace fed_now (cache_server_proc (Suc 0)) interleaved_rounds s) (Map.empty, \<lambda>fd. ([], w_sent (sworld sample_server) fd))"
    using run interleaved_fed(1) by (simp add: sent header_size_def)
  from opened_server_serves_clients [OF s sample_start(1,2) cap sample_start(3,4) _ this] run s interleaved_fed(2)
  show ?thesis by (auto simp: sent)
qed

text \<open>Another client is accepted while the first one is being sent the value.\<close>

theorem read_locks_count_readers_witness:
  "\<exists>s s' x. clients_ok {[97]} 0 s \<and> serve_rounds (Suc 0) [second_call] s = Inr s' \<and>
     index_map (index_of (sworld s')) [97] = Some (Ptr 0 x) \<and> locks (header_at (w_mem (sworld s')) (Ptr 0 x)) = 1 \<and>
     card {a \<in> set (clients s'). holds_lock (conn_at s' a) \<and> conn_entry (conn_at s' a) = Ptr 0 x} = 1"
proof -
  obtain s x where s: "served {[97]} 0 [x] s" "clients s = [0]" "current_connection s = Some 0"
    "last_accept_timestamp s = 0" "file_descriptor (conn_at s 0) = 5"
    "index_map (index_of (sworld s)) [97] = Some (Ptr 0 x)" "locks (header_at (w_mem (sworld s)) (Ptr 0 x)) = 1"
    by (rule reading_client)
  have due: "accept_due second_call s" using s(4) by (rule call_due)
  have ready: "round_ready {[97]} second_call s" using second_ready [OF due s(2)] s(5) by simp
  from accepting_round [OF s(1) due ready, of "Suc 0"]
  obtain s' where s': "serve_rounds (Suc 0) [second_call] s = Inr s'" "sworld s' = sworld s"
    by (auto simp: serve_rounds_run)
  have ok: "clients_ok {[97]} 0 s" using s(1) by (auto simp: clients_ok_def)
  have "all_ready (round_ready {[97]}) (cache_server_proc (Suc 0)) [second_call] s"
    using ready by (simp split: sum.split)
  from read_locks_count_readers [OF ok this] s' have
    "unat (locks (header_at (w_mem (sworld s')) (Ptr 0 x))) =
      card {a \<in> set (clients s'). holds_lock (conn_at s' a) \<and> conn_entry (conn_at s' a) = Ptr 0 x}"
    using s(6) by fastforce
  with ok s'(1) s(6,7) show ?thesis unfolding s'(2) [symmetric] by fastforce
qed

text \<open>A client that has sent a PUT and a GET gets the answer to the GET byte by byte.\<close>

theorem answers_are_sent_witness:
  "\<exists>s s' es. clients_ok {[97]} 0 s \<and> w_sent (sworld s) 5 = [1] \<and> serve_rounds (Suc 0) es s = Inr s' \<and>
     w_sent (sworld s') 5 = [1, 2, 1, 0, 0, 0, 98]"
proof -
  obtain s x where s: "served {[97]} 0 [x] s" "clients s = [0]" "current_connection s = Some 0"
    "last_accept_timestamp s = 0" "w_sent (sworld s) 5 = [1]" "server_io s 5 = ([], [1, 2, 1, 0, 0, 0, 98])"
    by (rule reading_client)
  let ?es = "replicate (outstanding s + 1) taking_round"
  have ok: "clients_ok {[97]} 0 s" using s(1) by (auto simp: clients_ok_def)
  have "serving_rounds (Suc 0) ?es s = outstanding s + 1" by (rule taking_rounds_serve [OF s(1,4)])
  then have "(outstanding s + 1) * length (clients s) \<le> serving_rounds (Suc 0) ?es s" using s(2) by simp
  from answers_are_sent [OF ok _ this] taking_round_drains obtain s' where
    "serve_rounds (Suc 0) ?es s = Inr s'" "\<forall>fd. w_sent (sworld s') fd = snd (snd (clients_view s) fd)"
    by (auto simp del: replicate_Suc)
  then show ?thesis using s(5,6) ok
    by (intro exI [of _ s] exI [of _ s'] exI [of _ ?es]) (simp add: clients_view_def)
qed

text \<open>The same client hangs up before any of the answer was sent.\<close>

theorem failing_clients_refine_cache_witness:
  "\<exists>s s'. clients_flagged {[97]} 0 s \<and> snd (clients_view s) 5 = ([], [1, 2, 1, 0, 0, 0, 98]) \<and>
     serve_rounds (Suc 0) [hang_up] s = Inr s' \<and> snd (clients_view s') 5 = ([], [1]) \<and>
     fst (clients_view s') = fst (clients_view s)"
proof -
  obtain s x where s: "served {[97]} 0 [x] s" "clients s = [0]" "current_connection s = Some 0"
    "last_accept_timestamp s = 0" "file_descriptor (conn_at s 0) = 5" "w_sent (sworld s) 5 = [1]"
    "server_io s 5 = ([], [1, 2, 1, 0, 0, 0, 98])" "flagged s" "\<not> owns_buffer s"
    by (rule reading_client)
  note hung = hang_up_round [OF s(3,4)]
  have inv: "clients_flagged {[97]} 0 s" using s(1,8) by (auto simp: clients_flagged_def clients_ok_def)
  have "all_ready (survivable {[97]}) (cache_server_proc (Suc 0)) [hang_up] s"
    using hung(1) s(9) by (simp add: survivable_def split: sum.split)
  moreover have ev: "event_now hang_up s = Hung 5 1"
    using hung s(3,5,6) by (simp add: event_now_def fed_now_def Let_def)
  ultimately obtain s' where s': "serve_rounds (Suc 0) [hang_up] s = Inr s'" "clients_view s' = client_step (Hung 5 1) (clients_view s)"
    using failing_clients_refine_cache [OF inv, of 0 "[hang_up]"] by (auto simp: ev)
  then show ?thesis
    using s' inv s(7) by (intro exI [of _ s] exI [of _ s']) (simp add: clients_view_def prod_eq_iff)
qed

end
