(* ===== verification/Spec2Isabelle.thy ===== *)
theory Spec2Isabelle
  imports HashMapProperties HashVectors EntryHashMap MemoryQueueProperties Waiting StaleIndex ClientProperties
begin

text \<open>
  A verification library for the cache server in \<^verbatim>\<open>src/src\<close>, a single-threaded program that keeps
  values under keys in memory and serves them to clients over sockets.

  The program and its theories.
  \<^item> \<^verbatim>\<open>hashmap.c\<close> is a robin hood hash table over items of the caller, with hash and compare callbacks:
    \<open>HashMap\<close> and \<open>HashFunctions\<close> (SipHash and MurmurHash).
  \<^item> \<^verbatim>\<open>entry_header.c\<close> is the header in front of every cached entry, with its read lock: \<open>EntryHeader\<close>.
    Its bit fields are one storage unit of eight bytes; code that touches only bit fields touches only
    these bytes, and so does the model.
  \<^item> \<^verbatim>\<open>entry_hash_map.c\<close> is the index, a hash table of pointers to entries: \<open>EntryHashMap\<close>.
  \<^item> \<^verbatim>\<open>memory_queue.c\<close> is the ring buffer that holds the entries and evicts the oldest: \<open>MemoryQueue\<close>.
  \<^item> \<^verbatim>\<open>cache_protocol.h\<close> is the wire format: \<open>CacheProtocol\<close>, where the decoding of a struct models the
    program and the encoding specifies a client; \<^verbatim>\<open>configuration.c\<close> the command line: \<open>Configuration\<close>.
  \<^item> \<^verbatim>\<open>connection.c\<close> is the state machine of one client, which uses all of the above: \<open>Connection\<close>.
  \<^item> \<^verbatim>\<open>connection_list.c\<close> links the connections that are served: \<open>ConnectionList\<close>;
    \<^verbatim>\<open>blocked_connections.c\<close> those that wait for an entry: \<open>BlockedConnections\<close>.
  \<^item> \<^verbatim>\<open>cache_server.c\<close> and \<^verbatim>\<open>main.c\<close> open everything, accept clients and give connections their turns:
    \<open>CacheServer\<close>.

  How the model corresponds to the code. Every function is a definition of the same name, and a loop or
  a block of a long function a definition of its own. Static contexts are records that are passed and
  returned; the C heap is \<open>Memory\<close>, blocks of bytes with bounds, and connections and list nodes live in
  maps from addresses. Every operation returns a \<open>result\<close>: \<open>Inl\<close> is a fault (a NULL dereference, an
  access out of bounds, a bad \<^verbatim>\<open>free\<close>, a failed \<^verbatim>\<open>assert\<close>, a loop that used up its fuel), so that "it
  returns \<open>Inr\<close>" says that the code does none of these. Integers have their width, as words or with the
  wrap-around written out. System calls, \<^verbatim>\<open>malloc\<close>, the clock and the program's callbacks are
  parameters, with their documented behaviour as named hypotheses (\<open>delivers\<close> and \<open>accepts\<close> for a
  socket that gives or takes a message in pieces, \<open>env_ok\<close>, \<open>accepts_client\<close>).

  What the lemmas show.
  \<^item> \<open>RobinHood\<close>, \<open>RobinHoodLoops\<close>, \<open>HashMapCorrect\<close>, \<open>HashMapProperties\<close>: the table invariant and
    every operation as the operation on a finite map (locale of map operations, interpreted on the
    code). \<open>HashVectors\<close>: SipHash against its published definition, which shares nothing with the code.
  \<^item> \<open>MemoryQueueCorrect\<close>, \<open>MemoryQueueProperties\<close>: the ring buffer as the FIFO sequence of its
    entries, for allocations that fit in front of a second header and for cleaning that does not read a
    stale end bit; locked entries survive these. The sizes, and the cleaning, at which the code goes
    wrong: outside these conditions the properties do not hold.
  \<^item> \<open>ConnectionSession\<close>: one connection handles a part of a message the same way in whatever pieces it
    comes. \<open>CacheContents\<close>: index and buffer together as a map from keys to values. \<open>Requests\<close> and
    \<open>UpdateRequests\<close>: a GET, PUT and DELETE from the first to the last byte. \<open>Sessions\<close>: the locale
    \<open>service\<close> lifts one request to runs of requests.
  \<^item> \<open>ServerRounds\<close>: one round of the server with any number of clients, and the loop of the program as
    a \<open>service\<close>. \<open>Waiting\<close>: why no second connection can be added to the waiting ones, and why a waiting
    connection stops the server.
  \<^item> \<open>ClientStates\<close> to \<open>ClientProperties\<close>: any number of clients at once. \<open>ClientStates\<close> says what a connection in
    the middle of a request relies on, \<open>ClientTransfers\<close>, \<open>ClientSteps\<close>, \<open>ClientHandlers\<close> and \<open>ClientTurn\<close> follow
    one turn of a connection through every handler, with whatever part of a message arrives;
    \<open>ClientPool\<close> shows that it leaves the other connections alone and keeps the read locks equal to the
    numbers of readers, \<open>ManyClients\<close> that every round of the loop feeds the arrived bytes to a map,
    and \<open>ClientRuns\<close> lifts this to runs (locale \<open>traced_service\<close>). \<open>ClientBudgets\<close> says when a run can be
    served in terms of what the clients send: the entries ever put fit into the buffer together.
    \<open>ClientAnswers\<close> shows that answers do not stay in the server: a potential (locale
    \<open>progressing_service\<close>) bounds the rounds it takes to send them. \<open>FailingClients\<close> adds clients that hang up in
    the middle of a request or an answer: their lock is returned and the others notice nothing. \<open>ClientSamples\<close> follows the pieces of a
    PUT and a GET that arrive in turns.
  The main line is \<open>opened_server_serves_clients\<close>: the opened program, with the clients it accepts, does what
  the empty map does that is fed with their bytes. \<open>answers_are_sent\<close> adds that the answers then reach the clients,
  \<open>failing_clients_refine_cache\<close> that clients may come and go at any time.
  \<open>server_refines_map\<close> adds for one client and whole requests what has been sent at the end.

  Bounds and fuel. Probe loops of the table carry the number of buckets as fuel, which the invariant
  shows to be enough, as some bucket is always empty. The loops over linked lists carry a fuel parameter:
  \<open>connection_list_close_returns\<close> gives the number of rounds, and \<open>blocked_add_returns_iff\<close> shows that
  no number is enough where the code does not end. The table is bounded by \<open>hashmap_small\<close> (fewer than
  65534 entries, at most 2^29 buckets), below the limits of the bit fields of the code. Keys come from a
  set on which the 48-bit hash is injective (\<open>key_universe\<close>), as \<open>entry_compare\<close> cannot tell apart keys of
  different length with the same hash.

  Limits of the refinement. \<open>admissible\<close> and \<open>afforded\<close> ask that a new entry fits behind the last one, so
  that nothing is evicted: the code leaves evicted entries in the index (\<open>StaleIndex\<close> shows that a GET of an
  evicted key can find the entry of another key). There are at most 65535 clients, so
  that no entry has more readers than its lock can count: a connection that has to wait stops the server
  (\<open>Waiting\<close>). A part of a message that has no bytes is never completed (\<open>empty_key_never_answered\<close>), so
  the keys of a GET or DELETE and the values that are found are not empty. Memory is granted by \<^verbatim>\<open>malloc\<close>. A socket that fails while
  its connection owns the memory of a key brings the server down (\<open>hung_round\<close>, and for one connection
  \<open>key_reception_failure_frees_interior\<close> and \<open>delete_reset_frees_connection\<close>); the runs above have reliable sockets, and
  those of \<open>failing_clients_refine_cache\<close> fail in all other phases only.

  Not modelled: the tests and mocks under \<^verbatim>\<open>src/tests\<close>, the test program at the end of \<^verbatim>\<open>hashmap.c\<close> (but for
  its helper functions), messages printed to the console, and the allocators a caller of
  \<^verbatim>\<open>hashmap.c\<close> may set, which this program does not use.
\<close>

end
